(* ===== verification/Prelude.thy ===== *)
theory Prelude
  imports "HOL-Library.Word"
begin

text \<open>
  Shared vocabulary of the development: bytes and byte strings, the fixed-width
  little- and big-endian codecs of the standard library (\<open>to_le_bytes\<close>,
  \<open>from_le_bytes\<close>, \<open>to_be_bytes\<close>, \<open>from_be_bytes\<close>), the \<open>io::Error\<close> values the
  program builds, and the sequencing of fallible, state-passing operations that
  Rust writes with the question mark operator.

  A Rust \<open>&str\<close> or \<open>String\<close> is the list of its UTF-8 bytes, so that lengths are byte
  lengths as they are in the source; an integer keeps its width as a \<open>w word\<close>.
\<close>

unbundle bit_operations_syntax

named_theorems wire_simps \<open>widths, lengths and round trips of the fixed-width codecs\<close>
named_theorems io_simps \<open>how sequenced operations succeed or fail\<close>

section \<open>Bytes\<close>

type_synonym byte = "8 word"
type_synonym bytes = "byte list"
type_synonym u16 = "16 word"
type_synonym u32 = "32 word"
type_synonym u64 = "64 word"

text \<open>An ASCII literal of the source as its bytes.\<close>

definition ascii :: "string \<Rightarrow> bytes" where
  "ascii s = map of_char s"

lemma length_ascii [simp]: "length (ascii s) = length s"
  by (simp add: ascii_def)

subsection \<open>Little-endian and big-endian encodings\<close>

text \<open>\<open>le_bytes n v\<close> are the \<open>n\<close> low bytes of \<open>v\<close>, least significant first.\<close>

fun le_bytes :: "nat \<Rightarrow> nat \<Rightarrow> bytes" where
  "le_bytes 0 v = []"
| "le_bytes (Suc n) v = word_of_nat (v mod 256) # le_bytes n (v div 256)"

fun le_nat :: "bytes \<Rightarrow> nat" where
  "le_nat [] = 0"
| "le_nat (b # bs) = unat b + 256 * le_nat bs"

definition be_bytes :: "nat \<Rightarrow> nat \<Rightarrow> bytes" where
  "be_bytes n v = rev (le_bytes n v)"

definition be_nat :: "bytes \<Rightarrow> nat" where
  "be_nat bs = le_nat (rev bs)"

lemma length_le_bytes [simp, wire_simps]: "length (le_bytes n v) = n"
  by (induction n arbitrary: v) auto

lemma length_be_bytes [simp, wire_simps]: "length (be_bytes n v) = n"
  by (simp add: be_bytes_def)

lemma unat_byte_of_nat [simp]: "v < 256 \<Longrightarrow> unat (word_of_nat v :: byte) = v"
  by (simp add: unat_of_nat)

lemma byte_of_unat [simp]: "word_of_nat (unat (b :: byte)) = b"
  by simp

lemma unat_byte_lt [simp]: "unat (b :: byte) < 256"
  using unsigned_less [of b, where ?'a = nat] by simp

lemma le_nat_le_bytes: "le_nat (le_bytes n v) = v mod 256 ^ n"
  by (induction n arbitrary: v) (simp_all add: mod_mult2_eq)

lemma le_bytes_le_nat: "le_bytes (length bs) (le_nat bs) = bs"
proof (induction bs)
  case (Cons b bs)
  have "(unat b + 256 * le_nat bs) div 256 = le_nat bs"
    using unat_byte_lt [of b] by simp
  moreover have "(unat b + 256 * le_nat bs) mod 256 = unat b"
    using unat_byte_lt [of b] by simp
  ultimately show ?case using Cons by simp
qed simp

lemma le_nat_bound: "le_nat bs < 256 ^ length bs"
proof (induction bs)
  case (Cons b bs)
  have "unat b + 256 * le_nat bs < 256 * (le_nat bs + 1)"
    using unat_byte_lt [of b] by simp
  also have "\<dots> \<le> 256 * 256 ^ length bs"
    using Cons by (intro mult_le_mono2) simp
  finally show ?case by simp
qed simp

text \<open>The codecs at the widths the program uses.\<close>

definition u16_to_le :: "u16 \<Rightarrow> bytes" where "u16_to_le w = le_bytes 2 (unat w)"
definition u32_to_le :: "u32 \<Rightarrow> bytes" where "u32_to_le w = le_bytes 4 (unat w)"
definition u64_to_le :: "u64 \<Rightarrow> bytes" where "u64_to_le w = le_bytes 8 (unat w)"
definition u32_to_be :: "u32 \<Rightarrow> bytes" where "u32_to_be w = be_bytes 4 (unat w)"
definition u64_to_be :: "u64 \<Rightarrow> bytes" where "u64_to_be w = be_bytes 8 (unat w)"

definition u16_from_le :: "bytes \<Rightarrow> u16" where "u16_from_le bs = word_of_nat (le_nat bs)"
definition u32_from_le :: "bytes \<Rightarrow> u32" where "u32_from_le bs = word_of_nat (le_nat bs)"
definition u64_from_le :: "bytes \<Rightarrow> u64" where "u64_from_le bs = word_of_nat (le_nat bs)"
definition u32_from_be :: "bytes \<Rightarrow> u32" where "u32_from_be bs = word_of_nat (be_nat bs)"

lemma length_codecs [simp, wire_simps]:
  "length (u16_to_le a) = 2" "length (u32_to_le b) = 4" "length (u64_to_le c) = 8"
  "length (u32_to_be b) = 4" "length (u64_to_be c) = 8"
  by (simp_all add: u16_to_le_def u32_to_le_def u64_to_le_def u32_to_be_def u64_to_be_def)

lemma u16_le_roundtrip [simp, wire_simps]: "u16_from_le (u16_to_le w) = w"
  using unsigned_less [of w, where ?'a = nat] by (simp add: u16_to_le_def u16_from_le_def le_nat_le_bytes)

lemma u32_le_roundtrip [simp, wire_simps]: "u32_from_le (u32_to_le w) = w"
  using unsigned_less [of w, where ?'a = nat] by (simp add: u32_to_le_def u32_from_le_def le_nat_le_bytes)

lemma u64_le_roundtrip [simp, wire_simps]: "u64_from_le (u64_to_le w) = w"
  using unsigned_less [of w, where ?'a = nat] by (simp add: u64_to_le_def u64_from_le_def le_nat_le_bytes)

lemma u32_be_roundtrip [simp, wire_simps]: "u32_from_be (u32_to_be w) = w"
  using unsigned_less [of w, where ?'a = nat]
  by (simp add: u32_to_be_def u32_from_be_def be_nat_def be_bytes_def le_nat_le_bytes)

lemma u16_from_le_inverse: "length bs = 2 \<Longrightarrow> u16_to_le (u16_from_le bs) = bs"
  using le_nat_bound [of bs] le_bytes_le_nat [of bs]
  by (simp add: u16_to_le_def u16_from_le_def unat_of_nat)

lemma u32_from_le_inverse: "length bs = 4 \<Longrightarrow> u32_to_le (u32_from_le bs) = bs"
  using le_nat_bound [of bs] le_bytes_le_nat [of bs]
  by (simp add: u32_to_le_def u32_from_le_def unat_of_nat)

lemma u64_from_le_inverse: "length bs = 8 \<Longrightarrow> u64_to_le (u64_from_le bs) = bs"
  using le_nat_bound [of bs] le_bytes_le_nat [of bs]
  by (simp add: u64_to_le_def u64_from_le_def unat_of_nat)

lemma unat_u16_of_nat [simp]: "n < 65536 \<Longrightarrow> unat (word_of_nat n :: u16) = n"
  by (simp add: unat_of_nat)

lemma unat_u64_of_nat [simp]: "n < 2 ^ 64 \<Longrightarrow> unat (word_of_nat n :: u64) = n"
  by (simp add: unat_of_nat)

section \<open>Errors\<close>

text \<open>
  \<open>errno\<close> values the program tests by name, \<open>io::ErrorKind\<close> values it builds or tests,
  and \<open>io::Error\<close> itself: an OS error carries its \<open>errno\<close>, an error built by the
  program its kind and the message, kept as a \<open>cause\<close> with the values the message
  interpolates.
\<close>

datatype (plugins only: code size) errno =
    EEXIST | EACCES | ENAMETOOLONG | ENOTSUP | EINVAL | ELOOP | ENOENT | EBADF | EINTR
  | EAGAIN | ETIMEDOUT | ENOTDIR | EISDIR | ENOSPC | EIO | EPIPE | ECONNREFUSED

datatype (plugins only: code size) error_kind =
    InvalidData | InvalidInput | PermissionDenied | UnexpectedEof | NotFound | Interrupted
  | WouldBlock | TimedOut | AlreadyExists | BrokenPipe | WriteZero | Other | Uncategorized

datatype (plugins only: code size) cause =
    Simple
  | UnknownEntryKind byte
  | PathNotUtf8
  | SymlinkTargetTooLong u64
  | NotThunderflash
  | VersionUnsupported byte
  | UnknownFlags byte
  | TokenMismatch
  | IndexBeforePrimary u32
  | StreamCountOutOfRange u32
  | BandVersion byte
  | BandNoTail
  | BandCountDiffers u32 u32
  | BandIndexOutside u32 u32
  | BandVerifyDiffers
  | RefusedPath bytes
  | NameContainsNul
  | DestNotUtf8
  | RefusingDescend bytes
  | NotRegularFile
  | VerificationFailed bytes
  | Truncated bytes u64 u64
  | LinkNotUtf8
  | WriterStopped
  | ReaderPanicked | HashPanicked | WriterPanicked | LanePanicked
  | CannotName bytes
  | TargetNotUtf8 bytes
  | NameNotUtf8 bytes
  | LinkChanged bytes u64 nat
  | FileShrank bytes u64 nat
  | NotAcknowledged
  | NoBridge bytes
  | NoReceiver
  | PhraseRequired
  | NotFilled

datatype (plugins only: code size) io_error =
    OsError errno
  | IoError error_kind cause
  | StreamError nat io_error

fun kind_of_errno :: "errno \<Rightarrow> error_kind" where
  "kind_of_errno EEXIST = AlreadyExists"
| "kind_of_errno EACCES = PermissionDenied"
| "kind_of_errno EINVAL = InvalidInput"
| "kind_of_errno ENOENT = NotFound"
| "kind_of_errno EINTR = Interrupted"
| "kind_of_errno EAGAIN = WouldBlock"
| "kind_of_errno ETIMEDOUT = TimedOut"
| "kind_of_errno EPIPE = BrokenPipe"
| "kind_of_errno _ = Uncategorized"

text \<open>\<open>io::Error::kind\<close>; a lane's error is re-wrapped with \<open>io::Error::other\<close>.\<close>

fun err_kind :: "io_error \<Rightarrow> error_kind" where
  "err_kind (OsError e) = kind_of_errno e"
| "err_kind (IoError k c) = k"
| "err_kind (StreamError i e) = Other"

fun raw_os_error :: "io_error \<Rightarrow> errno option" where
  "raw_os_error (OsError e) = Some e"
| "raw_os_error _ = None"

abbreviation eof_error :: io_error where
  "eof_error \<equiv> IoError UnexpectedEof NotFilled"

section \<open>Sequencing of fallible operations\<close>

text \<open>
  An operation on a state \<open>'s\<close> returns \<open>Inl\<close> of an error or \<open>Inr\<close> of a value, and the
  new state either way: a failing call has still moved the socket, the file system or
  the counters. \<open>io_bind\<close> is Rust's question mark: stop at the first error.
\<close>

type_synonym 'a result = "io_error + 'a"
type_synonym ('s, 'a) op = "'s \<Rightarrow> 'a result \<times> 's"

definition io_return :: "'a \<Rightarrow> ('s, 'a) op" where
  "io_return a s = (Inr a, s)"

definition io_throw :: "io_error \<Rightarrow> ('s, 'a) op" where
  "io_throw e s = (Inl e, s)"

definition io_bind :: "('s, 'a) op \<Rightarrow> ('a \<Rightarrow> ('s, 'b) op) \<Rightarrow> ('s, 'b) op" where
  "io_bind m f s = (case m s of (Inl e, s') \<Rightarrow> (Inl e, s') | (Inr a, s') \<Rightarrow> f a s')"

lemma io_return_simp [simp, io_simps]: "io_return a s = (Inr a, s)"
  by (simp add: io_return_def)

lemma io_throw_simp [simp, io_simps]: "io_throw e s = (Inl e, s)"
  by (simp add: io_throw_def)

lemma io_bind_Inr [io_simps]:
  "io_bind m f s = (Inr b, t) \<longleftrightarrow> (\<exists>a s'. m s = (Inr a, s') \<and> f a s' = (Inr b, t))"
  by (auto simp: io_bind_def split: prod.splits sum.splits)

lemma io_bind_Inl [io_simps]:
  "io_bind m f s = (Inl e, t) \<longleftrightarrow>
     m s = (Inl e, t) \<or> (\<exists>a s'. m s = (Inr a, s') \<and> f a s' = (Inl e, t))"
  by (auto simp: io_bind_def split: prod.splits sum.splits)

lemma io_bind_ok [simp]: "m s = (Inr a, s') \<Longrightarrow> io_bind m f s = f a s'"
  by (simp add: io_bind_def)

lemma io_bind_err [simp]: "m s = (Inl e, s') \<Longrightarrow> io_bind m f s = (Inl e, s')"
  by (simp add: io_bind_def)

lemma io_bind_cong [fundef_cong]:
  "m s = m' s' \<Longrightarrow> s = s' \<Longrightarrow> (\<And>a t. m' s' = (Inr a, t) \<Longrightarrow> f a t = f' a t) \<Longrightarrow>
   io_bind m f s = io_bind m' f' s'"
  by (auto simp: io_bind_def split: prod.splits sum.splits)

lemma io_bind_assoc: "io_bind (io_bind m f) g = io_bind m (\<lambda>a. io_bind (f a) g)"
  by (rule ext) (simp add: io_bind_def split: prod.splits sum.splits)

section \<open>Lists\<close>

lemma take_append_le: "n \<le> length xs \<Longrightarrow> take n (xs @ ys) = take n xs"
  by simp

lemma drop_append_le: "n \<le> length xs \<Longrightarrow> drop n (xs @ ys) = drop n xs @ ys"
  by simp

lemma take_split: "n \<le> m \<Longrightarrow> take m xs = take n xs @ take (m - n) (drop n xs)"
  by (metis le_add_diff_inverse take_add)

text \<open>The chunks of a list, as Rust's \<open>chunks\<close> cuts them.\<close>

fun chunks :: "nat \<Rightarrow> 'a list \<Rightarrow> 'a list list" where
  "chunks n [] = []"
| "chunks n (x # xs) =
     (if n = 0 then [x # xs] else take n (x # xs) # chunks n (drop (n - 1) xs))"

lemma concat_chunks: "concat (chunks n xs) = xs"
proof (induction n xs rule: chunks.induct)
  case (2 n x xs)
  show ?case
  proof (cases "n = 0")
    case False
    with 2 have "concat (chunks n (x # xs)) = take n (x # xs) @ drop n (x # xs)"
      by (cases n) simp_all
    then show ?thesis by simp
  qed simp
qed simp

lemma chunks_bound: "0 < n \<Longrightarrow> c \<in> set (chunks n xs) \<Longrightarrow> 0 < length c \<and> length c \<le> n"
  by (induction n xs rule: chunks.induct) (auto split: if_splits)

end
