(* ===== verification/Effects.thy ===== *)
theory Effects
  imports Prelude
begin

text \<open>
  A small calculus for fallible, state-passing operations. \<open>spec R P m Q\<close> says: started in
  a state with \<open>P\<close>, the operation \<open>m\<close> moves the state along the relation \<open>R\<close> whether it
  succeeds or fails, and a value it returns satisfies \<open>Q\<close>. The locale \<open>effect\<close> asks of \<open>R\<close>
  only that steps compose; each client interprets it at its own relation (the confinement
  of system calls, the growth of a message log) and reasons by the rules proved here once.
\<close>

definition spec ::
  "('s \<Rightarrow> 's \<Rightarrow> bool) \<Rightarrow> ('s \<Rightarrow> bool) \<Rightarrow> ('s, 'a) op \<Rightarrow> ('a \<Rightarrow> 's \<Rightarrow> bool) \<Rightarrow> bool" where
  "spec R P m Q \<longleftrightarrow>
     (\<forall>s r s'. P s \<longrightarrow> m s = (r, s') \<longrightarrow> R s s' \<and> (\<forall>v. r = Inr v \<longrightarrow> Q v s'))"

lemma specI:
  assumes "\<And>s r s'. P s \<Longrightarrow> m s = (r, s') \<Longrightarrow> R s s' \<and> (\<forall>v. r = Inr v \<longrightarrow> Q v s')"
  shows "spec R P m Q"
  using assms by (auto simp: spec_def)

lemma specD: "spec R P m Q \<Longrightarrow> P s \<Longrightarrow> m s = (r, s') \<Longrightarrow> R s s'"
  by (auto simp: spec_def)

lemma specE: "spec R P m Q \<Longrightarrow> P s \<Longrightarrow> m s = (Inr v, s') \<Longrightarrow> R s s' \<and> Q v s'"
  by (auto simp: spec_def)

lemma spec_weaken:
  assumes "spec R P' m Q'" and "\<And>s. P s \<Longrightarrow> P' s" and "\<And>v s. Q' v s \<Longrightarrow> Q v s"
  shows "spec R P m Q"
proof (rule specI)
  fix s r s' assume p: "P s" and e: "m s = (r, s')"
  from assms(2) [OF p] have "P' s" .
  with assms(1,3) e show "R s s' \<and> (\<forall>v. r = Inr v \<longrightarrow> Q v s')"
    unfolding spec_def by blast
qed

lemma spec_pre: "(\<And>s. P s \<Longrightarrow> spec R ((=) s) m Q) \<Longrightarrow> spec R P m Q"
  by (auto simp: spec_def)

lemma spec_case_sum:
  assumes "\<And>e. x = Inl e \<Longrightarrow> spec R P (f e) Q" and "\<And>v. x = Inr v \<Longrightarrow> spec R P (g v) Q"
  shows "spec R P (case x of Inl e \<Rightarrow> f e | Inr v \<Rightarrow> g v) Q"
  using assms by (cases x) auto

lemma spec_case_option:
  assumes "x = None \<Longrightarrow> spec R P f Q" and "\<And>v. x = Some v \<Longrightarrow> spec R P (g v) Q"
  shows "spec R P (case x of None \<Rightarrow> f | Some v \<Rightarrow> g v) Q"
  using assms by (cases x) auto

lemma spec_if:
  "(b \<Longrightarrow> spec R P m Q) \<Longrightarrow> (\<not> b \<Longrightarrow> spec R P n Q) \<Longrightarrow> spec R P (if b then m else n) Q"
  by simp

text \<open>\<open>let _ = m\<close>: run an operation and ignore how it went.\<close>

definition io_ignore :: "('s, 'a) op \<Rightarrow> ('s, unit) op" where
  "io_ignore m s = (Inr (), snd (m s))"

text \<open>\<open>map_err\<close>.\<close>

definition io_map_err :: "(io_error \<Rightarrow> io_error) \<Rightarrow> ('s, 'a) op \<Rightarrow> ('s, 'a) op" where
  "io_map_err f m s = (case m s of (Inl e, s') \<Rightarrow> (Inl (f e), s') | (Inr v, s') \<Rightarrow> (Inr v, s'))"

text \<open>Matching on the error: \<open>h\<close> says what to do about it.\<close>

definition io_catch :: "('s, 'a) op \<Rightarrow> (io_error \<Rightarrow> ('s, 'a) op) \<Rightarrow> ('s, 'a) op" where
  "io_catch m h s = (case m s of (Inl e, s') \<Rightarrow> h e s' | (Inr v, s') \<Rightarrow> (Inr v, s'))"

text \<open>An operation on a part of the state.\<close>

definition zoom :: "('s \<Rightarrow> 't) \<Rightarrow> ('t \<Rightarrow> 's \<Rightarrow> 's) \<Rightarrow> ('t, 'a) op \<Rightarrow> ('s, 'a) op" where
  "zoom get put m s = (case m (get s) of (r, t) \<Rightarrow> (r, put t s))"

lemma io_ignore_Inr [io_simps]: "io_ignore m s = (Inr u, t) \<longleftrightarrow> t = snd (m s)"
  by (auto simp: io_ignore_def)

lemma io_ignore_Inl [io_simps]: "io_ignore m s \<noteq> (Inl e, t)"
  by (simp add: io_ignore_def)

lemma io_map_err_Inr [io_simps]: "io_map_err f m s = (Inr v, t) \<longleftrightarrow> m s = (Inr v, t)"
  by (auto simp: io_map_err_def split: prod.splits sum.splits)

lemma io_map_err_Inl [io_simps]:
  "io_map_err f m s = (Inl e, t) \<longleftrightarrow> (\<exists>e'. m s = (Inl e', t) \<and> e = f e')"
  by (auto simp: io_map_err_def split: prod.splits sum.splits)

lemma io_catch_Inr [io_simps]:
  "io_catch m h s = (Inr v, t) \<longleftrightarrow>
     m s = (Inr v, t) \<or> (\<exists>e s'. m s = (Inl e, s') \<and> h e s' = (Inr v, t))"
  by (auto simp: io_catch_def split: prod.splits sum.splits)

lemma zoom_eq [io_simps]:
  "zoom get put m s = (r, t) \<longleftrightarrow> (\<exists>u. m (get s) = (r, u) \<and> t = put u s)"
  by (auto simp: zoom_def split: prod.splits)

locale effect =
  fixes R :: "'s \<Rightarrow> 's \<Rightarrow> bool"
  assumes refl: "R s s"
    and trans: "R s t \<Longrightarrow> R t u \<Longrightarrow> R s u"

context effect begin

lemma spec_return: "(\<And>s. P s \<Longrightarrow> Q v s) \<Longrightarrow> spec R P (io_return v) Q"
  by (auto simp: spec_def refl)

lemma spec_throw: "spec R P (io_throw e) Q"
  by (auto simp: spec_def refl)

lemma spec_bind:
  assumes "spec R P m M" and "\<And>v. spec R (M v) (f v) Q"
  shows "spec R P (io_bind m f) Q"
proof (rule specI)
  fix s r s' assume p: "P s" and e: "io_bind m f s = (r, s')"
  obtain x t where m: "m s = (x, t)" by (cases "m s")
  show "R s s' \<and> (\<forall>v. r = Inr v \<longrightarrow> Q v s')"
  proof (cases x)
    case (Inl err)
    with m e specD [OF assms(1) p m] show ?thesis by auto
  next
    case (Inr v)
    with m have i: "m s = (Inr v, t)" by simp
    from specE [OF assms(1) p this] have t: "R s t" "M v t" by auto
    from i e have "f v t = (r, s')" by simp
    with assms(2) t(2) have "R t s' \<and> (\<forall>v. r = Inr v \<longrightarrow> Q v s')"
      unfolding spec_def by blast
    with t(1) trans show ?thesis by blast
  qed
qed

text \<open>Sequencing when the precondition survives the first step.\<close>

lemma spec_seq:
  assumes "spec R P m (\<lambda>v s. P s \<and> M v s)" and "\<And>v. spec R (\<lambda>s. P s \<and> M v s) (f v) Q"
  shows "spec R P (io_bind m f) Q"
  using assms by (rule spec_bind)

lemma spec_ignore:
  assumes "spec R P m (\<lambda>_ _. True)" and "\<And>s s'. P s \<Longrightarrow> R s s' \<Longrightarrow> Q () s'"
  shows "spec R P (io_ignore m) Q"
proof (rule specI)
  fix s r s' assume p: "P s" and e: "io_ignore m s = (r, s')"
  obtain x where m: "m s = (x, s')" using e by (cases "m s") (auto simp: io_ignore_def)
  from specD [OF assms(1) p m] assms(2) [OF p] show "R s s' \<and> (\<forall>v. r = Inr v \<longrightarrow> Q v s')"
    by auto
qed

lemma spec_map_err: "spec R P m Q \<Longrightarrow> spec R P (io_map_err f m) Q"
  by (auto simp: spec_def io_map_err_def split: prod.splits sum.splits)

lemma spec_catch:
  assumes m: "spec R P m Q" and st: "\<And>s s'. P s \<Longrightarrow> R s s' \<Longrightarrow> P' s'"
    and h: "\<And>e. spec R P' (h e) Q"
  shows "spec R P (io_catch m h) Q"
proof (rule specI)
  fix s r s' assume p: "P s" and e: "io_catch m h s = (r, s')"
  obtain x t where mt: "m s = (x, t)" by (cases "m s")
  from specD [OF m p mt] have t: "R s t" .
  show "R s s' \<and> (\<forall>v. r = Inr v \<longrightarrow> Q v s')"
  proof (cases x)
    case (Inl err)
    with mt e have "h err t = (r, s')" by (simp add: io_catch_def)
    with h [of err] st [OF p t] have "R t s' \<and> (\<forall>v. r = Inr v \<longrightarrow> Q v s')"
      unfolding spec_def by blast
    with t trans show ?thesis by blast
  next
    case (Inr v)
    with mt e t specE [OF m p, of v t] show ?thesis by (auto simp: io_catch_def)
  qed
qed

text \<open>A postcondition strengthened by whatever the relation carries along.\<close>

lemma spec_stable:
  assumes "spec R P m Q" and "\<And>s s'. P s \<Longrightarrow> R s s' \<Longrightarrow> P' s'"
  shows "spec R P m (\<lambda>v s. P' s \<and> Q v s)"
  using assms unfolding spec_def by blast

end

lemma io_bind_eq:
  "io_bind m f s = (r, t) \<longleftrightarrow>
     (\<exists>e. m s = (Inl e, t) \<and> r = Inl e) \<or> (\<exists>a u. m s = (Inr a, u) \<and> f a u = (r, t))"
  by (auto simp: io_bind_def split: prod.splits sum.splits)

text \<open>Zooming into a part keeps a specification, with the relation read off the part.\<close>

lemma spec_zoom:
  assumes "spec R P m Q" and "\<And>t s. get (put t s) = t"
  shows "spec (\<lambda>s s'. R (get s) (get s')) (\<lambda>s. P (get s)) (zoom get put m) (\<lambda>v s. Q v (get s))"
  using assms unfolding spec_def zoom_def by (auto split: prod.splits)

end
