(* ===== verification/Wire.thy ===== *)
theory Wire
  imports Prelude
begin

text \<open>
  The wire format of \<open>src/wire.rs\<close>: the constants, entry headers, both handshakes, the
  manifest bitmap, the token comparison, the path sanitiser, the two environment knobs
  and the hashing helper. Everything that reads is generic over the reader, as the
  source is generic over \<open>impl Read\<close>; the locale \<open>reader\<close> states what a reader owes
  its client and is interpreted on the in-memory cursor here and on the socket types
  in \<open>Staged\<close>.
\<close>

section \<open>Constants\<close>

definition MAGIC :: u32 where "MAGIC = 0x54464C53"
definition VERSION :: byte where "VERSION = 3"
definition VERSION_MULTI :: byte where "VERSION_MULTI = 4"
definition TOKEN_LEN :: nat where "TOKEN_LEN = 32"
definition HANDSHAKE_LEN :: nat where "HANDSHAKE_LEN = 6 + TOKEN_LEN"
definition STREAMS_EXTRA_LEN :: nat where "STREAMS_EXTRA_LEN = 8"
definition MAX_STREAMS :: u32 where "MAX_STREAMS = 16"
definition FLAG_NO_VERIFY :: byte where "FLAG_NO_VERIFY = 1"
definition KNOWN_FLAGS :: byte where "KNOWN_FLAGS = FLAG_NO_VERIFY"
definition ACK :: byte where "ACK = 0xFF"
definition CHUNK :: nat where "CHUNK = 4 * 1024 * 1024"
definition DIGEST_LEN :: nat where "DIGEST_LEN = 32"
definition RAYON_MIN :: nat where "RAYON_MIN = 256 * 1024"
definition NOCACHE_MIN :: u64 where "NOCACHE_MIN = 1024 * 1024"
definition MAX_PATH_LEN :: nat where "MAX_PATH_LEN = 4096"
definition QUEUE_DEPTH :: nat where "QUEUE_DEPTH = 4"

lemmas wire_consts =
  MAGIC_def VERSION_def VERSION_MULTI_def TOKEN_LEN_def HANDSHAKE_LEN_def
  STREAMS_EXTRA_LEN_def FLAG_NO_VERIFY_def KNOWN_FLAGS_def DIGEST_LEN_def

section \<open>Knobs read from the environment\<close>

text \<open>
  \<open>str::trim\<close> removes the characters with the Unicode property \<open>White_Space\<close>; these are
  their UTF-8 encodings. In valid UTF-8 none of them can start or end inside another
  character, so trimming is by prefix and by suffix.
\<close>

definition white_space :: "bytes list" where
  "white_space =
     [[0x09], [0x0A], [0x0B], [0x0C], [0x0D], [0x20], [0xC2, 0x85], [0xC2, 0xA0],
      [0xE1, 0x9A, 0x80], [0xE2, 0x80, 0x80], [0xE2, 0x80, 0x81], [0xE2, 0x80, 0x82],
      [0xE2, 0x80, 0x83], [0xE2, 0x80, 0x84], [0xE2, 0x80, 0x85], [0xE2, 0x80, 0x86],
      [0xE2, 0x80, 0x87], [0xE2, 0x80, 0x88], [0xE2, 0x80, 0x89], [0xE2, 0x80, 0x8A],
      [0xE2, 0x80, 0xA8], [0xE2, 0x80, 0xA9], [0xE2, 0x80, 0xAF], [0xE2, 0x81, 0x9F],
      [0xE3, 0x80, 0x80]]"

fun starts_with :: "bytes \<Rightarrow> bytes \<Rightarrow> bool" where
  "starts_with [] s = True"
| "starts_with (p # ps) [] = False"
| "starts_with (p # ps) (x # xs) = (p = x \<and> starts_with ps xs)"

text \<open>Strip leading occurrences of the given non-empty patterns.\<close>

function strip_prefixes :: "bytes list \<Rightarrow> bytes \<Rightarrow> bytes" where
  "strip_prefixes ws s =
     (case filter (\<lambda>w. w \<noteq> [] \<and> starts_with w s) ws of
        [] \<Rightarrow> s
      | w # _ \<Rightarrow> strip_prefixes ws (drop (length w) s))"
  by pat_completeness auto

lemma starts_with_length: "starts_with w s \<Longrightarrow> length w \<le> length s"
  by (induction w s rule: starts_with.induct) auto

lemma filter_hd_member: "filter P xs = w # ws \<Longrightarrow> P w \<and> w \<in> set xs"
  by (auto simp: filter_eq_Cons_iff)

termination strip_prefixes
  by (relation "measure (\<lambda>(ws, s). length s)")
    (auto dest!: filter_hd_member dest: starts_with_length simp: le_diff_conv
      intro!: diff_less simp flip: length_greater_0_conv)

declare strip_prefixes.simps [simp del]

definition trim :: "bytes \<Rightarrow> bytes" where
  "trim s = rev (strip_prefixes (map rev white_space)
                   (rev (strip_prefixes white_space s)))"

text \<open>
  \<open>str::parse\<close> at an unsigned type of maximum \<open>mx\<close>: an optional plus sign, at least one
  digit, digits only, and no value above the maximum.
\<close>

fun parse_digits :: "nat \<Rightarrow> bytes \<Rightarrow> nat option" where
  "parse_digits acc [] = Some acc"
| "parse_digits acc (b # bs) =
     (if 0x30 \<le> b \<and> b \<le> 0x39 then parse_digits (10 * acc + (unat b - 48)) bs else None)"

definition parse_uint :: "nat \<Rightarrow> bytes \<Rightarrow> nat option" where
  "parse_uint mx s =
     (let ds = (case s of b # bs \<Rightarrow> if b = 0x2B then bs else s | [] \<Rightarrow> [])
      in if ds = [] then None
         else case parse_digits 0 ds of
                None \<Rightarrow> None
              | Some n \<Rightarrow> if n \<le> mx then Some n else None)"

definition clamp_depth :: "bytes option \<Rightarrow> nat" where
  "clamp_depth raw =
     (case Option.bind raw (\<lambda>v. parse_uint (2 ^ 64 - 1) (trim v)) of
        Some n \<Rightarrow> max 1 (min n 64)
      | None \<Rightarrow> QUEUE_DEPTH)"

text \<open>
  \<open>queue_depth\<close> and \<open>streams_count\<close> read the environment once; the variable's value
  (\<open>None\<close> when unset or not Unicode) is their argument.
\<close>

definition queue_depth :: "bytes option \<Rightarrow> nat" where
  "queue_depth env = clamp_depth env"

definition streams_count :: "bytes option \<Rightarrow> nat" where
  "streams_count env =
     (let n = (case Option.bind env (\<lambda>v. parse_uint (2 ^ 32 - 1) (trim v)) of
                 None \<Rightarrow> 1
               | Some n \<Rightarrow> if 1 \<le> n then n else 1)
      in min n (unat MAX_STREAMS))"

lemma clamp_depth_bounds: "1 \<le> clamp_depth raw \<and> clamp_depth raw \<le> 64"
  by (auto simp: clamp_depth_def QUEUE_DEPTH_def split: option.splits)

lemma streams_count_bounds: "1 \<le> streams_count env \<and> streams_count env \<le> 16"
  by (auto simp: streams_count_def MAX_STREAMS_def Let_def split: option.splits)

section \<open>Hashing\<close>

text \<open>
  BLAKE3 is a third-party crate, so its hasher is a parameter of the model: the state of
  \<open>blake3::Hasher\<close> and its methods. \<open>blake3_ok\<close> is its documented contract: the digest is
  32 bytes, depends only on the bytes absorbed since creation or the last \<open>reset\<close>,
  and \<open>update_rayon\<close> absorbs what \<open>update\<close> absorbs.
\<close>

record 'h blake3 =
  b3_new :: 'h
  b3_update :: "'h \<Rightarrow> bytes \<Rightarrow> 'h"
  b3_update_rayon :: "'h \<Rightarrow> bytes \<Rightarrow> 'h"
  b3_finalize :: "'h \<Rightarrow> bytes"
  b3_reset :: "'h \<Rightarrow> 'h"
  b3_hash :: "bytes \<Rightarrow> bytes"

definition blake3_ok :: "'h blake3 \<Rightarrow> ('h \<Rightarrow> bytes) \<Rightarrow> bool" where
  "blake3_ok B absorbed \<longleftrightarrow>
     absorbed (b3_new B) = [] \<and>
     (\<forall>h bs. absorbed (b3_update B h bs) = absorbed h @ bs) \<and>
     (\<forall>h bs. absorbed (b3_update_rayon B h bs) = absorbed h @ bs) \<and>
     (\<forall>h. absorbed (b3_reset B h) = []) \<and>
     (\<forall>h. b3_finalize B h = b3_hash B (absorbed h)) \<and>
     (\<forall>bs. length (b3_hash B bs) = DIGEST_LEN)"

definition digest :: "'h blake3 \<Rightarrow> bytes \<Rightarrow> bytes" where
  "digest B bs = b3_hash B bs"

definition hash_update :: "'h blake3 \<Rightarrow> 'h \<Rightarrow> bytes \<Rightarrow> 'h" where
  "hash_update B h bs =
     (if RAYON_MIN \<le> length bs then b3_update_rayon B h bs else b3_update B h bs)"

lemma absorbed_hash_update:
  "blake3_ok B absorbed \<Longrightarrow> absorbed (hash_update B h bs) = absorbed h @ bs"
  by (simp add: blake3_ok_def hash_update_def)

lemma absorbed_fold_update:
  "blake3_ok B absorbed \<Longrightarrow>
   absorbed (foldl (hash_update B) h css) = absorbed h @ concat css"
  by (induction css arbitrary: h) (simp_all add: absorbed_hash_update)

lemma finalize_absorbed: "blake3_ok B absorbed \<Longrightarrow> b3_finalize B h = digest B (absorbed h)"
  by (simp add: blake3_ok_def digest_def)

lemma absorbed_new: "blake3_ok B absorbed \<Longrightarrow> absorbed (b3_new B) = []"
  by (simp add: blake3_ok_def)

lemma absorbed_reset: "blake3_ok B absorbed \<Longrightarrow> absorbed (b3_reset B h) = []"
  by (simp add: blake3_ok_def)

lemma length_digest: "blake3_ok B absorbed \<Longrightarrow> length (digest B bs) = DIGEST_LEN"
  by (simp add: blake3_ok_def digest_def)

text \<open>
  A concrete hasher for the witnesses: it satisfies the contract, and is of course not
  BLAKE3.
\<close>

definition fold_hasher :: "bytes blake3" where
  "fold_hasher =
     \<lparr>b3_new = [], b3_update = (\<lambda>h bs. h @ bs), b3_update_rayon = (\<lambda>h bs. h @ bs),
      b3_finalize = (\<lambda>h. take 32 (h @ replicate 32 0)), b3_reset = (\<lambda>_. []),
      b3_hash = (\<lambda>h. take 32 (h @ replicate 32 0))\<rparr>"

lemma fold_hasher_ok: "blake3_ok fold_hasher id"
  by (simp add: blake3_ok_def fold_hasher_def DIGEST_LEN_def min_def)

section \<open>UTF-8\<close>

text \<open>
  The validity check of \<open>String::from_utf8\<close>: the well-formed byte sequences of the
  Unicode standard (no overlong forms, no surrogates, nothing above U+10FFFF).
\<close>

definition utf8_cont :: "byte \<Rightarrow> bool" where
  "utf8_cont b \<longleftrightarrow> 0x80 \<le> b \<and> b \<le> 0xBF"

fun utf8_valid :: "bytes \<Rightarrow> bool" where
  "utf8_valid [] = True"
| "utf8_valid (a # r) =
     (if a \<le> 0x7F then utf8_valid r
      else if 0xC2 \<le> a \<and> a \<le> 0xDF then
        (case r of b # r' \<Rightarrow> utf8_cont b \<and> utf8_valid r' | _ \<Rightarrow> False)
      else if 0xE0 \<le> a \<and> a \<le> 0xEF then
        (case r of b # c # r' \<Rightarrow>
           (if a = 0xE0 then 0xA0 \<le> b \<and> b \<le> 0xBF
            else if a = 0xED then 0x80 \<le> b \<and> b \<le> 0x9F else utf8_cont b) \<and>
           utf8_cont c \<and> utf8_valid r'
         | _ \<Rightarrow> False)
      else if 0xF0 \<le> a \<and> a \<le> 0xF4 then
        (case r of b # c # d # r' \<Rightarrow>
           (if a = 0xF0 then 0x90 \<le> b \<and> b \<le> 0xBF
            else if a = 0xF4 then 0x80 \<le> b \<and> b \<le> 0x8F else utf8_cont b) \<and>
           utf8_cont c \<and> utf8_cont d \<and> utf8_valid r'
         | _ \<Rightarrow> False)
      else False)"

lemma utf8_ascii: "\<forall>b \<in> set s. b \<le> 0x7F \<Longrightarrow> utf8_valid s"
  by (induction s) auto

section \<open>Entry kinds\<close>

datatype kind = End | File | Dir | Symlink

fun kind_to_u8 :: "kind \<Rightarrow> byte" where
  "kind_to_u8 End = 0"
| "kind_to_u8 File = 1"
| "kind_to_u8 Dir = 2"
| "kind_to_u8 Symlink = 3"

definition kind_from_u8 :: "byte \<Rightarrow> kind option" where
  "kind_from_u8 b =
     (if b = 0 then Some End
      else if b = 1 then Some File
      else if b = 2 then Some Dir
      else if b = 3 then Some Symlink
      else None)"

lemma kind_from_to_u8 [simp, wire_simps]: "kind_from_u8 (kind_to_u8 k) = Some k"
  by (cases k) (simp_all add: kind_from_u8_def)

lemma kind_to_from_u8: "kind_from_u8 b = Some k \<Longrightarrow> kind_to_u8 k = b"
  by (auto simp: kind_from_u8_def split: if_splits)

lemma kind_to_u8_inject: "kind_to_u8 k = kind_to_u8 l \<longleftrightarrow> k = l"
  by (metis kind_from_to_u8 option.inject)

text \<open>The derived \<open>Ord\<close>: the order of the variants, which is the order of the codes.\<close>

instantiation kind :: linorder
begin

definition less_eq_kind :: "kind \<Rightarrow> kind \<Rightarrow> bool" where
  "less_eq_kind k l \<longleftrightarrow> kind_to_u8 k \<le> kind_to_u8 l"

definition less_kind :: "kind \<Rightarrow> kind \<Rightarrow> bool" where
  "less_kind k l \<longleftrightarrow> kind_to_u8 k < kind_to_u8 l"

instance
  by intro_classes
    (auto simp: less_eq_kind_def less_kind_def simp flip: kind_to_u8_inject)

end

section \<open>Readers\<close>

text \<open>
  A reader is its \<open>read_exact\<close>: fill a buffer of the given length or fail. \<open>rem\<close> is what
  the reader still has to deliver; a \<open>healthy\<close> reader has no failure in store other than
  running out. \<open>re_ok\<close> is all a hostile or broken peer leaves us: what was delivered is
  the next bytes of the stream, in order.
\<close>

locale reader =
  fixes re :: "nat \<Rightarrow> ('s, bytes) op"
    and rem :: "'s \<Rightarrow> bytes"
    and healthy :: "'s \<Rightarrow> bool"
  assumes re_ok: "re n s = (Inr bs, s') \<Longrightarrow> length bs = n \<and> rem s = bs @ rem s'"
    and re_healthy: "healthy s \<Longrightarrow> n \<le> length (rem s) \<Longrightarrow> \<exists>bs s'. re n s = (Inr bs, s') \<and> healthy s'"
    and re_eof: "healthy s \<Longrightarrow> length (rem s) < n \<Longrightarrow> \<exists>s'. re n s = (Inl eof_error, s')"

context reader begin

lemma re_exact:
  assumes "healthy s" and "rem s = bs @ rest" and "length bs = n"
  shows "\<exists>s'. re n s = (Inr bs, s') \<and> healthy s' \<and> rem s' = rest"
proof -
  from assms have "n \<le> length (rem s)" by simp
  with assms(1) obtain cs s' where r: "re n s = (Inr cs, s')" "healthy s'"
    using re_healthy by blast
  from re_ok [OF r(1)] assms(2,3) have "length cs = length bs" "cs @ rem s' = bs @ rest"
    by simp_all
  then have "cs = bs \<and> rem s' = rest" by (metis append_eq_append_conv)
  with r show ?thesis by blast
qed

end

text \<open>The in-memory reader, \<open>std::io::Cursor\<close>.\<close>

definition cursor_read :: "nat \<Rightarrow> (bytes, bytes) op" where
  "cursor_read n s = (if n \<le> length s then (Inr (take n s), drop n s) else (Inl eof_error, []))"

lemma cursor_read_append [simp]: "length bs = n \<Longrightarrow> cursor_read n (bs @ rest) = (Inr bs, rest)"
  by (auto simp: cursor_read_def)

interpretation cursor: reader cursor_read "\<lambda>s. s" "\<lambda>_. True"
  by unfold_locales (auto simp: cursor_read_def split: if_splits)

section \<open>Entries\<close>

record entry =
  e_kind :: kind
  e_path :: bytes
  e_size :: u64
  e_mode :: u32
  e_mtime :: u64

text \<open>
  \<open>mtime\<close> is an \<open>i64\<close>: the word is its two's complement image, which is what
  \<open>i64::to_le_bytes\<close> writes. The path length is cut to sixteen bits as the source's
  \<open>as u16\<close> cuts it.
\<close>

definition entry_encode :: "entry \<Rightarrow> bytes" where
  "entry_encode e =
     [kind_to_u8 (e_kind e)] @ u16_to_le (word_of_nat (length (e_path e))) @ e_path e
     @ u64_to_le (e_size e) @ u32_to_le (e_mode e) @ u64_to_le (e_mtime e)"

definition entry_decode :: "(nat \<Rightarrow> ('s, bytes) op) \<Rightarrow> ('s, entry option) op" where
  "entry_decode re =
     io_bind (re 1) (\<lambda>kb.
       case kind_from_u8 (hd kb) of
         None \<Rightarrow> io_throw (IoError InvalidData (UnknownEntryKind (hd kb)))
       | Some k \<Rightarrow>
           if k = End then io_return None
           else
             io_bind (re 2) (\<lambda>lb.
             io_bind (re (unat (u16_from_le lb))) (\<lambda>path.
             if \<not> utf8_valid path then io_throw (IoError InvalidData PathNotUtf8)
             else
               io_bind (re 8) (\<lambda>sb.
               let size = u64_from_le sb in
               if k = Symlink \<and> word_of_nat MAX_PATH_LEN < size
               then io_throw (IoError InvalidData (SymlinkTargetTooLong size))
               else
                 io_bind (re 4) (\<lambda>mb.
                 io_bind (re 8) (\<lambda>tb.
                 io_return
                   (Some \<lparr>e_kind = k, e_path = path, e_size = size,
                          e_mode = u32_from_le mb, e_mtime = u64_from_le tb\<rparr>)))))))"

definition write_terminator :: "bytes" where
  "write_terminator = [kind_to_u8 End]"

text \<open>What an entry must satisfy to travel: exactly what \<open>decode\<close> accepts.\<close>

definition wf_entry :: "entry \<Rightarrow> bool" where
  "wf_entry e \<longleftrightarrow>
     e_kind e \<noteq> End \<and> length (e_path e) < 65536 \<and> utf8_valid (e_path e) \<and>
     (e_kind e = Symlink \<longrightarrow> e_size e \<le> word_of_nat MAX_PATH_LEN)"

lemma length_entry_encode: "length (entry_encode e) = 23 + length (e_path e)"
  by (simp add: entry_encode_def)

context reader begin

text \<open>A healthy reader in front of an encoded entry delivers that entry.\<close>

lemma decode_encode:
  assumes h: "healthy s" and r: "rem s = entry_encode e @ rest" and wf: "wf_entry e"
  shows "\<exists>s'. entry_decode re s = (Inr (Some e), s') \<and> healthy s' \<and> rem s' = rest"
proof -
  let ?len = "u16_to_le (word_of_nat (length (e_path e)))"
  obtain s1 where s1: "re 1 s = (Inr [kind_to_u8 (e_kind e)], s1)" "healthy s1"
      "rem s1 = ?len @ e_path e @ u64_to_le (e_size e) @ u32_to_le (e_mode e)
                 @ u64_to_le (e_mtime e) @ rest"
    using re_exact [OF h, of "[kind_to_u8 (e_kind e)]"] r by (auto simp: entry_encode_def)
  obtain s2 where s2: "re 2 s1 = (Inr ?len, s2)" "healthy s2"
      "rem s2 = e_path e @ u64_to_le (e_size e) @ u32_to_le (e_mode e)
                 @ u64_to_le (e_mtime e) @ rest"
    using re_exact [OF s1(2,3)] by auto
  obtain s3 where s3: "re (length (e_path e)) s2 = (Inr (e_path e), s3)" "healthy s3"
      "rem s3 = u64_to_le (e_size e) @ u32_to_le (e_mode e) @ u64_to_le (e_mtime e) @ rest"
    using re_exact [OF s2(2,3)] by auto
  obtain s4 where s4: "re 8 s3 = (Inr (u64_to_le (e_size e)), s4)" "healthy s4"
      "rem s4 = u32_to_le (e_mode e) @ u64_to_le (e_mtime e) @ rest"
    using re_exact [OF s3(2,3)] by auto
  obtain s5 where s5: "re 4 s4 = (Inr (u32_to_le (e_mode e)), s5)" "healthy s5"
      "rem s5 = u64_to_le (e_mtime e) @ rest"
    using re_exact [OF s4(2,3)] by auto
  obtain s6 where s6: "re 8 s5 = (Inr (u64_to_le (e_mtime e)), s6)" "healthy s6" "rem s6 = rest"
    using re_exact [OF s5(2,3)] by auto
  have len: "unat (u16_from_le ?len) = length (e_path e)"
    using wf by (simp add: wf_entry_def)
  have "entry_decode re s = (Inr (Some e), s6)"
    using wf s1 s2 s3 s4 s5 s6
    by (auto simp: entry_decode_def wf_entry_def len Let_def not_less)
  with s6 show ?thesis by blast
qed

lemma decode_terminator:
  assumes h: "healthy s" and r: "rem s = write_terminator @ rest"
  shows "\<exists>s'. entry_decode re s = (Inr None, s') \<and> healthy s' \<and> rem s' = rest"
proof -
  obtain s1 where "re 1 s = (Inr [kind_to_u8 End], s1)" "healthy s1" "rem s1 = rest"
    using re_exact [OF h, of "[kind_to_u8 End]"] r by (auto simp: write_terminator_def)
  then show ?thesis by (auto simp: entry_decode_def kind_from_u8_def)
qed

text \<open>
  Conversely, whatever the peer sent, an entry that is accepted was the canonical
  encoding of that entry and nothing else was consumed.
\<close>

lemma decode_canonical:
  assumes d: "entry_decode re s = (Inr (Some e), s')"
  shows "rem s = entry_encode e @ rem s' \<and> wf_entry e"
proof -
  from d obtain kb k lb path sb mb tb s1 s2 s3 s4 s5 where
    r: "re 1 s = (Inr kb, s1)" "re 2 s1 = (Inr lb, s2)"
       "re (unat (u16_from_le lb)) s2 = (Inr path, s3)" "re 8 s3 = (Inr sb, s4)"
       "re 4 s4 = (Inr mb, s5)" "re 8 s5 = (Inr tb, s')"
    and k: "kind_from_u8 (hd kb) = Some k" "k \<noteq> End" "utf8_valid path"
       "\<not> (k = Symlink \<and> word_of_nat MAX_PATH_LEN < u64_from_le sb)"
    and e: "e = \<lparr>e_kind = k, e_path = path, e_size = u64_from_le sb,
                 e_mode = u32_from_le mb, e_mtime = u64_from_le tb\<rparr>"
    by (auto simp: entry_decode_def Let_def io_bind_Inr split: option.splits if_splits)
  note rs = r [THEN re_ok]
  from rs(1) obtain b where kb: "kb = [b]" by (auto simp: length_Suc_conv)
  have len: "length path = unat (u16_from_le lb)" using rs(3) by simp
  then have lt: "length path < 65536"
    using unsigned_less [of "u16_from_le lb", where ?'a = nat] by simp
  have lb: "u16_to_le (word_of_nat (length path)) = lb"
    using rs(2) len by (simp add: u16_from_le_inverse)
  have "rem s = [b] @ lb @ path @ sb @ mb @ tb @ rem s'"
    using rs kb by simp
  then have "rem s = entry_encode e @ rem s'"
    using k kb rs lb e
    by (simp add: entry_encode_def kind_to_from_u8 u64_from_le_inverse u32_from_le_inverse)
  moreover have "wf_entry e" using k lt e by (auto simp: wf_entry_def not_less)
  ultimately show ?thesis ..
qed

lemma decode_None:
  assumes d: "entry_decode re s = (Inr None, s')"
  shows "rem s = write_terminator @ rem s'"
proof -
  from d obtain kb where r: "re 1 s = (Inr kb, s')" and k: "kind_from_u8 (hd kb) = Some End"
    by (auto simp: entry_decode_def Let_def io_bind_Inr split: option.splits if_splits)
  from re_ok [OF r] obtain b where "kb = [b]" "rem s = [b] @ rem s'"
    by (auto simp: length_Suc_conv)
  with kind_to_from_u8 [OF k] show ?thesis by (simp add: write_terminator_def)
qed

end

end
