(* ===== verification/Sanitize.thy ===== *)
theory Sanitize
  imports Wire
begin

text \<open>
  \<open>wire::sanitize\<close>: the string-level gate every path from a peer passes before any
  directory is opened. A component that passes names exactly one entry of the directory
  it is used in.
\<close>

section \<open>The function\<close>

datatype path_error = Empty | Absolute | ParentRef | Nul | TooLong

definition SLASH :: byte where "SLASH = 0x2F"
definition DOT :: byte where "DOT = 0x2E"

lemma slash_dot [simp]: "SLASH \<noteq> DOT" "DOT \<noteq> SLASH" "SLASH \<noteq> 0" "DOT \<noteq> 0"
  by (simp_all add: SLASH_def DOT_def)

text \<open>\<open>str::split\<close>: one more piece than there are separators.\<close>

fun split_on :: "byte \<Rightarrow> bytes \<Rightarrow> bytes list" where
  "split_on c [] = [[]]"
| "split_on c (x # xs) =
     (if x = c then [] # split_on c xs
      else case split_on c xs of p # ps \<Rightarrow> (x # p) # ps | [] \<Rightarrow> [[x]])"

fun sanitize_parts :: "bytes list \<Rightarrow> bytes list \<Rightarrow> path_error + bytes list" where
  "sanitize_parts parts [] = Inr parts"
| "sanitize_parts parts (p # ps) =
     (if p = [] \<or> p = [DOT] then sanitize_parts parts ps
      else if p = [DOT, DOT] then Inl ParentRef
      else sanitize_parts (parts @ [p]) ps)"

definition sanitize :: "bytes \<Rightarrow> path_error + bytes list" where
  "sanitize path =
     (if MAX_PATH_LEN < length path then Inl TooLong
      else if 0 \<in> set path then Inl Nul
      else if starts_with [SLASH] path then Inl Absolute
      else case sanitize_parts [] (split_on SLASH path) of
             Inl e \<Rightarrow> Inl e
           | Inr parts \<Rightarrow> if parts = [] then Inl Empty else Inr parts)"

section \<open>Splitting and joining\<close>

fun join_with :: "byte \<Rightarrow> bytes list \<Rightarrow> bytes" where
  "join_with c [] = []"
| "join_with c [p] = p"
| "join_with c (p # q # ps) = p @ c # join_with c (q # ps)"

lemma split_on_not_Nil [simp]: "split_on c xs \<noteq> []"
  by (cases xs) (auto split: list.splits)

lemma split_on_no_sep: "p \<in> set (split_on c xs) \<Longrightarrow> c \<notin> set p"
  by (induction xs arbitrary: p) (auto split: if_splits list.splits)

lemma split_on_subset: "p \<in> set (split_on c xs) \<Longrightarrow> set p \<subseteq> set xs"
  by (induction xs arbitrary: p) (fastforce split: if_splits list.splits)+

lemma join_Cons_head: "join_with c ((x # p) # ps) = x # join_with c (p # ps)"
  by (cases ps) simp_all

lemma join_split: "join_with c (split_on c xs) = xs"
proof (induction xs)
  case (Cons x xs)
  obtain p ps where s: "split_on c xs = p # ps" by (cases "split_on c xs") auto
  with Cons show ?case by (cases "x = c") (simp_all add: join_Cons_head)
qed simp

lemma split_no_sep: "c \<notin> set p \<Longrightarrow> split_on c p = [p]"
  by (induction p) auto

lemma split_append_sep: "c \<notin> set p \<Longrightarrow> split_on c (p @ c # xs) = p # split_on c xs"
  by (induction p) auto

lemma split_join:
  "ps \<noteq> [] \<Longrightarrow> \<forall>p \<in> set ps. c \<notin> set p \<Longrightarrow> split_on c (join_with c ps) = ps"
  by (induction c ps rule: join_with.induct) (simp_all add: split_no_sep split_append_sep)

lemma set_join: "set (join_with c ps) \<subseteq> insert c (\<Union>p \<in> set ps. set p)"
  by (induction c ps rule: join_with.induct) auto

section \<open>What passes, and what is refused\<close>

text \<open>A component that names exactly one entry of a directory.\<close>

definition good_component :: "bytes \<Rightarrow> bool" where
  "good_component c \<longleftrightarrow> c \<noteq> [] \<and> c \<noteq> [DOT] \<and> c \<noteq> [DOT, DOT] \<and> SLASH \<notin> set c \<and> 0 \<notin> set c"

definition skipped :: "bytes \<Rightarrow> bool" where
  "skipped p \<longleftrightarrow> p = [] \<or> p = [DOT]"

lemma sanitize_parts_eq:
  "sanitize_parts acc ps =
     (if [DOT, DOT] \<in> set ps then Inl ParentRef else Inr (acc @ filter (\<lambda>p. \<not> skipped p) ps))"
  by (induction acc ps rule: sanitize_parts.induct) (auto simp: skipped_def)

lemma sanitize_components:
  assumes "sanitize path = Inr cs"
  shows "cs \<noteq> [] \<and> (\<forall>c \<in> set cs. good_component c) \<and> length path \<le> MAX_PATH_LEN"
proof -
  have "0 \<notin> set path" using assms by (auto simp: sanitize_def split: if_splits)
  then have "SLASH \<notin> set c \<and> 0 \<notin> set c" if "c \<in> set (split_on SLASH path)" for c
    using that split_on_no_sep split_on_subset by blast
  then show ?thesis
    using assms
    by (auto simp: sanitize_def sanitize_parts_eq good_component_def skipped_def
        split: if_splits)
qed

text \<open>A list of good components is its own sanitised form.\<close>

lemma sanitize_join:
  assumes "cs \<noteq> []" and "\<forall>c \<in> set cs. good_component c"
    and "length (join_with SLASH cs) \<le> MAX_PATH_LEN"
  shows "sanitize (join_with SLASH cs) = Inr cs"
proof -
  have split: "split_on SLASH (join_with SLASH cs) = cs"
    using assms(1,2) by (intro split_join) (auto simp: good_component_def)
  have nul: "0 \<notin> set (join_with SLASH cs)"
    using set_join [of SLASH cs] assms(2) by (fastforce simp: good_component_def SLASH_def)
  obtain c ds where cs: "cs = c # ds" using assms(1) by (cases cs) auto
  with assms(2) obtain x xs where "c = x # xs" "x \<noteq> SLASH"
    by (cases c) (auto simp: good_component_def)
  then have abs: "\<not> starts_with [SLASH] (join_with SLASH cs)"
    using cs by (cases ds) auto
  have "[DOT, DOT] \<notin> set cs" "filter (\<lambda>p. \<not> skipped p) cs = cs"
    using assms(2) by (auto simp: good_component_def skipped_def filter_id_conv)
  then show ?thesis
    using assms nul abs by (simp add: sanitize_def sanitize_parts_eq split)
qed

lemma length_join: "length (join_with c ps) = (\<Sum>p \<leftarrow> ps. length p) + (length ps - 1)"
  by (induction c ps rule: join_with.induct) simp_all

lemma length_join_filter:
  "length (join_with c (filter P ps)) \<le> length (join_with c ps)"
proof -
  have "(\<Sum>p \<leftarrow> filter P ps. length p) \<le> (\<Sum>p \<leftarrow> ps. length p)"
    by (induction ps) auto
  moreover have "length (filter P ps) - 1 \<le> length ps - 1"
    using length_filter_le [of P ps] by (rule diff_le_mono)
  ultimately show ?thesis by (simp add: length_join add_le_mono)
qed

lemma sanitize_idempotent:
  assumes "sanitize path = Inr cs"
  shows "sanitize (join_with SLASH cs) = Inr cs"
proof -
  from assms have cs: "cs = filter (\<lambda>p. \<not> skipped p) (split_on SLASH path)"
    by (auto simp: sanitize_def sanitize_parts_eq split: if_splits)
  have "length (join_with SLASH cs) \<le> length path"
    using length_join_filter [of SLASH _ "split_on SLASH path"] by (simp add: cs join_split)
  with sanitize_components [OF assms] show ?thesis
    by (intro sanitize_join) auto
qed

lemma sanitize_ParentRef:
  assumes "length path \<le> MAX_PATH_LEN" and "0 \<notin> set path" and "\<not> starts_with [SLASH] path"
  shows "sanitize path = Inl ParentRef \<longleftrightarrow> [DOT, DOT] \<in> set (split_on SLASH path)"
  using assms by (auto simp: sanitize_def sanitize_parts_eq)

end
