(* ===== verification/Sys.thy ===== *)
theory Sys
  imports Effects Sanitize
begin

text \<open>
  \<open>src/sys.rs\<close>: the file-system primitives of the receiver. The kernel is not code of the
  repository, so it is a parameter: a function from a system call and its own state to a
  reply and a new state, about which nothing is assumed here. Every call is logged with its
  reply, so that what the program did to the file system can be stated as a property of
  the log (\<open>confined\<close>), for every kernel, every other process and every sender.

  A descriptor is the identity of an open file description; a number that the kernel
  reuses after a close is another descriptor, as \<open>OwnedFd\<close> makes sure it is.
\<close>

section \<open>The kernel interface\<close>

type_synonym fd = nat

datatype (plugins only: code size) oflag =
    O_RDONLY | O_WRONLY | O_CREAT | O_EXCL | O_TRUNC | O_DIRECTORY | O_NOFOLLOW | O_CLOEXEC

text \<open>\<open>struct stat\<close>, the fields the program reads; the time is an \<open>i64\<close> image.\<close>

record stat =
  st_mode :: u16
  st_size :: u64
  st_mtime :: u64
  st_dev :: u64
  st_ino :: u64

definition S_IFMT :: u16 where "S_IFMT = 0xF000"
definition S_IFREG :: u16 where "S_IFREG = 0x8000"

datatype (plugins only: code size) syscall =
    Open bytes "oflag list"
  | OpenAt fd bytes "oflag list" u32
  | MkdirAt fd bytes u16
  | FstatAt fd bytes bool \<comment> \<open>whether \<open>AT_SYMLINK_NOFOLLOW\<close> is given\<close>
  | Fstat fd
  | SymlinkAt bytes fd bytes
  | RenameAt fd bytes fd bytes
  | UnlinkAt fd bytes
  | UtimensAt fd bytes u64 u64 bool \<comment> \<open>atime, mtime, nofollow\<close>
  | Futimens fd u64 u64
  | Fchmod fd u16
  | NoCache fd
  | FullFsync fd
  | Fsync fd
  | DupFd fd
  | WriteAll fd bytes
  | Arc4random

text \<open>A call returns a number, fills a \<open>stat\<close> buffer and returns zero, or fails with an \<open>errno\<close>.\<close>

datatype reply = Failed errno | Ret nat | Filled stat

type_synonym 'w kernel = "syscall \<Rightarrow> 'w \<Rightarrow> reply \<times> 'w"

record 'w os =
  kst :: 'w
  trace :: "(syscall \<times> reply) list"

definition call_raw :: "'w kernel \<Rightarrow> syscall \<Rightarrow> 'w os \<Rightarrow> reply \<times> 'w os" where
  "call_raw k c s =
     (case k c (kst s) of (r, w) \<Rightarrow> (r, s\<lparr>kst := w, trace := trace s @ [(c, r)]\<rparr>))"

fun rc_of :: "reply \<Rightarrow> nat" where
  "rc_of (Ret n) = n"
| "rc_of _ = 0"

text \<open>The buffer is zeroed before the call, as the source does.\<close>

fun stat_of :: "reply \<Rightarrow> stat" where
  "stat_of (Filled st) = st"
| "stat_of _ = \<lparr>st_mode = 0, st_size = 0, st_mtime = 0, st_dev = 0, st_ino = 0\<rparr>"

text \<open>The usual treatment of a reply: \<open>-1\<close> becomes \<open>last_os_error\<close>.\<close>

definition call :: "'w kernel \<Rightarrow> syscall \<Rightarrow> ('w os, reply) op" where
  "call k c s =
     (case call_raw k c s of
        (Failed e, s') \<Rightarrow> (Inl (OsError e), s')
      | (r, s') \<Rightarrow> (Inr r, s'))"

definition call_unit :: "'w kernel \<Rightarrow> syscall \<Rightarrow> ('w os, unit) op" where
  "call_unit k c = io_bind (call k c) (\<lambda>_. io_return ())"

definition call_fd :: "'w kernel \<Rightarrow> syscall \<Rightarrow> ('w os, fd) op" where
  "call_fd k c = io_bind (call k c) (\<lambda>r. io_return (rc_of r))"

section \<open>The primitives\<close>

text \<open>A C string ends at its first NUL, so a name that holds one is refused.\<close>

definition cstr :: "bytes \<Rightarrow> ('s, bytes) op" where
  "cstr name =
     (if 0 \<in> set name then io_throw (IoError InvalidInput NameContainsNul) else io_return name)"

definition set_nocache :: "'w kernel \<Rightarrow> fd \<Rightarrow> ('w os, unit) op" where
  "set_nocache k f = call_unit k (NoCache f)"

definition full_fsync :: "'w kernel \<Rightarrow> fd \<Rightarrow> ('w os, unit) op" where
  "full_fsync k f =
     io_catch (call_unit k (FullFsync f)) (\<lambda>err.
       if raw_os_error err \<noteq> Some ENOTSUP \<and> raw_os_error err \<noteq> Some EINVAL
       then io_throw err
       else call_unit k (Fsync f))"

text \<open>The destination is a \<open>Path\<close>: \<open>to_str\<close> refuses what is not UTF-8.\<close>

definition open_dir :: "'w kernel \<Rightarrow> bytes \<Rightarrow> ('w os, fd) op" where
  "open_dir k path =
     (if \<not> utf8_valid path then io_throw (IoError InvalidInput DestNotUtf8)
      else io_bind (cstr path) (\<lambda>p. call_fd k (Open p [O_RDONLY, O_DIRECTORY, O_CLOEXEC])))"

definition mkdir_at :: "'w kernel \<Rightarrow> fd \<Rightarrow> bytes \<Rightarrow> u32 \<Rightarrow> ('w os, unit) op" where
  "mkdir_at k dir name mode =
     io_bind (cstr name) (\<lambda>name.
     io_catch (call_unit k (MkdirAt dir name (ucast mode))) (\<lambda>err.
       if raw_os_error err \<noteq> Some EEXIST then io_throw err else io_return ()))"

definition open_dir_at :: "'w kernel \<Rightarrow> fd \<Rightarrow> bytes \<Rightarrow> ('w os, fd) op" where
  "open_dir_at k dir name =
     io_bind (cstr name) (\<lambda>name.
     call_fd k (OpenAt dir name [O_RDONLY, O_DIRECTORY, O_NOFOLLOW, O_CLOEXEC] 0))"

text \<open>\<open>try_clone_to_owned\<close>.\<close>

definition dup_fd :: "'w kernel \<Rightarrow> fd \<Rightarrow> ('w os, fd) op" where
  "dup_fd k f = call_fd k (DupFd f)"

text \<open>The loops over the components.\<close>

fun walk_dirs_loop :: "'w kernel \<Rightarrow> fd \<Rightarrow> bytes list \<Rightarrow> ('w os, fd) op" where
  "walk_dirs_loop k current [] = io_return current"
| "walk_dirs_loop k current (c # cs) =
     io_bind (mkdir_at k current c 0x1ED) (\<lambda>_.
     io_bind (io_map_err (\<lambda>err. IoError (err_kind err) (RefusingDescend c))
                (open_dir_at k current c)) (\<lambda>next.
     walk_dirs_loop k next cs))"

definition walk_dirs :: "'w kernel \<Rightarrow> fd \<Rightarrow> bytes list \<Rightarrow> ('w os, fd) op" where
  "walk_dirs k root components =
     io_bind (dup_fd k root) (\<lambda>current. walk_dirs_loop k current components)"

fun open_dir_chain_loop :: "'w kernel \<Rightarrow> fd \<Rightarrow> bytes list \<Rightarrow> ('w os, fd) op" where
  "open_dir_chain_loop k current [] = io_return current"
| "open_dir_chain_loop k current (c # cs) =
     io_bind (open_dir_at k current c) (\<lambda>next. open_dir_chain_loop k next cs)"

definition open_dir_chain :: "'w kernel \<Rightarrow> fd \<Rightarrow> bytes list \<Rightarrow> ('w os, fd) op" where
  "open_dir_chain k root components =
     io_bind (dup_fd k root) (\<lambda>current. open_dir_chain_loop k current components)"

definition stat_file_in_dir :: "'w kernel \<Rightarrow> fd \<Rightarrow> bytes \<Rightarrow> ('w os, u64 \<times> u64) op" where
  "stat_file_in_dir k dir name =
     io_bind (cstr name) (\<lambda>name.
     io_bind (call k (FstatAt dir name True)) (\<lambda>r.
     let st = stat_of r in
     if st_mode st AND S_IFMT \<noteq> S_IFREG then io_throw (IoError InvalidInput NotRegularFile)
     else io_return (st_size st, st_mtime st)))"

definition fd_identity :: "'w kernel \<Rightarrow> fd \<Rightarrow> ('w os, u64 \<times> u64) op" where
  "fd_identity k f =
     io_bind (call k (Fstat f)) (\<lambda>r. io_return (st_dev (stat_of r), st_ino (stat_of r)))"

text \<open>\<open>{:08x}\<close> of a \<open>u32\<close>.\<close>

definition hex_digit :: "nat \<Rightarrow> byte" where
  "hex_digit n = (if n < 10 then 0x30 + word_of_nat n else 0x57 + word_of_nat n)"

definition hex8 :: "u32 \<Rightarrow> bytes" where
  "hex8 r = map (\<lambda>i. hex_digit (unat r div 16 ^ i mod 16)) [7, 6, 5, 4, 3, 2, 1, 0]"

definition temp_name :: "bytes \<Rightarrow> u32 \<Rightarrow> bytes" where
  "temp_name name r = [DOT] @ name @ [DOT] @ hex8 r @ ascii ''.tf-partial''"

definition arc4random :: "'w kernel \<Rightarrow> ('w os, u32) op" where
  "arc4random k s = (case call_raw k Arc4random s of (r, s') \<Rightarrow> (Inr (word_of_nat (rc_of r)), s'))"

fun create_temp_tries ::
  "nat \<Rightarrow> 'w kernel \<Rightarrow> fd \<Rightarrow> bytes \<Rightarrow> u32 \<Rightarrow> ('w os, fd \<times> bytes) op" where
  "create_temp_tries 0 k dir name mode = io_throw (OsError EEXIST)"
| "create_temp_tries (Suc n) k dir name mode =
     io_bind (arc4random k) (\<lambda>r.
     let temp = temp_name name r in
     io_bind (cstr temp) (\<lambda>cname.
     io_catch
       (io_bind (call_fd k (OpenAt dir cname
            [O_WRONLY, O_CREAT, O_EXCL, O_NOFOLLOW, O_CLOEXEC] mode)) (\<lambda>f.
        io_return (f, temp)))
       (\<lambda>err. if raw_os_error err \<noteq> Some EEXIST then io_throw err
              else create_temp_tries n k dir name mode)))"

definition create_temp_file_at ::
  "'w kernel \<Rightarrow> fd \<Rightarrow> bytes \<Rightarrow> u32 \<Rightarrow> ('w os, fd \<times> bytes) op" where
  "create_temp_file_at k dir name mode = create_temp_tries 4 k dir name mode"

definition unlink_at :: "'w kernel \<Rightarrow> fd \<Rightarrow> bytes \<Rightarrow> ('w os, unit) op" where
  "unlink_at k dir name = io_bind (cstr name) (\<lambda>name. call_unit k (UnlinkAt dir name))"

text \<open>
  The second \<open>last_error\<close> reads the \<open>errno\<close> of the last failing call: the open's, or the
  unlink's when that was tried and failed.
\<close>

definition create_file_at :: "'w kernel \<Rightarrow> fd \<Rightarrow> bytes \<Rightarrow> u32 \<Rightarrow> ('w os, fd) op" where
  "create_file_at k dir name mode =
     io_bind (cstr name) (\<lambda>cname.
     let open_it = call_fd k (OpenAt dir cname
           [O_WRONLY, O_CREAT, O_TRUNC, O_NOFOLLOW, O_CLOEXEC] mode)
     in io_catch open_it (\<lambda>err.
          if raw_os_error err = Some EACCES
          then io_bind (unlink_at k dir name) (\<lambda>_. open_it)
          else io_throw err))"

definition symlink_at :: "'w kernel \<Rightarrow> bytes \<Rightarrow> fd \<Rightarrow> bytes \<Rightarrow> ('w os, unit) op" where
  "symlink_at k target dir name =
     io_bind (cstr target) (\<lambda>target.
     io_bind (cstr name) (\<lambda>name.
     call_unit k (SymlinkAt target dir name)))"

definition rename_at :: "'w kernel \<Rightarrow> fd \<Rightarrow> bytes \<Rightarrow> bytes \<Rightarrow> ('w os, unit) op" where
  "rename_at k dir from_name to_name =
     io_bind (cstr from_name) (\<lambda>from_name.
     io_bind (cstr to_name) (\<lambda>to_name.
     call_unit k (RenameAt dir from_name dir to_name)))"

definition set_mtime_at :: "'w kernel \<Rightarrow> fd \<Rightarrow> bytes \<Rightarrow> u64 \<Rightarrow> ('w os, unit) op" where
  "set_mtime_at k dir name mtime =
     io_bind (cstr name) (\<lambda>name. call_unit k (UtimensAt dir name mtime mtime True))"

definition set_mode_fd :: "'w kernel \<Rightarrow> fd \<Rightarrow> u32 \<Rightarrow> ('w os, unit) op" where
  "set_mode_fd k f mode = call_unit k (Fchmod f (ucast (mode AND 0x1FF)))"

definition set_mtime_fd :: "'w kernel \<Rightarrow> fd \<Rightarrow> u64 \<Rightarrow> ('w os, unit) op" where
  "set_mtime_fd k f mtime = call_unit k (Futimens f mtime mtime)"

text \<open>\<open>File::write_all\<close>, the standard library's loop over \<open>write\<close>.\<close>

definition file_write_all :: "'w kernel \<Rightarrow> fd \<Rightarrow> bytes \<Rightarrow> ('w os, unit) op" where
  "file_write_all k f bs = call_unit k (WriteAll f bs)"

section \<open>Temporary names\<close>

lemma length_hex8 [simp]: "length (hex8 r) = 8"
  by (simp add: hex8_def)

lemma length_temp_name: "length (temp_name name r) = length name + 21"
  by (simp add: temp_name_def)

lemma hex_digit_range: "n < 16 \<Longrightarrow> 0x30 \<le> hex_digit n \<and> hex_digit n \<le> 0x66"
proof -
  assume "n < 16"
  then have "n \<in> set [0..<16]" by simp
  then show ?thesis by (simp add: upt_rec hex_digit_def) (elim disjE; simp)
qed

lemma hex8_clean: "SLASH \<notin> set (hex8 r) \<and> 0 \<notin> set (hex8 r)"
proof -
  have "0x30 \<le> b" if "b \<in> set (hex8 r)" for b
    using that by (auto simp: hex8_def intro: conjunct1 [OF hex_digit_range])
  moreover have "\<not> 0x30 \<le> SLASH" "\<not> (0x30 :: byte) \<le> 0" by (simp_all add: SLASH_def)
  ultimately show ?thesis by blast
qed

text \<open>A temporary name is a single good component whenever the real name is.\<close>

lemma temp_name_good: "good_component name \<Longrightarrow> good_component (temp_name name r)"
proof -
  assume g: "good_component name"
  have suffix: "SLASH \<notin> set (ascii ''.tf-partial'') \<and> 0 \<notin> set (ascii ''.tf-partial'')"
    by (simp add: ascii_def SLASH_def)
  have "length (temp_name name r) > 2" by (simp add: length_temp_name)
  then have "temp_name name r \<noteq> [] \<and> temp_name name r \<noteq> [DOT] \<and> temp_name name r \<noteq> [DOT, DOT]"
    by auto
  with g suffix hex8_clean [of r] show ?thesis
    by (auto simp: good_component_def temp_name_def)
qed

text \<open>It is never the real name, and different random numbers give different names.\<close>

lemma temp_name_neq: "temp_name name r \<noteq> name"
  using length_temp_name [of name r] by (metis add_cancel_left_right zero_neq_numeral)

end
