(* ===== verification/Confine.thy ===== *)
theory Confine
  imports Sys
begin

text \<open>
  The escape-prevention discipline of the receiver, as a property of the log of system
  calls. \<open>dirs_of\<close> and \<open>files_of\<close> are the descriptors the log hands out. \<open>allowed\<close> says which
  calls a confined program makes: the one open by path is of the destination itself;
  everything else is relative to a directory descriptor obtained before, names a single
  good component in it, and does not follow a symbolic link. \<open>confined\<close> is that for every
  call of a log, each judged by the descriptors handed out before it.

  The proof is for every kernel: nothing is assumed about what the calls do or reply, so
  it holds whatever the sender and other local processes do in between.
\<close>

section \<open>Authority\<close>

fun handed_out :: "reply \<Rightarrow> fd set" where
  "handed_out (Failed e) = {}"
| "handed_out r = {rc_of r}"

fun dir_grant :: "syscall \<times> reply \<Rightarrow> fd set" where
  "dir_grant (Open p fl, r) = handed_out r"
| "dir_grant (OpenAt d n fl m, r) = (if O_DIRECTORY \<in> set fl then handed_out r else {})"
| "dir_grant (DupFd f, r) = handed_out r"
| "dir_grant _ = {}"

fun file_grant :: "syscall \<times> reply \<Rightarrow> fd set" where
  "file_grant (OpenAt d n fl m, r) = (if O_DIRECTORY \<in> set fl then {} else handed_out r)"
| "file_grant _ = {}"

definition dirs_of :: "(syscall \<times> reply) list \<Rightarrow> fd set" where
  "dirs_of tr = (\<Union>e \<in> set tr. dir_grant e)"

definition files_of :: "(syscall \<times> reply) list \<Rightarrow> fd set" where
  "files_of tr = (\<Union>e \<in> set tr. file_grant e)"

fun allowed :: "bytes \<Rightarrow> fd set \<Rightarrow> fd set \<Rightarrow> syscall \<Rightarrow> bool" where
  "allowed dest D F (Open p fl) = (p = dest \<and> O_DIRECTORY \<in> set fl \<and> O_CREAT \<notin> set fl)"
| "allowed dest D F (OpenAt d n fl m) = (d \<in> D \<and> good_component n \<and> O_NOFOLLOW \<in> set fl)"
| "allowed dest D F (MkdirAt d n m) = (d \<in> D \<and> good_component n)"
| "allowed dest D F (FstatAt d n nofollow) = (d \<in> D \<and> good_component n \<and> nofollow)"
| "allowed dest D F (Fstat f) = (f \<in> D \<union> F)"
| "allowed dest D F (SymlinkAt t d n) = (d \<in> D \<and> good_component n)"
| "allowed dest D F (RenameAt d n d' n') = (d \<in> D \<and> d' = d \<and> good_component n \<and> good_component n')"
| "allowed dest D F (UnlinkAt d n) = (d \<in> D \<and> good_component n)"
| "allowed dest D F (UtimensAt d n a m nofollow) = (d \<in> D \<and> good_component n \<and> nofollow)"
| "allowed dest D F (Futimens f a m) = (f \<in> F)"
| "allowed dest D F (Fchmod f m) = (f \<in> F \<and> m AND 0x1FF = m)"
| "allowed dest D F (NoCache f) = (f \<in> F)"
| "allowed dest D F (FullFsync f) = (f \<in> D \<union> F)"
| "allowed dest D F (Fsync f) = (f \<in> D \<union> F)"
| "allowed dest D F (DupFd f) = (f \<in> D)"
| "allowed dest D F (WriteAll f bs) = (f \<in> F)"
| "allowed dest D F Arc4random = True"

fun confined :: "bytes \<Rightarrow> fd set \<Rightarrow> fd set \<Rightarrow> (syscall \<times> reply) list \<Rightarrow> bool" where
  "confined dest D F [] = True"
| "confined dest D F (e # es) =
     (allowed dest D F (fst e) \<and> confined dest (D \<union> dir_grant e) (F \<union> file_grant e) es)"

lemma dirs_of_simps [simp]:
  "dirs_of [] = {}" "dirs_of (e # es) = dir_grant e \<union> dirs_of es"
  "dirs_of (xs @ ys) = dirs_of xs \<union> dirs_of ys"
  by (auto simp: dirs_of_def)

lemma files_of_simps [simp]:
  "files_of [] = {}" "files_of (e # es) = file_grant e \<union> files_of es"
  "files_of (xs @ ys) = files_of xs \<union> files_of ys"
  by (auto simp: files_of_def)

lemma confined_append:
  "confined dest D F (xs @ ys) \<longleftrightarrow>
     confined dest D F xs \<and> confined dest (D \<union> dirs_of xs) (F \<union> files_of xs) ys"
  by (induction xs arbitrary: D F) (auto simp: Un_assoc)

lemma allowed_mono: "allowed dest D F c \<Longrightarrow> D \<subseteq> D' \<Longrightarrow> F \<subseteq> F' \<Longrightarrow> allowed dest D' F' c"
  by (cases c) auto

lemma confined_mono:
  "confined dest D F tr \<Longrightarrow> D \<subseteq> D' \<Longrightarrow> F \<subseteq> F' \<Longrightarrow> confined dest D' F' tr"
proof (induction tr arbitrary: D F D' F')
  case (Cons e es)
  have "D \<union> dir_grant e \<subseteq> D' \<union> dir_grant e" "F \<union> file_grant e \<subseteq> F' \<union> file_grant e"
    using Cons.prems by auto
  with Cons allowed_mono [of dest D F "fst e" D' F'] show ?case by auto
qed simp

section \<open>Operations that stay confined\<close>

text \<open>
  \<open>stays dest D F\<close>: the log is extended by calls that are confined, given authority over
  \<open>D\<close> and \<open>F\<close> and what the log handed out so far.
\<close>

definition has_dirs :: "fd set \<Rightarrow> 'w os \<Rightarrow> fd set" where
  "has_dirs D s = D \<union> dirs_of (trace s)"

definition has_files :: "fd set \<Rightarrow> 'w os \<Rightarrow> fd set" where
  "has_files F s = F \<union> files_of (trace s)"

definition stays :: "bytes \<Rightarrow> fd set \<Rightarrow> fd set \<Rightarrow> 'w os \<Rightarrow> 'w os \<Rightarrow> bool" where
  "stays dest D F s s' \<longleftrightarrow>
     (\<exists>tr. trace s' = trace s @ tr \<and> confined dest (has_dirs D s) (has_files F s) tr)"

lemma stays_mono:
  "stays dest D F s s' \<Longrightarrow> has_dirs D s \<subseteq> has_dirs D s' \<and> has_files F s \<subseteq> has_files F s'"
  by (auto simp: stays_def has_dirs_def has_files_def)

lemma stays_dir: "stays dest D F s s' \<Longrightarrow> d \<in> has_dirs D s \<Longrightarrow> d \<in> has_dirs D s'"
  using stays_mono by blast

lemma stays_file: "stays dest D F s s' \<Longrightarrow> f \<in> has_files F s \<Longrightarrow> f \<in> has_files F s'"
  using stays_mono by blast

interpretation stays: effect "stays dest D F" for dest D F
proof
  fix s t u :: "'w os"
  show "stays dest D F s s" by (auto simp: stays_def)
  assume a: "stays dest D F s t" and b: "stays dest D F t u"
  from a b obtain tr tr' where
    t: "trace t = trace s @ tr" "confined dest (has_dirs D s) (has_files F s) tr" and
    u: "trace u = trace t @ tr'" "confined dest (has_dirs D t) (has_files F t) tr'"
    by (auto simp: stays_def)
  then have "confined dest (has_dirs D s) (has_files F s) (tr @ tr')"
    by (simp add: confined_append has_dirs_def has_files_def Un_assoc)
  with t u show "stays dest D F s u" by (auto simp: stays_def)
qed

text \<open>One call.\<close>

lemma call_raw_stays:
  assumes "call_raw k c s = (r, s')" and "allowed dest (has_dirs D s) (has_files F s) c"
  shows "stays dest D F s s' \<and> dir_grant (c, r) \<subseteq> has_dirs D s' \<and> file_grant (c, r) \<subseteq> has_files F s'"
  using assms by (auto simp: call_raw_def stays_def has_dirs_def has_files_def split: prod.splits)

lemma call_stays:
  assumes "\<And>s. P s \<Longrightarrow> allowed dest (has_dirs D s) (has_files F s) c"
  shows "spec (stays dest D F) P (call k c)
    (\<lambda>r s'. (\<forall>e. r \<noteq> Failed e) \<and> dir_grant (c, r) \<subseteq> has_dirs D s' \<and> file_grant (c, r) \<subseteq> has_files F s')"
proof (rule specI)
  fix s r s' assume p: "P s" and e: "call k c s = (r, s')"
  obtain x t where x: "call_raw k c s = (x, t)" by (cases "call_raw k c s")
  from call_raw_stays [OF x assms [OF p]] x e
  show "stays dest D F s s' \<and> (\<forall>v. r = Inr v \<longrightarrow> (\<forall>e. v \<noteq> Failed e) \<and>
      dir_grant (c, v) \<subseteq> has_dirs D s' \<and> file_grant (c, v) \<subseteq> has_files F s')"
    by (auto simp: call_def split: reply.splits)
qed

lemma call_unit_stays:
  assumes "\<And>s. P s \<Longrightarrow> allowed dest (has_dirs D s) (has_files F s) c"
  shows "spec (stays dest D F) P (call_unit k c) (\<lambda>_ _. True)"
  unfolding call_unit_def
  by (rule stays.spec_bind [OF call_stays stays.spec_return]) (use assms in auto)

lemma handed_out_rc: "(\<forall>e. r \<noteq> Failed e) \<Longrightarrow> handed_out r = {rc_of r}"
  by (cases r) auto

lemma dir_grant_rc: "(\<forall>e. r \<noteq> Failed e) \<Longrightarrow> dir_grant (c, r) = dir_grant (c, Ret (rc_of r))"
  by (cases c) (simp_all add: handed_out_rc)

lemma file_grant_rc: "(\<forall>e. r \<noteq> Failed e) \<Longrightarrow> file_grant (c, r) = file_grant (c, Ret (rc_of r))"
  by (cases c) (simp_all add: handed_out_rc)

lemma call_fd_stays:
  assumes "\<And>s. P s \<Longrightarrow> allowed dest (has_dirs D s) (has_files F s) c"
  shows "spec (stays dest D F) P (call_fd k c)
    (\<lambda>f s'. dir_grant (c, Ret f) \<subseteq> has_dirs D s' \<and> file_grant (c, Ret f) \<subseteq> has_files F s')"
  unfolding call_fd_def
proof (rule stays.spec_bind [OF call_stays stays.spec_return])
  fix s assume "P s" then show "allowed dest (has_dirs D s) (has_files F s) c" by (rule assms)
next
  fix r and s :: "'a os"
  assume "(\<forall>e. r \<noteq> Failed e) \<and> dir_grant (c, r) \<subseteq> has_dirs D s \<and> file_grant (c, r) \<subseteq> has_files F s"
  then show "dir_grant (c, Ret (rc_of r)) \<subseteq> has_dirs D s \<and> file_grant (c, Ret (rc_of r)) \<subseteq> has_files F s"
    using dir_grant_rc [of r c] file_grant_rc [of r c] by simp
qed

text \<open>Names: what survives \<open>cstr\<close> is the name itself.\<close>

lemma cstr_stays: "spec (stays dest D F) P (cstr n) (\<lambda>m s. P s \<and> m = n)"
  unfolding cstr_def by (intro spec_if stays.spec_throw stays.spec_return) simp

lemma spec_cstr:
  "spec (stays dest D F) P (f n) Q \<Longrightarrow> spec (stays dest D F) P (io_bind (cstr n) f) Q"
  by (rule stays.spec_bind [OF cstr_stays]) (auto simp: spec_def)

section \<open>The primitives stay confined\<close>

text \<open>
  Each rule takes the authority it needs as a consequence of the precondition. A directory
  descriptor a primitive returns is authority afterwards; so is a file descriptor.
\<close>

lemma open_dir_stays:
  "spec (stays dest D F) P (open_dir k dest) (\<lambda>f s. f \<in> has_dirs D s)"
  unfolding open_dir_def
  by (intro spec_if stays.spec_throw spec_cstr) (rule spec_weaken [OF call_fd_stays], auto)

lemma dup_fd_stays:
  "(\<And>s. P s \<Longrightarrow> f \<in> has_dirs D s) \<Longrightarrow> spec (stays dest D F) P (dup_fd k f) (\<lambda>g s. g \<in> has_dirs D s)"
  unfolding dup_fd_def
  by (rule spec_weaken [OF call_fd_stays [where P = "\<lambda>s. f \<in> has_dirs D s"]]) auto

lemma open_dir_at_stays:
  "(\<And>s. P s \<Longrightarrow> d \<in> has_dirs D s) \<Longrightarrow> good_component n \<Longrightarrow>
   spec (stays dest D F) P (open_dir_at k d n) (\<lambda>f s. f \<in> has_dirs D s)"
  unfolding open_dir_at_def
  by (intro spec_cstr) (rule spec_weaken [OF call_fd_stays [where P = "\<lambda>s. d \<in> has_dirs D s"]], auto)

lemma mkdir_at_stays:
  "(\<And>s. P s \<Longrightarrow> d \<in> has_dirs D s) \<Longrightarrow> good_component n \<Longrightarrow>
   spec (stays dest D F) P (mkdir_at k d n mode) (\<lambda>_ _. True)"
  unfolding mkdir_at_def
  by (intro spec_cstr stays.spec_catch [where P' = "\<lambda>_. True"] call_unit_stays spec_if
      stays.spec_throw stays.spec_return) auto

lemma keeps_dir:
  assumes "\<And>s. P s \<Longrightarrow> d \<in> has_dirs D s" and "spec (stays dest D F) P m Q"
  shows "spec (stays dest D F) P m (\<lambda>v s. d \<in> has_dirs D s \<and> Q v s)"
  by (rule stays.spec_stable [OF assms(2)]) (use assms(1) stays_dir in blast)

lemma keeps_file:
  assumes "\<And>s. P s \<Longrightarrow> f \<in> has_files F s" and "spec (stays dest D F) P m Q"
  shows "spec (stays dest D F) P m (\<lambda>v s. f \<in> has_files F s \<and> Q v s)"
  by (rule stays.spec_stable [OF assms(2)]) (use assms(1) stays_file in blast)

lemma walk_dirs_loop_stays:
  "\<forall>c \<in> set cs. good_component c \<Longrightarrow>
   spec (stays dest D F) (\<lambda>s. d \<in> has_dirs D s) (walk_dirs_loop k d cs) (\<lambda>f s. f \<in> has_dirs D s)"
proof (induction cs arbitrary: d)
  case Nil
  show ?case unfolding walk_dirs_loop.simps by (rule stays.spec_return)
next
  case (Cons c cs)
  then have g: "good_component c" "\<forall>c \<in> set cs. good_component c" by auto
  show ?case
    unfolding walk_dirs_loop.simps
  proof (rule stays.spec_bind [OF keeps_dir [OF _ mkdir_at_stays]])
    fix u :: unit
    show "spec (stays dest D F) (\<lambda>s. d \<in> has_dirs D s \<and> True)
        (io_bind (io_map_err (\<lambda>err. IoError (err_kind err) (RefusingDescend c)) (open_dir_at k d c))
          (\<lambda>next. walk_dirs_loop k next cs)) (\<lambda>f s. f \<in> has_dirs D s)"
      by (rule stays.spec_bind [OF stays.spec_map_err [OF open_dir_at_stays] Cons.IH]) (use g in auto)
  qed (use g in auto)
qed

lemma walk_dirs_stays:
  "(\<And>s. P s \<Longrightarrow> d \<in> has_dirs D s) \<Longrightarrow> \<forall>c \<in> set cs. good_component c \<Longrightarrow>
   spec (stays dest D F) P (walk_dirs k d cs) (\<lambda>f s. f \<in> has_dirs D s)"
  unfolding walk_dirs_def by (rule stays.spec_bind [OF dup_fd_stays walk_dirs_loop_stays])

lemma open_dir_chain_loop_stays:
  "\<forall>c \<in> set cs. good_component c \<Longrightarrow>
   spec (stays dest D F) (\<lambda>s. d \<in> has_dirs D s) (open_dir_chain_loop k d cs) (\<lambda>f s. f \<in> has_dirs D s)"
proof (induction cs arbitrary: d)
  case (Cons c cs)
  then show ?case
    unfolding open_dir_chain_loop.simps
    by (intro stays.spec_bind [OF open_dir_at_stays Cons.IH]) auto
next
  case Nil
  show ?case unfolding open_dir_chain_loop.simps by (rule stays.spec_return)
qed

lemma open_dir_chain_stays:
  "(\<And>s. P s \<Longrightarrow> d \<in> has_dirs D s) \<Longrightarrow> \<forall>c \<in> set cs. good_component c \<Longrightarrow>
   spec (stays dest D F) P (open_dir_chain k d cs) (\<lambda>f s. f \<in> has_dirs D s)"
  unfolding open_dir_chain_def by (rule stays.spec_bind [OF dup_fd_stays open_dir_chain_loop_stays])

lemma stat_file_in_dir_stays:
  "(\<And>s. P s \<Longrightarrow> d \<in> has_dirs D s) \<Longrightarrow> good_component n \<Longrightarrow>
   spec (stays dest D F) P (stat_file_in_dir k d n) (\<lambda>_ _. True)"
  unfolding stat_file_in_dir_def Let_def
  by (intro spec_cstr stays.spec_bind [OF call_stays] spec_if stays.spec_throw stays.spec_return) auto

lemma fd_identity_stays:
  "(\<And>s. P s \<Longrightarrow> d \<in> has_dirs D s) \<Longrightarrow> spec (stays dest D F) P (fd_identity k d) (\<lambda>_ _. True)"
  unfolding fd_identity_def by (intro stays.spec_bind [OF call_stays] stays.spec_return) auto

lemma full_fsync_stays:
  "(\<And>s. P s \<Longrightarrow> f \<in> has_dirs D s \<union> has_files F s) \<Longrightarrow>
   spec (stays dest D F) P (full_fsync k f) (\<lambda>_ _. True)"
  unfolding full_fsync_def
  by (intro stays.spec_catch [where P' = "\<lambda>s. f \<in> has_dirs D s \<union> has_files F s"] call_unit_stays
      spec_if stays.spec_throw) (auto dest: stays_dir stays_file)

lemma set_nocache_stays:
  "(\<And>s. P s \<Longrightarrow> f \<in> has_files F s) \<Longrightarrow> spec (stays dest D F) P (set_nocache k f) (\<lambda>_ _. True)"
  unfolding set_nocache_def by (rule call_unit_stays) simp

lemma unlink_at_stays:
  "(\<And>s. P s \<Longrightarrow> d \<in> has_dirs D s) \<Longrightarrow> good_component n \<Longrightarrow>
   spec (stays dest D F) P (unlink_at k d n) (\<lambda>_ _. True)"
  unfolding unlink_at_def by (intro spec_cstr call_unit_stays) auto

lemma symlink_at_stays:
  "(\<And>s. P s \<Longrightarrow> d \<in> has_dirs D s) \<Longrightarrow> good_component n \<Longrightarrow>
   spec (stays dest D F) P (symlink_at k t d n) (\<lambda>_ _. True)"
  unfolding symlink_at_def by (intro spec_cstr call_unit_stays) auto

lemma rename_at_stays:
  "(\<And>s. P s \<Longrightarrow> d \<in> has_dirs D s) \<Longrightarrow> good_component n \<Longrightarrow> good_component m \<Longrightarrow>
   spec (stays dest D F) P (rename_at k d n m) (\<lambda>_ _. True)"
  unfolding rename_at_def by (intro spec_cstr call_unit_stays) auto

lemma set_mtime_at_stays:
  "(\<And>s. P s \<Longrightarrow> d \<in> has_dirs D s) \<Longrightarrow> good_component n \<Longrightarrow>
   spec (stays dest D F) P (set_mtime_at k d n t) (\<lambda>_ _. True)"
  unfolding set_mtime_at_def by (intro spec_cstr call_unit_stays) auto

lemma fchmod_bits: "(ucast (m AND 0x1FF :: u32) :: u16) AND 0x1FF = ucast (m AND 0x1FF)"
proof (rule bit_word_eqI)
  fix n assume "n < LENGTH(16)"
  have "(0x1FF :: u16) = ucast (0x1FF :: u32)" by simp
  then show "bit ((ucast (m AND 0x1FF :: u32) :: u16) AND 0x1FF) n = bit (ucast (m AND 0x1FF :: u32) :: u16) n"
    by (auto simp: bit_and_iff bit_ucast_iff)
qed

lemma set_mode_fd_stays:
  "(\<And>s. P s \<Longrightarrow> f \<in> has_files F s) \<Longrightarrow> spec (stays dest D F) P (set_mode_fd k f mode) (\<lambda>_ _. True)"
  unfolding set_mode_fd_def by (rule call_unit_stays) (simp add: fchmod_bits)

lemma set_mtime_fd_stays:
  "(\<And>s. P s \<Longrightarrow> f \<in> has_files F s) \<Longrightarrow> spec (stays dest D F) P (set_mtime_fd k f t) (\<lambda>_ _. True)"
  unfolding set_mtime_fd_def by (rule call_unit_stays) simp

lemma file_write_all_stays:
  "(\<And>s. P s \<Longrightarrow> f \<in> has_files F s) \<Longrightarrow> spec (stays dest D F) P (file_write_all k f bs) (\<lambda>_ _. True)"
  unfolding file_write_all_def by (rule call_unit_stays) simp

text \<open>Creating a file hands out its descriptor, under a good name.\<close>

lemma create_file_at_stays:
  "(\<And>s. P s \<Longrightarrow> d \<in> has_dirs D s) \<Longrightarrow> good_component n \<Longrightarrow>
   spec (stays dest D F) P (create_file_at k d n mode) (\<lambda>f s. f \<in> has_files F s)"
proof -
  assume d: "\<And>s. P s \<Longrightarrow> d \<in> has_dirs D s" and n: "good_component n"
  let ?open = "call_fd k (OpenAt d n [O_WRONLY, O_CREAT, O_TRUNC, O_NOFOLLOW, O_CLOEXEC] mode)"
  let ?D = "\<lambda>s. d \<in> has_dirs D s"
  have o: "spec (stays dest D F) ?D ?open (\<lambda>f s. f \<in> has_files F s)"
    by (rule spec_weaken [OF call_fd_stays [where P = ?D]]) (use n in auto)
  have u: "spec (stays dest D F) ?D (unlink_at k d n) (\<lambda>_ s. ?D s \<and> True)"
    by (rule keeps_dir [OF _ unlink_at_stays]) (use n in auto)
  have r: "spec (stays dest D F) ?D (io_bind (unlink_at k d n) (\<lambda>_. ?open)) (\<lambda>f s. f \<in> has_files F s)"
    by (rule stays.spec_bind [OF u]) (use o in simp)
  show ?thesis
    unfolding create_file_at_def Let_def
  proof (intro spec_cstr stays.spec_catch [where P' = ?D] spec_if stays.spec_throw r)
    show "spec (stays dest D F) P ?open (\<lambda>f s. f \<in> has_files F s)"
      by (rule spec_weaken [OF o]) (use d in auto)
  qed (use d in \<open>auto dest: stays_dir\<close>)
qed

lemma arc4random_stays: "spec (stays dest D F) P (arc4random k) (\<lambda>_ _. True)"
proof (rule specI)
  fix s r s' assume "arc4random k s = (r, s')"
  then obtain x where "call_raw k Arc4random s = (x, s')"
    by (auto simp: arc4random_def split: prod.splits)
  from call_raw_stays [OF this] show "stays dest D F s s' \<and> (\<forall>v. r = Inr v \<longrightarrow> True)" by simp
qed

lemma create_temp_tries_stays:
  assumes g: "good_component n"
  shows "spec (stays dest D F) (\<lambda>s. d \<in> has_dirs D s) (create_temp_tries i k d n mode)
    (\<lambda>(f, temp) s. f \<in> has_files F s \<and> good_component temp \<and> (\<exists>r. temp = temp_name n r))"
proof (induction i)
  case 0
  show ?case unfolding create_temp_tries.simps by (rule stays.spec_throw)
next
  case (Suc i)
  let ?D = "\<lambda>s. d \<in> has_dirs D s"
  let ?Q = "\<lambda>(f, temp) s. f \<in> has_files F s \<and> good_component temp \<and> (\<exists>r. temp = temp_name n r)"
  let ?fl = "[O_WRONLY, O_CREAT, O_EXCL, O_NOFOLLOW, O_CLOEXEC]"
  have o: "spec (stays dest D F) ?D
      (io_bind (call_fd k (OpenAt d (temp_name n r) ?fl mode)) (\<lambda>f. io_return (f, temp_name n r))) ?Q" for r
    by (rule stays.spec_bind [OF call_fd_stays stays.spec_return]) (use temp_name_good [OF g] in auto)
  show ?case
    unfolding create_temp_tries.simps Let_def
  proof (rule stays.spec_bind [OF keeps_dir [OF _ arc4random_stays]])
    fix r
    show "spec (stays dest D F) (\<lambda>s. ?D s \<and> True)
        (io_bind (cstr (temp_name n r)) (\<lambda>cname. io_catch
           (io_bind (call_fd k (OpenAt d cname ?fl mode)) (\<lambda>f. io_return (f, temp_name n r)))
           (\<lambda>err. if raw_os_error err \<noteq> Some EEXIST then io_throw err
                  else create_temp_tries i k d n mode))) ?Q"
      by (intro spec_cstr stays.spec_catch [where P' = ?D] spec_if stays.spec_throw Suc.IH)
        (use o in \<open>auto dest: stays_dir\<close>)
  qed auto
qed

lemma create_temp_file_at_stays:
  "(\<And>s. P s \<Longrightarrow> d \<in> has_dirs D s) \<Longrightarrow> good_component n \<Longrightarrow>
   spec (stays dest D F) P (create_temp_file_at k d n mode)
    (\<lambda>(f, temp) s. f \<in> has_files F s \<and> good_component temp \<and> (\<exists>r. temp = temp_name n r))"
  unfolding create_temp_file_at_def
  by (rule spec_weaken [OF create_temp_tries_stays]) auto

end
