(* ===== verification/Progress.thy ===== *)
theory Progress
  imports Wire
begin

text \<open>
  \<open>src/progress.rs\<close>: the counters both ends share with their display, and the text that
  reaches the terminal. Counters are \<open>u64\<close> atomics (\<open>fetch_add\<close> wraps); the times the
  program adds up and the drawing of the line are in \<open>Render\<close>. A string is the list of its
  UTF-8 bytes; \<open>utf8_chars\<close> is \<open>str::chars\<close>.
\<close>

section \<open>Characters\<close>

definition char_width :: "byte \<Rightarrow> nat" where
  "char_width a = (if a < 0xC0 then 1 else if a < 0xE0 then 2 else if a < 0xF0 then 3 else 4)"

fun utf8_chars :: "bytes \<Rightarrow> bytes list" where
  "utf8_chars [] = []"
| "utf8_chars (a # r) =
     (a # take (char_width a - 1) r) # utf8_chars (drop (char_width a - 1) r)"

text \<open>\<open>char::is_control\<close>: the general category Cc, which is U+0000--U+001F and U+007F--U+009F.\<close>

fun is_control :: "bytes \<Rightarrow> bool" where
  "is_control [a] = (a < 0x20 \<or> a = 0x7F)"
| "is_control [a, b] = (a = 0xC2 \<and> b < 0xA0)"
| "is_control _ = False"

definition wf_char :: "bytes \<Rightarrow> bool" where
  "wf_char c \<longleftrightarrow> c \<noteq> [] \<and> length c = char_width (hd c)"

lemma concat_utf8_chars [simp]: "concat (utf8_chars s) = s"
  by (induction s rule: utf8_chars.induct) simp_all

lemma utf8_chars_append:
  "wf_char c \<Longrightarrow> utf8_chars (c @ s) = c # utf8_chars s"
  by (cases c) (auto simp: wf_char_def char_width_def)

lemma utf8_chars_concat: "\<forall>c \<in> set cs. wf_char c \<Longrightarrow> utf8_chars (concat cs) = cs"
  by (induction cs) (simp_all add: utf8_chars_append)

text \<open>A valid string starts with a whole character and is valid after it.\<close>

lemma char_width_cases:
  "a \<le> 0x7F \<Longrightarrow> char_width a = 1"
  "0xC2 \<le> a \<Longrightarrow> a \<le> 0xDF \<Longrightarrow> char_width a = 2"
  "0xE0 \<le> a \<Longrightarrow> a \<le> 0xEF \<Longrightarrow> char_width a = 3"
  "0xF0 \<le> a \<Longrightarrow> char_width a = 4"
  by (simp_all add: char_width_def word_le_nat_alt word_less_nat_alt)

lemma utf8_valid_step:
  assumes v: "utf8_valid (a # r)"
  shows "char_width a - 1 \<le> length r \<and> utf8_valid (drop (char_width a - 1) r)"
proof -
  consider "a \<le> 0x7F" | "\<not> a \<le> 0x7F" "0xC2 \<le> a" "a \<le> 0xDF"
    | "\<not> a \<le> 0x7F" "\<not> (0xC2 \<le> a \<and> a \<le> 0xDF)" "0xE0 \<le> a" "a \<le> 0xEF"
    | "\<not> a \<le> 0x7F" "\<not> (0xC2 \<le> a \<and> a \<le> 0xDF)" "\<not> (0xE0 \<le> a \<and> a \<le> 0xEF)" "0xF0 \<le> a" "a \<le> 0xF4"
    using v by (auto simp only: utf8_valid.simps split: if_splits)
  then show ?thesis
  proof cases
    case 1
    with v char_width_cases(1) [OF 1] show ?thesis by simp
  next
    case 2
    with v char_width_cases(2) [OF 2(2,3)] show ?thesis by (cases r) simp_all
  next
    case 3
    then obtain b c r' where r: "r = b # c # r'" "utf8_valid r'"
      using v by (simp only: utf8_valid.simps if_False if_True simp_thms) (auto split: list.splits)
    with char_width_cases(3) [OF 3(3,4)] show ?thesis by simp
  next
    case 4
    then obtain b c d r' where r: "r = b # c # d # r'" "utf8_valid r'"
      using v by (simp only: utf8_valid.simps if_False if_True simp_thms) (auto split: list.splits)
    with char_width_cases(4) [OF 4(4)] show ?thesis by simp
  qed
qed

lemma utf8_chars_wf: "utf8_valid s \<Longrightarrow> \<forall>c \<in> set (utf8_chars s). wf_char c"
proof (induction s rule: utf8_chars.induct)
  case (2 a r)
  note st = utf8_valid_step [OF 2(2)]
  have "1 \<le> char_width a" by (simp add: char_width_def)
  with st have "wf_char (a # take (char_width a - 1) r)" by (simp add: wf_char_def)
  moreover have "\<forall>c \<in> set (utf8_chars (drop (char_width a - 1) r)). wf_char c"
    using st by (intro 2(1)) simp
  ultimately show ?case by simp
qed simp

section \<open>Progress\<close>

record progress =
  p_verb :: bytes
  p_bytes :: u64
  p_files :: u64
  p_total_bytes :: u64
  p_total_files :: u64
  p_current :: bytes
  p_done :: bool

definition progress_new :: "bytes \<Rightarrow> progress" where
  "progress_new verb =
     \<lparr>p_verb = verb, p_bytes = 0, p_files = 0, p_total_bytes = 0, p_total_files = 0,
      p_current = [], p_done = False\<rparr>"

definition set_totals :: "u64 \<Rightarrow> u64 \<Rightarrow> progress \<Rightarrow> progress" where
  "set_totals files bytes p = p\<lparr>p_total_files := files, p_total_bytes := bytes\<rparr>"

definition set_current :: "bytes \<Rightarrow> progress \<Rightarrow> progress" where
  "set_current path p =
     p\<lparr>p_current := concat (map (\<lambda>c. if is_control c then [0x3F] else c) (utf8_chars path))\<rparr>"

definition add_bytes :: "u64 \<Rightarrow> progress \<Rightarrow> progress" where
  "add_bytes n p = p\<lparr>p_bytes := p_bytes p + n\<rparr>"

definition finish_file :: "progress \<Rightarrow> progress" where
  "finish_file p = p\<lparr>p_files := p_files p + 1\<rparr>"

definition totals :: "progress \<Rightarrow> u64 \<times> u64" where
  "totals p = (p_total_files p, p_total_bytes p)"

definition snapshot :: "progress \<Rightarrow> u64 \<times> u64" where
  "snapshot p = (p_files p, p_bytes p)"

definition finish :: "progress \<Rightarrow> progress" where
  "finish p = p\<lparr>p_done := True\<rparr>"

text \<open>The ellipsis is U+2026.\<close>

definition truncate_middle :: "bytes \<Rightarrow> nat \<Rightarrow> bytes" where
  "truncate_middle text width =
     (let chars = utf8_chars text
      in if length chars \<le> width then text
         else
           let keep = (width - 1) div 2
           in concat (take keep chars) @ [0xE2, 0x80, 0xA6] @ concat (drop (length chars - keep) chars))"

section \<open>Diagnostics\<close>

text \<open>The counters of \<open>--stats\<close>; the queue ones are what the pipeline's depth is tuned by.\<close>

record diag =
  d_disk_bytes :: u64
  d_socket_bytes :: u64
  d_files :: u64
  d_dirs :: u64
  d_symlinks :: u64
  d_pool_stalls :: u64
  d_queue_peak :: u64
  d_inflight :: u64

definition queued :: "diag \<Rightarrow> diag" where
  "queued d =
     (let depth = d_inflight d + 1
      in d\<lparr>d_inflight := depth, d_queue_peak := max (d_queue_peak d) depth\<rparr>)"

definition dequeued :: "diag \<Rightarrow> diag" where
  "dequeued d = d\<lparr>d_inflight := d_inflight d - 1\<rparr>"

section \<open>What reaches the terminal\<close>

definition replacement :: "bytes \<Rightarrow> bytes" where
  "replacement c = (if is_control c then [0x3F] else c)"

lemma replacement_wf: "wf_char c \<Longrightarrow> wf_char (replacement c) \<and> \<not> is_control (replacement c)"
  by (auto simp: replacement_def wf_char_def char_width_def)

text \<open>
  Whatever path a sender puts on the wire, what is shown has the same number of characters,
  each the one of the path or, for a control character, a question mark.
\<close>

lemma current_chars:
  assumes "utf8_valid path"
  shows "utf8_chars (p_current (set_current path p)) = map replacement (utf8_chars path)"
proof -
  have "\<forall>c \<in> set (map replacement (utf8_chars path)). wf_char c"
    using utf8_chars_wf [OF assms] replacement_wf by auto
  moreover have "p_current (set_current path p) = concat (map replacement (utf8_chars path))"
    by (simp add: set_current_def replacement_def [abs_def])
  ultimately show ?thesis using utf8_chars_concat by simp
qed

text \<open>A text of whole characters none of which is a control character.\<close>

definition clean :: "bytes \<Rightarrow> bool" where
  "clean s \<longleftrightarrow> (\<forall>c \<in> set (utf8_chars s). wf_char c \<and> \<not> is_control c)"

lemma clean_concat: "\<forall>c \<in> set cs. wf_char c \<and> \<not> is_control c \<Longrightarrow> clean (concat cs)"
  by (simp add: clean_def utf8_chars_concat)

lemma clean_append [intro]:
  assumes "clean a" "clean b" shows "clean (a @ b)"
proof -
  have "clean (concat (utf8_chars a @ utf8_chars b))"
    by (rule clean_concat) (use assms in \<open>auto simp: clean_def\<close>)
  then show ?thesis by (simp only: concat_append concat_utf8_chars)
qed

lemma clean_current: "utf8_valid path \<Longrightarrow> clean (p_current (set_current path p))"
  using utf8_chars_wf [of path] replacement_wf by (auto simp: clean_def current_chars)

definition plain :: "bytes \<Rightarrow> bool" where
  "plain s \<longleftrightarrow> list_all (\<lambda>b. 0x20 \<le> b \<and> b < 0x7F) s"

lemma plain_clean: "plain s \<Longrightarrow> clean s"
proof (induction s)
  case (Cons b s)
  then have "clean s" "0x20 \<le> b" "b < 0x7F" by (simp_all add: plain_def)
  moreover from this have "wf_char [b] \<and> \<not> is_control [b]"
    by (auto simp: wf_char_def char_width_def word_less_nat_alt word_le_nat_alt)
  ultimately show ?case using clean_append [of "[b]" s] clean_concat [of "[[b]]"] by simp
qed (simp add: clean_def)

text \<open>The elided path fits its column, and keeps as much of both ends as fits.\<close>

lemma ellipsis_wf: "wf_char [0xE2, 0x80, 0xA6]"
  by (simp add: wf_char_def char_width_def)

lemma truncate_middle_chars:
  assumes "\<forall>c \<in> set (utf8_chars text). wf_char c"
  shows "utf8_chars (truncate_middle text width) =
    (if length (utf8_chars text) \<le> width then utf8_chars text
     else take ((width - 1) div 2) (utf8_chars text) @ [[0xE2, 0x80, 0xA6]] @
       drop (length (utf8_chars text) - (width - 1) div 2) (utf8_chars text))"
proof (cases "length (utf8_chars text) \<le> width")
  case False
  let ?c = "utf8_chars text" and ?k = "(width - 1) div 2"
  let ?t = "take ?k ?c @ [[0xE2, 0x80, 0xA6]] @ drop (length ?c - ?k) ?c"
  have "\<forall>c \<in> set ?t. wf_char c"
    using assms ellipsis_wf by (auto dest: in_set_takeD in_set_dropD)
  then have "utf8_chars (concat ?t) = ?t" by (rule utf8_chars_concat)
  moreover have "truncate_middle text width = concat ?t"
    using False by (simp add: truncate_middle_def Let_def)
  ultimately show ?thesis using False by simp
qed (simp add: truncate_middle_def)

lemma clean_truncate:
  assumes "clean text" shows "clean (truncate_middle text width)"
proof -
  have "utf8_chars (truncate_middle text width) =
    (if length (utf8_chars text) \<le> width then utf8_chars text
     else take ((width - 1) div 2) (utf8_chars text) @ [[0xE2, 0x80, 0xA6]] @
       drop (length (utf8_chars text) - (width - 1) div 2) (utf8_chars text))"
    using assms by (intro truncate_middle_chars) (simp add: clean_def)
  with assms ellipsis_wf show ?thesis
    by (auto simp: clean_def dest: in_set_takeD in_set_dropD split: if_splits)
qed

text \<open>
  The path on the progress line never exceeds its column: a path that is too long keeps the
  same number of characters of each end around one ellipsis, whole characters throughout,
  and a path that fits is shown as it is.
\<close>

lemma truncate_middle_fits:
  assumes "utf8_valid text"
  shows "length (utf8_chars (truncate_middle text width)) \<le> max 1 width \<and>
    (if length (utf8_chars text) \<le> width then truncate_middle text width = text
     else utf8_chars (truncate_middle text width) =
       take ((width - 1) div 2) (utf8_chars text) @ [[0xE2, 0x80, 0xA6]] @
       drop (length (utf8_chars text) - (width - 1) div 2) (utf8_chars text))"
  using truncate_middle_chars [OF utf8_chars_wf [OF assms], of width]
  by (auto simp: truncate_middle_def)

end
