(* ===== verification/Writer.thy ===== *)
theory Writer
  imports Confine Progress "HOL-Library.Multiset"
begin

text \<open>
  The two consumer threads of the receiver (\<open>src/recv.rs\<close>): \<open>hash_loop\<close>, which digests the
  payload on its way past, and \<open>write_loop\<close>, the only party that turns a file in flight
  into a finished one or removes it. A thread is a function of the messages it receives,
  in order, and of the kernel; a channel that closes is the end of the list.
\<close>

section \<open>Messages\<close>

record inflight =
  if_file :: fd
  if_parent :: fd
  if_name :: bytes
  if_final :: "bytes option"
  if_mtime :: u64
  if_mode :: u32
  if_finished :: bool

text \<open>
  A buffer travels whole; only its first \<open>len\<close> bytes are live, the rest is what an earlier
  use left there. \<open>Finish\<close> carries the reply channel in the source; the reply is a value
  of \<open>hash_loop\<close> here.
\<close>

datatype msg = Begin inflight | Data bytes nat | EndFile | Finish

fun live :: "msg \<Rightarrow> bytes" where
  "live (Data buf len) = take len buf"
| "live _ = []"

section \<open>The directory registry\<close>

text \<open>\<open>DirRegistry\<close>; the set is kept as the list of its elements.\<close>

record registry =
  seen :: "(u64 \<times> u64) list"
  reg_dirs :: "fd list"

definition registry_new :: registry where
  "registry_new = \<lparr>seen = [], reg_dirs = []\<rparr>"

definition reg_insert :: "u64 \<times> u64 \<Rightarrow> fd \<Rightarrow> registry \<Rightarrow> registry" where
  "reg_insert ident dir r =
     (if ident \<in> set (seen r) then r
      else \<lparr>seen = ident # seen r, reg_dirs = reg_dirs r @ [dir]\<rparr>)"

definition register :: "'w kernel \<Rightarrow> fd \<Rightarrow> registry \<Rightarrow> ('w os, registry) op" where
  "register k dir r = io_bind (fd_identity k dir) (\<lambda>ident. io_return (reg_insert ident dir r))"

fun flush_dirs :: "'w kernel \<Rightarrow> fd list \<Rightarrow> ('w os, unit) op" where
  "flush_dirs k [] = io_return ()"
| "flush_dirs k (d # ds) = io_bind (full_fsync k d) (\<lambda>_. flush_dirs k ds)"

definition flush_all :: "'w kernel \<Rightarrow> registry \<Rightarrow> ('w os, unit) op" where
  "flush_all k r = flush_dirs k (reg_dirs r)"

text \<open>
  The state a receiver thread works on: the kernel, the registry that the threads of a
  durable session share (\<open>None\<close> otherwise), and the counters of \<open>--stats\<close> if any.
  \<open>sh_done\<close> is a record for the proofs: the files whose \<open>finished\<close> flag was set.
\<close>

record 'w shared =
  sh_os :: "'w os"
  sh_regs :: "registry option"
  sh_diag :: "diag option"
  sh_done :: "inflight list"

definition on_os :: "('w os, 'a) op \<Rightarrow> ('w shared, 'a) op" where
  "on_os = zoom sh_os (\<lambda>o' s. s\<lparr>sh_os := o'\<rparr>)"

definition with_diag :: "(diag \<Rightarrow> diag) \<Rightarrow> ('w shared, unit) op" where
  "with_diag f s = (Inr (), s\<lparr>sh_diag := map_option f (sh_diag s)\<rparr>)"

definition register_parent :: "'w kernel \<Rightarrow> fd \<Rightarrow> ('w shared, unit) op" where
  "register_parent k parent s =
     (case sh_regs s of
        None \<Rightarrow> (Inr (), s)
      | Some r \<Rightarrow>
          io_bind (on_os (register k parent r)) (\<lambda>r' t. (Inr (), t\<lparr>sh_regs := Some r'\<rparr>)) s)"

section \<open>Files in flight\<close>

text \<open>\<open>Drop for InFlight\<close>.\<close>

definition drop_inflight :: "'w kernel \<Rightarrow> inflight \<Rightarrow> ('w shared, unit) op" where
  "drop_inflight k f =
     (if \<not> if_finished f then io_ignore (on_os (unlink_at k (if_parent f) (if_name f)))
      else io_return ())"

definition drop_current :: "'w kernel \<Rightarrow> inflight option \<Rightarrow> ('w shared, unit) op" where
  "drop_current k cur = (case cur of None \<Rightarrow> io_return () | Some f \<Rightarrow> drop_inflight k f)"

text \<open>
  Dropping the receiving end drops the messages that are queued, and the ones still to be
  sent fail at the sender and are dropped there.
\<close>

fun drop_msgs :: "'w kernel \<Rightarrow> msg list \<Rightarrow> ('w shared, unit) op" where
  "drop_msgs k [] = io_return ()"
| "drop_msgs k (Begin f # ms) = io_bind (drop_inflight k f) (\<lambda>_. drop_msgs k ms)"
| "drop_msgs k (_ # ms) = drop_msgs k ms"

section \<open>The writer\<close>

text \<open>What \<open>EndFile\<close> does with the file in flight, up to setting \<open>finished\<close>.\<close>

definition complete :: "'w kernel \<Rightarrow> bool \<Rightarrow> inflight \<Rightarrow> ('w shared, unit) op" where
  "complete k durable f =
     io_bind (if if_mode f AND 0x180 \<noteq> 0x180
              then io_ignore (on_os (set_mode_fd k (if_file f) (if_mode f)))
              else io_return ()) (\<lambda>_.
     io_bind (io_ignore (on_os (set_mtime_fd k (if_file f) (if_mtime f)))) (\<lambda>_.
     io_bind (if durable then on_os (full_fsync k (if_file f)) else io_return ()) (\<lambda>_.
     case if_final f of
       None \<Rightarrow> io_return ()
     | Some final \<Rightarrow>
         io_bind (on_os (rename_at k (if_parent f) (if_name f) final)) (\<lambda>_.
         register_parent k (if_parent f)))))"

definition mark_finished :: "inflight \<Rightarrow> ('w shared, unit) op" where
  "mark_finished f s = (Inr (), s\<lparr>sh_done := sh_done s @ [f]\<rparr>)"

text \<open>An error return: the file in flight, then the channel, are dropped.\<close>

definition abandon ::
  "'w kernel \<Rightarrow> inflight \<Rightarrow> msg list \<Rightarrow> io_error \<Rightarrow> ('w shared, unit) op" where
  "abandon k f ms err =
     io_bind (drop_inflight k f) (\<lambda>_. io_bind (drop_msgs k ms) (\<lambda>_. io_throw err))"

text \<open>
  The loop. A finished file is dropped like any other, which does nothing to it. Buffers
  go back to the pool at once; the pool is the network thread's affair.
\<close>

fun write_loop ::
  "'w kernel \<Rightarrow> bool \<Rightarrow> inflight option \<Rightarrow> msg list \<Rightarrow> ('w shared, unit) op" where
  "write_loop k durable cur [] = io_bind (drop_current k cur) (\<lambda>_. io_return ())"
| "write_loop k durable cur (Begin f # ms) =
     io_bind (drop_current k cur) (\<lambda>_. write_loop k durable (Some f) ms)"
| "write_loop k durable cur (Data buf len # ms) =
     io_bind (with_diag dequeued) (\<lambda>_.
     case cur of
       None \<Rightarrow> write_loop k durable None ms
     | Some f \<Rightarrow>
         (\<lambda>s. case on_os (file_write_all k (if_file f) (take len buf)) s of
            (Inl err, t) \<Rightarrow> abandon k f ms err t
          | (Inr _, t) \<Rightarrow>
              io_bind (with_diag (\<lambda>d. d\<lparr>d_disk_bytes := d_disk_bytes d + word_of_nat len\<rparr>))
                (\<lambda>_. write_loop k durable (Some f) ms) t))"
| "write_loop k durable cur (EndFile # ms) =
     (case cur of
        None \<Rightarrow> write_loop k durable None ms
      | Some f \<Rightarrow>
          (\<lambda>s. case complete k durable f s of
             (Inl err, t) \<Rightarrow> abandon k f ms err t
           | (Inr _, t) \<Rightarrow>
               io_bind (mark_finished f) (\<lambda>_.
               io_bind (drop_inflight k (f\<lparr>if_finished := True\<rparr>)) (\<lambda>_.
               write_loop k durable None ms)) t))"
| "write_loop k durable cur (Finish # ms) = write_loop k durable cur ms"

section \<open>The hash stage\<close>

text \<open>
  One message: the new hasher, what is forwarded, what is replied. The timings aside, the
  loop is a fold of this step.
\<close>

fun hash_step :: "'h blake3 \<Rightarrow> 'h \<Rightarrow> msg \<Rightarrow> 'h \<times> msg option \<times> bytes option" where
  "hash_step B h (Data buf len) = (hash_update B h (take len buf), Some (Data buf len), None)"
| "hash_step B h Finish = (b3_reset B h, None, Some (b3_finalize B h))"
| "hash_step B h m = (h, Some m, None)"

fun hash_loop :: "'h blake3 \<Rightarrow> 'h \<Rightarrow> msg list \<Rightarrow> msg list \<times> bytes list" where
  "hash_loop B h [] = ([], [])"
| "hash_loop B h (m # ms) =
     (case hash_step B h m of
        (h', fwd, rep) \<Rightarrow>
          (case hash_loop B h' ms of
             (fs, rs) \<Rightarrow> ((case fwd of None \<Rightarrow> fs | Some f \<Rightarrow> f # fs),
                          (case rep of None \<Rightarrow> rs | Some r \<Rightarrow> r # rs))))"

section \<open>Exactly one party removes a file\<close>

text \<open>
  \<open>settled\<close> counts, per directory and name, the files that were finished and the removals
  that were asked of the kernel.
\<close>

definition key :: "inflight \<Rightarrow> fd \<times> bytes" where
  "key f = (if_parent f, if_name f)"

fun unlink_of :: "syscall \<times> reply \<Rightarrow> (fd \<times> bytes) list" where
  "unlink_of (UnlinkAt d n, r) = [(d, n)]"
| "unlink_of _ = []"

definition unlinks :: "(syscall \<times> reply) list \<Rightarrow> (fd \<times> bytes) list" where
  "unlinks tr = concat (map unlink_of tr)"

definition settled :: "'w shared \<Rightarrow> (fd \<times> bytes) multiset" where
  "settled s = mset (map key (sh_done s)) + mset (unlinks (trace (sh_os s)))"

text \<open>The files a list of messages puts in flight.\<close>

fun begun :: "msg list \<Rightarrow> inflight list" where
  "begun [] = []"
| "begun (Begin f # ms) = f # begun ms"
| "begun (_ # ms) = begun ms"

text \<open>A fresh file: not finished, under a name the kernel can take.\<close>

definition fresh :: "inflight \<Rightarrow> bool" where
  "fresh f \<longleftrightarrow> \<not> if_finished f \<and> 0 \<notin> set (if_name f)"

lemma unlinks_append [simp]: "unlinks (xs @ ys) = unlinks xs @ unlinks ys"
  by (simp add: unlinks_def)

lemma on_os_state: "on_os m s = (r, s') \<Longrightarrow> \<exists>o'. m (sh_os s) = (r, o') \<and> s' = s\<lparr>sh_os := o'\<rparr>"
  by (simp add: on_os_def zoom_eq)

text \<open>Operations that settle nothing.\<close>

abbreviation neutral :: "'w os \<Rightarrow> 'w os \<Rightarrow> bool" where
  "neutral s s' \<equiv> unlinks (trace s') = unlinks (trace s)"

interpretation neutral: effect neutral
  by unfold_locales auto

lemma call_neutral:
  assumes "\<And>r. unlink_of (c, r) = []"
  shows "spec neutral P (call k c) (\<lambda>_ _. True)"
  by (rule specI)
    (use assms in \<open>auto simp: call_def call_raw_def unlinks_def split: prod.splits reply.splits\<close>)

lemma call_unit_neutral:
  "(\<And>r. unlink_of (c, r) = []) \<Longrightarrow> spec neutral P (call_unit k c) (\<lambda>_ _. True)"
  unfolding call_unit_def
  by (rule neutral.spec_bind [OF call_neutral neutral.spec_return]) auto

lemma cstr_neutral: "spec neutral P (cstr n) (\<lambda>_ _. True)"
  unfolding cstr_def by (intro spec_if neutral.spec_throw neutral.spec_return) simp

abbreviation quiet :: "'w shared \<Rightarrow> 'w shared \<Rightarrow> bool" where
  "quiet s s' \<equiv> settled s' = settled s"

interpretation quiet: effect quiet
  by unfold_locales auto

lemma on_os_quiet: "spec neutral (\<lambda>_. True) m Q \<Longrightarrow> spec quiet P (on_os m) (\<lambda>_ _. True)"
  by (rule specI) (auto dest!: on_os_state specD simp: settled_def)

lemma full_fsync_neutral: "spec neutral P (full_fsync k f) (\<lambda>_ _. True)"
  unfolding full_fsync_def
  by (intro neutral.spec_catch [where P' = "\<lambda>_. True"] call_unit_neutral spec_if neutral.spec_throw) auto

lemma rename_at_neutral: "spec neutral P (rename_at k d m n) (\<lambda>_ _. True)"
  unfolding rename_at_def
  by (intro neutral.spec_bind [OF cstr_neutral] call_unit_neutral) auto

lemma register_neutral: "spec neutral P (register k d r) (\<lambda>_ _. True)"
  unfolding register_def fd_identity_def
  by (intro neutral.spec_bind [OF neutral.spec_bind [OF call_neutral]] neutral.spec_return) auto

lemma register_parent_quiet: "spec quiet P (register_parent k d) (\<lambda>_ _. True)"
proof (rule specI)
  fix s r s' assume e: "register_parent k d s = (r, s')"
  have "settled s' = settled s"
  proof (cases "sh_regs s")
    case (Some g)
    obtain x t where x: "on_os (register k d g) s = (x, t)" by (cases "on_os (register k d g) s")
    have "settled t = settled s"
      using specD [OF on_os_quiet [OF register_neutral], of "\<lambda>_. True"] x by blast
    with e x Some show ?thesis by (cases x) (auto simp: register_parent_def settled_def)
  qed (use e in \<open>simp add: register_parent_def\<close>)
  then show "settled s' = settled s \<and> (\<forall>v. r = Inr v \<longrightarrow> True)" by simp
qed

lemma with_diag_quiet: "spec quiet P (with_diag g) (\<lambda>_ _. True)"
  by (rule specI) (auto simp: with_diag_def settled_def)

lemma complete_quiet: "spec quiet P (complete k durable f) (\<lambda>_ _. True)"
proof -
  have m: "spec quiet P (if if_mode f AND 0x180 \<noteq> 0x180
      then io_ignore (on_os (set_mode_fd k (if_file f) (if_mode f))) else io_return ()) (\<lambda>_ _. True)"
    by (intro spec_if quiet.spec_ignore on_os_quiet quiet.spec_return)
      (auto simp: set_mode_fd_def intro: call_unit_neutral)
  have t: "spec quiet (\<lambda>_. True) (io_ignore (on_os (set_mtime_fd k (if_file f) (if_mtime f)))) (\<lambda>_ _. True)"
    by (intro quiet.spec_ignore on_os_quiet) (auto simp: set_mtime_fd_def intro: call_unit_neutral)
  have y: "spec quiet (\<lambda>_. True)
      (if durable then on_os (full_fsync k (if_file f)) else io_return ()) (\<lambda>_ _. True)"
    by (cases durable)
      (auto intro: on_os_quiet [OF full_fsync_neutral] quiet.spec_return simp del: io_return_simp)
  have r: "spec quiet (\<lambda>_. True) (case if_final f of None \<Rightarrow> io_return ()
      | Some final \<Rightarrow> io_bind (on_os (rename_at k (if_parent f) (if_name f) final))
          (\<lambda>_. register_parent k (if_parent f))) (\<lambda>_ _. True)"
    by (cases "if_final f")
      (auto intro!: quiet.spec_return quiet.spec_bind [OF on_os_quiet [OF rename_at_neutral]]
        register_parent_quiet simp del: io_return_simp)
  show ?thesis
    unfolding complete_def
    by (rule quiet.spec_bind [OF m quiet.spec_bind [OF t quiet.spec_bind [OF y r]]])
qed

lemma drop_inflight_fresh:
  assumes "fresh f" and "drop_inflight k f s = (r, s')"
  shows "r = Inr () \<and> settled s' = add_mset (key f) (settled s)"
  using assms
  by (auto simp: fresh_def drop_inflight_def io_ignore_def on_os_def zoom_def unlink_at_def
      cstr_def call_unit_def io_bind_def call_def call_raw_def settled_def unlinks_def key_def
      split: prod.splits reply.splits)

lemma drop_inflight_finished: "drop_inflight k (f\<lparr>if_finished := True\<rparr>) s = (Inr (), s)"
  by (simp add: drop_inflight_def)

lemma drop_current_settled:
  assumes "\<forall>f. cur = Some f \<longrightarrow> fresh f" and "drop_current k cur s = (r, s')"
  shows "r = Inr () \<and> settled s' = settled s + image_mset key (mset_set {f. cur = Some f})"
proof (cases cur)
  case (Some f)
  with assms have "fresh f" "drop_inflight k f s = (r, s')" by (simp_all add: drop_current_def)
  from drop_inflight_fresh [OF this] Some show ?thesis by simp
qed (use assms in \<open>simp add: drop_current_def\<close>)

lemma drop_msgs_settled:
  "\<forall>f \<in> set (begun ms). fresh f \<Longrightarrow> drop_msgs k ms s = (r, s') \<Longrightarrow>
   r = Inr () \<and> settled s' = settled s + mset (map key (begun ms))"
proof (induction k ms arbitrary: s rule: drop_msgs.induct)
  case (2 k f ms)
  obtain x t where x: "drop_inflight k f s = (x, t)" by (cases "drop_inflight k f s")
  from 2 drop_inflight_fresh [OF _ x] x show ?case by auto
qed auto

lemma abandon_settled:
  assumes "fresh f" "\<forall>f \<in> set (begun ms). fresh f" "abandon k f ms err s = (r, s')"
  shows "r = Inl err \<and> settled s' = settled s + mset (map key (f # begun ms))"
proof -
  obtain x t where x: "drop_inflight k f s = (x, t)" by (cases "drop_inflight k f s")
  obtain y u where y: "drop_msgs k ms t = (y, u)" by (cases "drop_msgs k ms t")
  from drop_inflight_fresh [OF assms(1) x] drop_msgs_settled [OF assms(2) y] assms(3) x y
  show ?thesis by (auto simp: abandon_def)
qed

definition pending :: "inflight option \<Rightarrow> msg list \<Rightarrow> inflight list" where
  "pending cur ms = (case cur of None \<Rightarrow> [] | Some f \<Rightarrow> [f]) @ begun ms"

text \<open>
  Whatever the kernel replies and wherever the loop stops, each file put in flight is
  settled exactly once: finished, or removed, never both and never twice.
\<close>

lemma write_loop_settled:
  "\<forall>f \<in> set (pending cur ms). fresh f \<Longrightarrow> write_loop k durable cur ms s = (r, s') \<Longrightarrow>
   settled s' = settled s + mset (map key (pending cur ms))"
proof (induction k durable cur ms arbitrary: s rule: write_loop.induct)
  case (1 k durable cur)
  obtain x t where x: "drop_current k cur s = (x, t)" by (cases "drop_current k cur s")
  from drop_current_settled [OF _ x] 1 x show ?case
    by (cases cur) (auto simp: pending_def)
next
  case (2 k durable cur f ms)
  obtain x t where x: "drop_current k cur s = (x, t)" by (cases "drop_current k cur s")
  have d: "x = Inr () \<and> settled t = settled s + mset (map key (case cur of None \<Rightarrow> [] | Some f \<Rightarrow> [f]))"
    using drop_current_settled [OF _ x] 2(2) by (cases cur) (auto simp: pending_def)
  with x 2(3) have "write_loop k durable (Some f) ms t = (r, s')" by simp
  from 2(1) [OF _ this] 2(2) d show ?case by (auto simp: pending_def)
next
  case (3 k durable cur buf len ms)
  obtain t where t: "with_diag dequeued s = (Inr (), t)" by (simp add: with_diag_def)
  have st: "settled t = settled s" using specD [OF with_diag_quiet _ t] by blast
  show ?case
  proof (cases cur)
    case None
    with 3 t have "write_loop k durable None ms t = (r, s')" by simp
    from 3(1) [OF None _ this] 3(3) st None show ?thesis by (auto simp: pending_def)
  next
    case (Some f)
    obtain x u where x: "on_os (file_write_all k (if_file f) (take len buf)) t = (x, u)"
      by (cases "on_os (file_write_all k (if_file f) (take len buf)) t")
    have "spec neutral (\<lambda>_. True) (file_write_all k (if_file f) (take len buf)) (\<lambda>_ _. True)"
      unfolding file_write_all_def by (rule call_unit_neutral) simp
    from specD [OF on_os_quiet [OF this] _ x] have su: "settled u = settled t" by blast
    show ?thesis
    proof (cases x)
      case (Inl err)
      with x t 3(4) Some have "abandon k f ms err u = (r, s')" by simp
      from abandon_settled [OF _ _ this] 3(3) Some st su show ?thesis by (auto simp: pending_def)
    next
      case (Inr v)
      let ?g = "\<lambda>d. d\<lparr>d_disk_bytes := d_disk_bytes d + word_of_nat len\<rparr>"
      obtain w where w: "with_diag ?g u = (Inr (), w)" by (simp add: with_diag_def)
      have sw: "settled w = settled u" using specD [OF with_diag_quiet _ w] by blast
      from Inr x t w 3(4) Some have "write_loop k durable (Some f) ms w = (r, s')" by simp
      from 3(2) [OF Some x [symmetric] Inr w _ this] 3(3) Some st su sw show ?thesis by (auto simp: pending_def)
    qed
  qed
next
  case (4 k durable cur ms)
  show ?case
  proof (cases cur)
    case None
    with 4 show ?thesis by (auto simp: pending_def)
  next
    case (Some f)
    obtain x u where x: "complete k durable f s = (x, u)" by (cases "complete k durable f s")
    from specD [OF complete_quiet _ x] have su: "settled u = settled s" by blast
    show ?thesis
    proof (cases x)
      case (Inl err)
      with x 4(4) Some have "abandon k f ms err u = (r, s')" by simp
      from abandon_settled [OF _ _ this] 4(3) Some su show ?thesis by (auto simp: pending_def)
    next
      case (Inr v)
      obtain w where w: "mark_finished f u = (Inr (), w)" "settled w = add_mset (key f) (settled u)"
        by (simp add: mark_finished_def settled_def)
      from Inr x w 4(4) Some have "write_loop k durable None ms w = (r, s')"
        by (simp add: drop_inflight_finished)
      from 4(2) [OF Some x [symmetric] Inr w(1) drop_inflight_finished _ this] 4(3) Some su w show ?thesis by (auto simp: pending_def)
    qed
  qed
next
  case (5 k durable cur ms)
  then show ?case by (auto simp: pending_def)
qed

end
