(* ===== verification/Handshake.thy ===== *)
theory Handshake
  imports Wire
begin

text \<open>
  The connection prefix of \<open>src/wire.rs\<close>: the version-3 handshake, the version-4 one with
  its stream tail, the parser that refuses what this build cannot honour, and the
  constant-time token comparison.
\<close>

section \<open>Encoding\<close>

definition base_handshake :: "byte \<Rightarrow> byte \<Rightarrow> bytes \<Rightarrow> bytes" where
  "base_handshake version flags token = u32_to_le MAGIC @ [version, flags] @ token"

definition encode_handshake :: "byte \<Rightarrow> bytes \<Rightarrow> bytes" where
  "encode_handshake flags token = base_handshake VERSION flags token"

definition encode_streams :: "u32 \<Rightarrow> u32 \<Rightarrow> bytes" where
  "encode_streams count index = u32_to_le count @ u32_to_le index"

definition encode_handshake_multi :: "byte \<Rightarrow> bytes \<Rightarrow> u32 \<Rightarrow> u32 \<Rightarrow> bytes" where
  "encode_handshake_multi flags token count index =
     base_handshake VERSION_MULTI flags token @ encode_streams count index"

definition decode_streams :: "bytes \<Rightarrow> u32 \<times> u32" where
  "decode_streams buf = (u32_from_le (take 4 buf), u32_from_le (drop 4 buf))"

lemma decode_encode_streams [simp]: "decode_streams (encode_streams c i) = (c, i)"
  by (simp add: decode_streams_def encode_streams_def)

lemma length_encode_streams [simp]: "length (encode_streams c i) = 8"
  by (simp add: encode_streams_def)

lemma length_base_handshake [simp]: "length (base_handshake v f t) = 6 + length t"
  by (simp add: base_handshake_def)

section \<open>Decoding\<close>

text \<open>The buffer is a \<open>[u8; HANDSHAKE_LEN]\<close>; the checks are in the source's order.\<close>

definition decode_handshake :: "bytes \<Rightarrow> (byte \<times> byte \<times> bytes) result" where
  "decode_handshake buf =
     (if u32_from_le (take 4 buf) \<noteq> MAGIC then Inl (IoError InvalidData NotThunderflash)
      else if buf ! 4 \<noteq> VERSION \<and> buf ! 4 \<noteq> VERSION_MULTI
        then Inl (IoError InvalidData (VersionUnsupported (buf ! 4)))
      else if (buf ! 5) AND (NOT KNOWN_FLAGS) \<noteq> 0
        then Inl (IoError InvalidData (UnknownFlags (buf ! 5)))
      else Inr (buf ! 4, buf ! 5, drop 6 buf))"

record handshake =
  hs_version :: byte
  hs_flags :: byte
  hs_token :: bytes
  hs_streams :: "(u32 \<times> u32) option"

definition read_handshake :: "(nat \<Rightarrow> ('s, bytes) op) \<Rightarrow> ('s, handshake) op" where
  "read_handshake re =
     io_bind (re HANDSHAKE_LEN) (\<lambda>buf.
       case decode_handshake buf of
         Inl e \<Rightarrow> io_throw e
       | Inr (version, flags, token) \<Rightarrow>
           if version = VERSION_MULTI then
             io_bind (re STREAMS_EXTRA_LEN) (\<lambda>tail.
             io_return \<lparr>hs_version = version, hs_flags = flags, hs_token = token,
                        hs_streams = Some (decode_streams tail)\<rparr>)
           else
             io_return \<lparr>hs_version = version, hs_flags = flags, hs_token = token,
                        hs_streams = None\<rparr>)"

text \<open>The flags a sender can honestly set: those this build knows.\<close>

definition flags_known :: "byte \<Rightarrow> bool" where
  "flags_known flags \<longleftrightarrow> flags AND (NOT KNOWN_FLAGS) = 0"

lemma flags_known_iff: "flags_known flags \<longleftrightarrow> flags = 0 \<or> flags = FLAG_NO_VERIFY"
proof -
  have "(flags :: byte) AND NOT 1 = 0 \<longleftrightarrow> flags = 0 \<or> flags = 1"
  proof
    assume "flags AND NOT 1 = 0"
    then have *: "bit (flags AND NOT 1) n = bit (0 :: byte) n" for n by simp
    have "\<not> bit flags n" if "0 < n" for n
      using * [of n] that by (cases "n < 8") (auto simp: bit_simps dest: bit_imp_le_length)
    then have "flags = of_bool (bit flags 0)"
      by (intro bit_eqI) (metis bit_1_0 bit_of_bool_iff gr0I)
    then show "flags = 0 \<or> flags = 1" by (cases "bit flags 0") simp_all
  qed auto
  then show ?thesis by (simp add: flags_known_def KNOWN_FLAGS_def FLAG_NO_VERIFY_def)
qed

lemma decode_base_handshake:
  assumes "length token = TOKEN_LEN"
  shows "decode_handshake (base_handshake v f token) =
    (if v \<noteq> VERSION \<and> v \<noteq> VERSION_MULTI then Inl (IoError InvalidData (VersionUnsupported v))
     else if \<not> flags_known f then Inl (IoError InvalidData (UnknownFlags f))
     else Inr (v, f, token))"
  by (simp add: decode_handshake_def base_handshake_def flags_known_def nth_append)

text \<open>What \<open>decode_handshake\<close> accepts is exactly a well-formed base handshake.\<close>

lemma decode_handshake_Inr:
  assumes "length buf = HANDSHAKE_LEN" and "decode_handshake buf = Inr (v, f, token)"
  shows "buf = base_handshake v f token \<and> length token = TOKEN_LEN
    \<and> (v = VERSION \<or> v = VERSION_MULTI) \<and> flags_known f"
proof -
  from assms(1) have len: "length buf = 38" by (simp add: HANDSHAKE_LEN_def TOKEN_LEN_def)
  from assms(2) have m: "u32_from_le (take 4 buf) = MAGIC" and vft: "v = buf ! 4" "f = buf ! 5"
      "token = drop 6 buf"
    and ok: "v = VERSION \<or> v = VERSION_MULTI" "flags_known f"
    by (auto simp: decode_handshake_def flags_known_def split: if_splits)
  have "u32_to_le MAGIC = take 4 buf"
    using m len u32_from_le_inverse [of "take 4 buf"] by simp
  moreover have "drop 4 buf = buf ! 4 # buf ! 5 # drop 6 buf"
    using len by (simp add: Cons_nth_drop_Suc [symmetric] numeral_eq_Suc)
  moreover have "buf = take 4 buf @ drop 4 buf" by simp
  ultimately have "buf = base_handshake v f token"
    using vft by (simp add: base_handshake_def)
  then show ?thesis using vft ok len by (simp add: TOKEN_LEN_def)
qed

context reader begin

lemma read_handshake_v3:
  assumes h: "healthy s" and t: "length token = TOKEN_LEN" and f: "flags_known flags"
    and r: "rem s = encode_handshake flags token @ rest"
  shows "\<exists>s'. read_handshake re s =
      (Inr \<lparr>hs_version = VERSION, hs_flags = flags, hs_token = token, hs_streams = None\<rparr>, s')
    \<and> healthy s' \<and> rem s' = rest"
proof -
  have "length (encode_handshake flags token) = HANDSHAKE_LEN"
    using t by (simp add: encode_handshake_def HANDSHAKE_LEN_def)
  then obtain s1 where "re HANDSHAKE_LEN s = (Inr (encode_handshake flags token), s1)"
      "healthy s1" "rem s1 = rest"
    using re_exact [OF h r] by blast
  then show ?thesis
    using t f
    by (auto simp: read_handshake_def encode_handshake_def decode_base_handshake
        VERSION_def VERSION_MULTI_def)
qed

lemma read_handshake_v4:
  assumes h: "healthy s" and t: "length token = TOKEN_LEN" and f: "flags_known flags"
    and r: "rem s = encode_handshake_multi flags token count index @ rest"
  shows "\<exists>s'. read_handshake re s =
      (Inr \<lparr>hs_version = VERSION_MULTI, hs_flags = flags, hs_token = token,
            hs_streams = Some (count, index)\<rparr>, s')
    \<and> healthy s' \<and> rem s' = rest"
proof -
  let ?b = "base_handshake VERSION_MULTI flags token"
  have len: "length ?b = HANDSHAKE_LEN" using t by (simp add: HANDSHAKE_LEN_def)
  have "rem s = ?b @ encode_streams count index @ rest"
    using r by (simp add: encode_handshake_multi_def)
  from re_exact [OF h this len] obtain s1 where s1: "re HANDSHAKE_LEN s = (Inr ?b, s1)"
      "healthy s1" "rem s1 = encode_streams count index @ rest"
    by blast
  from re_exact [OF s1(2,3)] obtain s2 where
      "re STREAMS_EXTRA_LEN s1 = (Inr (encode_streams count index), s2)" "healthy s2" "rem s2 = rest"
    by (auto simp: STREAMS_EXTRA_LEN_def)
  with s1 show ?thesis
    using t f by (auto simp: read_handshake_def decode_base_handshake)
qed

text \<open>
  What is accepted was one of the two encodings: the version tells which, the token has
  its fixed length, the flags are known, and nothing past the prefix was consumed.
\<close>

lemma read_handshake_canonical:
  assumes "read_handshake re s = (Inr hs, s')"
  shows "flags_known (hs_flags hs) \<and> length (hs_token hs) = TOKEN_LEN \<and>
    (case hs_streams hs of
       None \<Rightarrow> hs_version hs = VERSION
         \<and> rem s = encode_handshake (hs_flags hs) (hs_token hs) @ rem s'
     | Some (c, i) \<Rightarrow> hs_version hs = VERSION_MULTI
         \<and> rem s = encode_handshake_multi (hs_flags hs) (hs_token hs) c i @ rem s')"
proof -
  let ?k = "\<lambda>v f token.
      if v = VERSION_MULTI then
        io_bind (re STREAMS_EXTRA_LEN) (\<lambda>tail.
          io_return \<lparr>hs_version = v, hs_flags = f, hs_token = token,
                     hs_streams = Some (decode_streams tail)\<rparr>)
      else io_return \<lparr>hs_version = v, hs_flags = f, hs_token = token, hs_streams = None\<rparr>"
  from assms obtain buf s1 where r1: "re HANDSHAKE_LEN s = (Inr buf, s1)"
      and k0: "(case decode_handshake buf of Inl e \<Rightarrow> io_throw e
                | Inr (v, f, token) \<Rightarrow> ?k v f token) s1 = (Inr hs, s')"
    by (auto simp: read_handshake_def io_bind_Inr)
  from k0 obtain v f token where d: "decode_handshake buf = Inr (v, f, token)"
    by (cases "decode_handshake buf") auto
  with k0 have k: "?k v f token s1 = (Inr hs, s')" by simp
  from re_ok [OF r1] have buf: "length buf = HANDSHAKE_LEN" "rem s = buf @ rem s1" by simp_all
  note c = decode_handshake_Inr [OF buf(1) d]
  show ?thesis
  proof (cases "v = VERSION_MULTI")
    case False
    with k c buf show ?thesis by (auto simp: encode_handshake_def)
  next
    case True
    with k obtain tail where r2: "re STREAMS_EXTRA_LEN s1 = (Inr tail, s')"
      and hs: "hs = \<lparr>hs_version = v, hs_flags = f, hs_token = token,
                     hs_streams = Some (decode_streams tail)\<rparr>"
      by (auto simp: io_bind_Inr)
    from re_ok [OF r2] have "length tail = 8" "rem s1 = tail @ rem s'"
      by (simp_all add: STREAMS_EXTRA_LEN_def)
    moreover from this have "encode_streams (u32_from_le (take 4 tail)) (u32_from_le (drop 4 tail)) = tail"
      by (simp add: encode_streams_def u32_from_le_inverse)
    ultimately show ?thesis
      using c buf hs True by (simp add: encode_handshake_multi_def decode_streams_def)
  qed
qed

end

section \<open>Token comparison\<close>

fun ct_diff :: "byte \<Rightarrow> bytes \<Rightarrow> bytes \<Rightarrow> byte" where
  "ct_diff diff (x # a) (y # b) = ct_diff (diff OR (x XOR y)) a b"
| "ct_diff diff _ _ = diff"

definition ct_eq :: "bytes \<Rightarrow> bytes \<Rightarrow> bool" where
  "ct_eq a b = (if length a \<noteq> length b then False else ct_diff 0 a b = 0)"

lemma or_eq_0_word: "(x :: byte) OR y = 0 \<longleftrightarrow> x = 0 \<and> y = 0"
  by (auto intro!: bit_eqI simp: bit_eq_iff bit_or_iff)

lemma xor_eq_0_word: "(x :: byte) XOR y = 0 \<longleftrightarrow> x = y"
  by (auto intro!: bit_eqI simp: bit_eq_iff bit_xor_iff)

lemma ct_diff_eq_0:
  "length a = length b \<Longrightarrow> ct_diff d a b = 0 \<longleftrightarrow> d = 0 \<and> a = b"
  by (induction d a b rule: ct_diff.induct) (auto simp: or_eq_0_word xor_eq_0_word)

lemma ct_eq_iff: "ct_eq a b \<longleftrightarrow> a = b"
  by (auto simp: ct_eq_def ct_diff_eq_0)

end
