(* ===== verification/Bitmap.thy ===== *)
theory Bitmap
  imports Wire
begin

text \<open>
  The manifest answer of \<open>src/wire.rs\<close>: one bit per File entry, in wire order, least
  significant bit first within each byte.
\<close>

section \<open>Encoding and decoding\<close>

definition div_ceil8 :: "nat \<Rightarrow> nat" where
  "div_ceil8 n = (n + 7) div 8"

text \<open>The loop of \<open>encode_bitmap\<close>, from entry \<open>i\<close> on.\<close>

fun set_bits_from :: "nat \<Rightarrow> bool list \<Rightarrow> bytes \<Rightarrow> bytes" where
  "set_bits_from i [] out = out"
| "set_bits_from i (b # bs) out =
     set_bits_from (Suc i) bs
       (if b then out[i div 8 := (out ! (i div 8)) OR push_bit (i mod 8) 1] else out)"

definition encode_bitmap :: "bool list \<Rightarrow> bytes" where
  "encode_bitmap bits = set_bits_from 0 bits (replicate (div_ceil8 (length bits)) 0)"

definition bit_of :: "bytes \<Rightarrow> nat \<Rightarrow> bool" where
  "bit_of bs i \<longleftrightarrow> (drop_bit (i mod 8) (bs ! (i div 8))) AND 1 = 1"

definition read_bitmap :: "(nat \<Rightarrow> ('s, bytes) op) \<Rightarrow> nat \<Rightarrow> ('s, bool list) op" where
  "read_bitmap re n =
     io_bind (re (div_ceil8 n)) (\<lambda>bs. io_return (map (bit_of bs) [0..<n]))"

section \<open>Correctness\<close>

lemma bit_of_bit: "bit_of bs i \<longleftrightarrow> bit (bs ! (i div 8)) (i mod 8)"
  by (simp add: bit_of_def and_one_eq bit_iff_odd_drop_bit mod_2_eq_odd)

lemma index_in_range: "i < n \<Longrightarrow> i div 8 < div_ceil8 n"
  unfolding div_ceil8_def by linarith

lemma length_set_bits_from [simp]: "length (set_bits_from i bits out) = length out"
  by (induction i bits out rule: set_bits_from.induct) simp_all

lemma bit_of_update:
  assumes "i div 8 < length out"
  shows "bit_of (out[i div 8 := (out ! (i div 8)) OR push_bit (i mod 8) 1]) j \<longleftrightarrow>
    bit_of out j \<or> j = i"
proof (cases "j div 8 = i div 8")
  case True
  have "j mod 8 < 8" "i mod 8 < 8" by simp_all
  moreover have "j = i \<longleftrightarrow> j mod 8 = i mod 8" using True by (metis div_mult_mod_eq)
  ultimately show ?thesis using assms True
    by (auto simp: bit_of_bit bit_simps)
next
  case False
  then show ?thesis using assms by (auto simp: bit_of_bit)
qed

lemma bit_of_set_bits_from:
  assumes "(i + length bits + 7) div 8 \<le> length out"
  shows "bit_of (set_bits_from i bits out) j \<longleftrightarrow>
    bit_of out j \<or> (i \<le> j \<and> j < i + length bits \<and> bits ! (j - i))"
  using assms
proof (induction i bits out rule: set_bits_from.induct)
  case (1 i out)
  then show ?case by auto
next
  case (2 i b bs out)
  let ?out = "if b then out[i div 8 := (out ! (i div 8)) OR push_bit (i mod 8) 1] else out"
  from "2.prems" have i: "i div 8 < length out" by simp
  have "bit_of (set_bits_from i (b # bs) out) j \<longleftrightarrow>
      bit_of ?out j \<or> (Suc i \<le> j \<and> j < Suc i + length bs \<and> bs ! (j - Suc i))"
    using "2.IH" "2.prems" by simp
  also have "bit_of ?out j \<longleftrightarrow> bit_of out j \<or> (b \<and> j = i)"
    using bit_of_update [OF i, of j] by auto
  finally show ?case
    by (cases "j = i") (auto simp: nth_Cons' Suc_le_eq)
qed

lemma encode_bitmap_length: "length (encode_bitmap bits) = div_ceil8 (length bits)"
  by (simp add: encode_bitmap_def)

lemma encode_bitmap_bit:
  assumes "j < length bits"
  shows "bit_of (encode_bitmap bits) j \<longleftrightarrow> bits ! j"
proof -
  have "\<not> bit_of (replicate (div_ceil8 (length bits)) 0) j"
    using index_in_range [OF assms] by (simp add: bit_of_bit)
  then show ?thesis using assms
    by (simp add: encode_bitmap_def bit_of_set_bits_from div_ceil8_def)
qed

text \<open>The padding bits of a short final byte are clear.\<close>

lemma encode_bitmap_padding:
  assumes "length bits \<le> j" and "j < 8 * div_ceil8 (length bits)"
  shows "\<not> bit_of (encode_bitmap bits) j"
proof -
  have "j div 8 < div_ceil8 (length bits)" using assms(2) by linarith
  then have "\<not> bit_of (replicate (div_ceil8 (length bits)) 0) j"
    by (simp add: bit_of_bit)
  then show ?thesis using assms(1)
    by (simp add: encode_bitmap_def bit_of_set_bits_from div_ceil8_def)
qed

lemma decode_encode_bitmap: "map (bit_of (encode_bitmap bits)) [0..<length bits] = bits"
  by (rule nth_equalityI) (simp_all add: encode_bitmap_bit)

context reader begin

lemma read_bitmap_roundtrip:
  assumes "healthy s" and "rem s = encode_bitmap bits @ rest"
  shows "\<exists>s'. read_bitmap re (length bits) s = (Inr bits, s') \<and> healthy s' \<and> rem s' = rest"
proof -
  from re_exact [OF assms] obtain s' where
      "re (div_ceil8 (length bits)) s = (Inr (encode_bitmap bits), s')" "healthy s'" "rem s' = rest"
    by (auto simp: encode_bitmap_length)
  then show ?thesis by (simp add: read_bitmap_def decode_encode_bitmap)
qed

lemma read_bitmap_length:
  "read_bitmap re n s = (Inr bits, s') \<Longrightarrow> length bits = n"
  by (auto simp: read_bitmap_def io_bind_Inr)

end

end
