(* ===== verification/Staged.thy ===== *)
theory Staged
  imports Handshake Bitmap
begin

text \<open>
  The receiving socket. \<open>sock\<close> is what the program sees of a \<open>TcpStream\<close>: the bytes
  still to arrive, and how the kernel will hand them over, as a list of events: a short
  read of at most so many bytes, or a failing one (a time-out, a signal). When the list
  is used up every read is served in full. \<open>staged\<close> is the 64 KiB staging buffer of
  \<open>src/recv.rs\<close> in front of it, and \<open>read_exact\<close> the standard library's loop. Both
  satisfy the contract \<open>reader\<close>, so everything proved about decoding holds for them.
\<close>

section \<open>The socket\<close>

datatype sock_event = Avail nat | Fail errno

datatype write_event = WriteOk | WriteFail nat errno

record sock =
  incoming :: bytes
  events :: "sock_event list"
  outgoing :: bytes
  write_events :: "write_event list"

text \<open>
  \<open>TcpStream::read\<close> with a buffer of \<open>n\<close> bytes: end of stream is zero bytes; otherwise at
  least one byte (for a non-empty buffer), at most the buffer and what has arrived.
\<close>

definition sock_read :: "nat \<Rightarrow> (sock, bytes) op" where
  "sock_read n s =
     (case events s of
        [] \<Rightarrow> (Inr (take n (incoming s)), s\<lparr>incoming := drop n (incoming s)\<rparr>)
      | Avail k # evs \<Rightarrow>
          (let m = min n (max 1 k)
           in (Inr (take m (incoming s)), s\<lparr>incoming := drop m (incoming s), events := evs\<rparr>))
      | Fail e # evs \<Rightarrow> (Inl (OsError e), s\<lparr>events := evs\<rparr>))"

text \<open>
  \<open>write_all\<close>: everything, or an error after part of it (once the last byte is taken it
  succeeds); \<open>outgoing\<close> is what reached the peer's side of the connection.
\<close>

definition sock_write_all :: "bytes \<Rightarrow> (sock, unit) op" where
  "sock_write_all bs s =
     (case write_events s of
        WriteFail k e # evs \<Rightarrow>
          (Inl (OsError e),
           s\<lparr>outgoing := outgoing s @ take (min k (length bs - 1)) bs, write_events := evs\<rparr>)
      | WriteOk # evs \<Rightarrow> (Inr (), s\<lparr>outgoing := outgoing s @ bs, write_events := evs\<rparr>)
      | [] \<Rightarrow> (Inr (), s\<lparr>outgoing := outgoing s @ bs\<rparr>))"

section \<open>The staging buffer\<close>

definition STAGE_CAP :: nat where "STAGE_CAP = 64 * 1024"

text \<open>The live part of the buffer, from \<open>off\<close> up to \<open>end\<close>, is \<open>stage\<close>.\<close>

record staged =
  s_stream :: sock
  s_stage :: bytes
  s_off :: nat
  s_end :: nat

definition staged_new :: "sock \<Rightarrow> staged" where
  "staged_new stream =
     \<lparr>s_stream = stream, s_stage = replicate STAGE_CAP 0, s_off = 0, s_end = 0\<rparr>"

definition staged_copy :: "nat \<Rightarrow> (staged, bytes) op" where
  "staged_copy len s =
     (let n = min len (s_end s - s_off s)
      in (Inr (take n (drop (s_off s) (s_stage s))), s\<lparr>s_off := s_off s + n\<rparr>))"

definition staged_read :: "nat \<Rightarrow> (staged, bytes) op" where
  "staged_read len s =
     (if s_off s = s_end s then
        (if STAGE_CAP \<le> len then
           (case sock_read len (s_stream s) of (r, k) \<Rightarrow> (r, s\<lparr>s_stream := k\<rparr>))
         else
           (case sock_read (length (s_stage s)) (s_stream s) of
              (Inl e, k) \<Rightarrow> (Inl e, s\<lparr>s_stream := k\<rparr>)
            | (Inr bs, k) \<Rightarrow>
                staged_copy len
                  (s\<lparr>s_stream := k, s_stage := bs @ drop (length bs) (s_stage s),
                     s_off := 0, s_end := length bs\<rparr>)))
      else staged_copy len s)"

definition staged_inv :: "staged \<Rightarrow> bool" where
  "staged_inv s \<longleftrightarrow> s_off s \<le> s_end s \<and> s_end s \<le> length (s_stage s) \<and> length (s_stage s) = STAGE_CAP"

text \<open>What the pair of buffer and socket still has to deliver.\<close>

definition staged_rem :: "staged \<Rightarrow> bytes" where
  "staged_rem s = take (s_end s - s_off s) (drop (s_off s) (s_stage s)) @ incoming (s_stream s)"

section \<open>read_exact\<close>

text \<open>
  The standard library's \<open>read_exact\<close> over a given \<open>read\<close>: loop until the buffer is full,
  retry an interrupted read, fail with \<open>UnexpectedEof\<close> on a read of zero bytes. Each turn
  of the loop delivers a byte or uses up an event, so fuel above \<open>left\<close> (their number) is
  never used up; \<open>read_exact_fuel_enough\<close> proves it.
\<close>

fun read_exact_fuel :: "nat \<Rightarrow> (nat \<Rightarrow> ('s, bytes) op) \<Rightarrow> nat \<Rightarrow> ('s, bytes) op" where
  "read_exact_fuel 0 rd n s = (Inl eof_error, s)"
| "read_exact_fuel (Suc fuel) rd n s =
     (if n = 0 then (Inr [], s)
      else case rd n s of
        (Inr bs, s') \<Rightarrow>
          if bs = [] then (Inl eof_error, s')
          else (case read_exact_fuel fuel rd (n - length bs) s' of
             (Inl e, s'') \<Rightarrow> (Inl e, s'')
           | (Inr cs, s'') \<Rightarrow> (Inr (bs @ cs), s''))
      | (Inl e, s') \<Rightarrow>
          if err_kind e = Interrupted then read_exact_fuel fuel rd n s' else (Inl e, s'))"

text \<open>What a \<open>read\<close> owes to the loop, and what the loop then owes to its clients.\<close>

locale raw_reader =
  fixes rd :: "nat \<Rightarrow> ('s, bytes) op"
    and rem :: "'s \<Rightarrow> bytes"
    and healthy :: "'s \<Rightarrow> bool"
    and left :: "'s \<Rightarrow> nat"
  assumes rd_ok: "rd n s = (Inr bs, s') \<Longrightarrow> rem s = bs @ rem s' \<and> length bs \<le> n"
    and rd_progress: "rd n s = (Inr bs, s') \<Longrightarrow> bs \<noteq> [] \<Longrightarrow> left s' < left s"
    and rd_err: "rd n s = (Inl e, s') \<Longrightarrow> rem s' = rem s \<and> left s' < left s"
    and rd_healthy: "healthy s \<Longrightarrow> rd n s = (Inr bs, s') \<Longrightarrow>
      healthy s' \<and> (bs = [] \<longrightarrow> n = 0 \<or> rem s = [])"
    and rd_healthy_err: "healthy s \<Longrightarrow> rd n s = (Inl e, s') \<Longrightarrow>
      healthy s' \<and> err_kind e = Interrupted"

context raw_reader begin

lemma read_exact_fuel_ok:
  "read_exact_fuel fuel rd n s = (Inr bs, s') \<Longrightarrow> length bs = n \<and> rem s = bs @ rem s'"
proof (induction fuel arbitrary: n s bs s')
  case (Suc fuel)
  show ?case
  proof (cases "n = 0")
    case False
    obtain r t where r: "rd n s = (r, t)" by (cases "rd n s")
    show ?thesis
    proof (cases r)
      case (Inl e)
      with Suc False r have "read_exact_fuel fuel rd n t = (Inr bs, s')"
        by (auto split: if_splits)
      with Suc.IH rd_err [of n s e t] r Inl show ?thesis by auto
    next
      case (Inr as)
      with Suc.prems False r obtain cs where "as \<noteq> []" "bs = as @ cs"
          and c: "read_exact_fuel fuel rd (n - length as) t = (Inr cs, s')"
        by (auto split: if_splits sum.splits prod.splits)
      with Suc.IH [OF c] rd_ok [of n s as t] r Inr show ?thesis by auto
    qed
  qed (use Suc in auto)
qed simp

lemma read_exact_fuel_suffix:
  "read_exact_fuel fuel rd n s = (r, s') \<Longrightarrow> \<exists>bs. rem s = bs @ rem s'"
proof (induction fuel arbitrary: n s r)
  case (Suc fuel)
  obtain x t where x: "rd n s = (x, t)" by (cases "rd n s")
  have t: "\<exists>bs. rem s = bs @ rem t"
    using x rd_ok [of n s _ t] rd_err [of n s _ t] by (cases x) auto
  have more: "\<exists>bs. rem s = bs @ rem s'" if "read_exact_fuel fuel rd m t = (y, s')" for m y
    using t Suc.IH [OF that] by (metis append.assoc)
  show ?case
    using Suc.prems x t more by (cases x) (auto split: if_splits prod.splits sum.splits)
qed simp

lemma read_exact_fuel_enough:
  "left s < fuel \<Longrightarrow> left s < fuel' \<Longrightarrow> read_exact_fuel fuel rd n s = read_exact_fuel fuel' rd n s"
proof (induction fuel arbitrary: fuel' n s)
  case (Suc fuel)
  then obtain k where k: "fuel' = Suc k" by (cases fuel') auto
  obtain r t where r: "rd n s = (r, t)" by (cases "rd n s")
  have "read_exact_fuel fuel rd m t = read_exact_fuel k rd m t" if "left t < left s" for m
    by (rule Suc.IH) (use that Suc.prems k in auto)
  then show ?case
    using r k rd_err [of n s _ t] rd_progress [of n s _ t]
    by (auto split: sum.splits)
qed simp

lemma read_exact_fuel_healthy:
  "healthy s \<Longrightarrow> left s < fuel \<Longrightarrow> n \<le> length (rem s) \<Longrightarrow>
   \<exists>bs s'. read_exact_fuel fuel rd n s = (Inr bs, s') \<and> healthy s'"
proof (induction fuel arbitrary: n s)
  case (Suc fuel)
  obtain r t where r: "rd n s = (r, t)" by (cases "rd n s")
  show ?case
  proof (cases "n = 0")
    case False
    show ?thesis
    proof (cases r)
      case (Inl e)
      with r Suc.prems rd_healthy_err [of s n e t] rd_err [of n s e t] Suc.IH [of t n] False
      show ?thesis by auto
    next
      case (Inr bs)
      with r have rd: "rd n s = (Inr bs, t)" by simp
      have ne: "bs \<noteq> []" using rd_healthy [OF Suc.prems(1) rd] Suc.prems(3) False by auto
      have t: "healthy t" "left t < fuel" "n - length bs \<le> length (rem t)"
        using rd_healthy [OF Suc.prems(1) rd] rd_progress [OF rd ne] rd_ok [OF rd] Suc.prems
        by auto
      from Suc.IH [OF t] rd False ne show ?thesis by auto
    qed
  qed (use Suc in auto)
qed simp

lemma read_exact_fuel_eof:
  "healthy s \<Longrightarrow> left s < fuel \<Longrightarrow> length (rem s) < n \<Longrightarrow>
   \<exists>s'. read_exact_fuel fuel rd n s = (Inl eof_error, s')"
proof (induction fuel arbitrary: n s)
  case (Suc fuel)
  obtain r t where r: "rd n s = (r, t)" by (cases "rd n s")
  show ?case
  proof (cases r)
    case (Inl e)
    with r Suc.prems rd_healthy_err [of s n e t] rd_err [of n s e t] Suc.IH [of t n]
    show ?thesis by auto
  next
    case (Inr bs)
    with r have rd: "rd n s = (Inr bs, t)" by simp
    show ?thesis
    proof (cases "bs = []")
      case False
      have t: "healthy t" "left t < fuel" "length (rem t) < n - length bs"
        using rd_healthy [OF Suc.prems(1) rd] rd_progress [OF rd False] rd_ok [OF rd] Suc.prems
        by auto
      from Suc.IH [OF t] rd False Suc.prems show ?thesis by auto
    qed (use rd Suc.prems in auto)
  qed
qed simp

end

sublocale raw_reader \<subseteq> reader "\<lambda>n s. read_exact_fuel (Suc (left s)) rd n s" rem healthy
  by unfold_locales
    (auto dest: read_exact_fuel_ok intro: read_exact_fuel_healthy read_exact_fuel_eof
      simp del: read_exact_fuel.simps)

section \<open>The two readers of the program\<close>

definition sock_left :: "sock \<Rightarrow> nat" where
  "sock_left s = length (incoming s) + length (events s)"

definition sock_healthy :: "sock \<Rightarrow> bool" where
  "sock_healthy s \<longleftrightarrow> (\<forall>e. Fail e \<in> set (events s) \<longrightarrow> e = EINTR)"

definition sock_read_exact :: "nat \<Rightarrow> (sock, bytes) op" where
  "sock_read_exact n s = read_exact_fuel (Suc (sock_left s)) sock_read n s"

lemma sock_read_Inr:
  "sock_read n s = (Inr bs, s') \<Longrightarrow>
   incoming s = bs @ incoming s' \<and> length bs \<le> n \<and> length (events s') \<le> length (events s) \<and>
   set (events s') \<subseteq> set (events s) \<and> (bs = [] \<longrightarrow> n = 0 \<or> incoming s = [])"
  by (auto simp: sock_read_def Let_def split: list.splits sock_event.splits)

lemma sock_read_Inl:
  "sock_read n s = (Inl e, s') \<Longrightarrow>
   incoming s' = incoming s \<and> length (events s') < length (events s) \<and>
   set (events s') \<subseteq> set (events s) \<and> (\<exists>x. e = OsError x \<and> Fail x \<in> set (events s))"
  by (auto simp: sock_read_def Let_def split: list.splits sock_event.splits)

interpretation sock: raw_reader sock_read incoming sock_healthy sock_left
  rewrites "(\<lambda>n s. read_exact_fuel (Suc (sock_left s)) sock_read n s) = sock_read_exact"
proof -
  show "raw_reader sock_read incoming sock_healthy sock_left"
  proof
    fix n s bs s' assume r: "sock_read n s = (Inr bs, s')"
    note c = sock_read_Inr [OF r]
    show "incoming s = bs @ incoming s' \<and> length bs \<le> n" using c by blast
    show "bs \<noteq> [] \<Longrightarrow> sock_left s' < sock_left s"
      using c by (cases bs) (auto simp: sock_left_def)
    show "sock_healthy s \<Longrightarrow> sock_healthy s' \<and> (bs = [] \<longrightarrow> n = 0 \<or> incoming s = [])"
      using c by (auto simp: sock_healthy_def)
  next
    fix n s e s' assume r: "sock_read n s = (Inl e, s')"
    note c = sock_read_Inl [OF r]
    show "incoming s' = incoming s \<and> sock_left s' < sock_left s"
      using c by (auto simp: sock_left_def)
    show "sock_healthy s \<Longrightarrow> sock_healthy s' \<and> err_kind e = Interrupted"
      using c by (auto simp: sock_healthy_def)
  qed
qed (simp add: sock_read_exact_def fun_eq_iff)

definition staged_left :: "staged \<Rightarrow> nat" where
  "staged_left s = length (staged_rem s) + length (events (s_stream s))"

definition staged_healthy :: "staged \<Rightarrow> bool" where
  "staged_healthy s \<longleftrightarrow> staged_inv s \<and> sock_healthy (s_stream s)"

definition staged_read_exact :: "nat \<Rightarrow> (staged, bytes) op" where
  "staged_read_exact n s = read_exact_fuel (Suc (staged_left s)) staged_read n s"

text \<open>Copying out of the stage.\<close>

lemma staged_copy_ok:
  assumes "staged_copy len s = (r, s')"
  shows "\<exists>bs. r = Inr bs \<and> staged_rem s = bs @ staged_rem s' \<and> length bs \<le> len
    \<and> s_stream s' = s_stream s \<and> (staged_inv s \<longrightarrow> staged_inv s')
    \<and> (staged_inv s \<longrightarrow> bs = [] \<longrightarrow> len = 0 \<or> s_off s = s_end s)"
proof -
  let ?n = "min len (s_end s - s_off s)"
  let ?st = "drop (s_off s) (s_stage s)"
  have r: "r = Inr (take ?n ?st)" and s': "s' = s\<lparr>s_off := s_off s + ?n\<rparr>"
    using assms by (auto simp: staged_copy_def Let_def)
  have "take (s_end s - s_off s) ?st = take ?n ?st @ take (s_end s - s_off s - ?n) (drop ?n ?st)"
    by (rule take_split) simp
  then have "staged_rem s = take ?n ?st @ staged_rem s'"
    by (simp add: staged_rem_def s' drop_drop add.commute)
  then show ?thesis
    using r s' by (auto simp: staged_inv_def)
qed

text \<open>Refilling an empty stage.\<close>

definition staged_filled :: "staged \<Rightarrow> sock \<Rightarrow> bytes \<Rightarrow> staged" where
  "staged_filled s k bs =
     s\<lparr>s_stream := k, s_stage := bs @ drop (length bs) (s_stage s), s_off := 0, s_end := length bs\<rparr>"

lemma staged_filled_rem [simp]: "staged_rem (staged_filled s k bs) = bs @ incoming k"
  by (simp add: staged_rem_def staged_filled_def)

lemma staged_filled_simps [simp]:
  "s_stream (staged_filled s k bs) = k" "s_off (staged_filled s k bs) = 0"
  "s_end (staged_filled s k bs) = length bs"
  by (simp_all add: staged_filled_def)

lemma staged_filled_inv:
  "staged_inv s \<Longrightarrow> length bs \<le> length (s_stage s) \<Longrightarrow> staged_inv (staged_filled s k bs)"
  by (simp add: staged_inv_def staged_filled_def)

lemma staged_rem_empty: "s_off s = s_end s \<Longrightarrow> staged_rem s = incoming (s_stream s)"
  by (simp add: staged_rem_def)

text \<open>The three ways a staged read goes: from the stage, straight from the socket, by a refill.\<close>

lemma staged_read_cases:
  assumes "staged_read len s = (r, s')"
  obtains (stage) "s_off s \<noteq> s_end s" "staged_copy len s = (r, s')"
  | (direct) k where "s_off s = s_end s" "STAGE_CAP \<le> len" "sock_read len (s_stream s) = (r, k)"
      "s' = s\<lparr>s_stream := k\<rparr>"
  | (refill) k bs where "s_off s = s_end s" "len < STAGE_CAP"
      "sock_read (length (s_stage s)) (s_stream s) = (Inr bs, k)"
      "staged_copy len (staged_filled s k bs) = (r, s')"
  | (fails) k e where "s_off s = s_end s" "len < STAGE_CAP"
      "sock_read (length (s_stage s)) (s_stream s) = (Inl e, k)" "r = Inl e"
      "s' = s\<lparr>s_stream := k\<rparr>"
  using assms
  by (auto simp: staged_read_def staged_filled_def not_le split: if_splits prod.splits sum.splits)

lemma staged_read_Inr:
  assumes "staged_read len s = (Inr bs, s')"
  shows "staged_rem s = bs @ staged_rem s' \<and> length bs \<le> len
    \<and> length (events (s_stream s')) \<le> length (events (s_stream s))
    \<and> (staged_healthy s \<longrightarrow> staged_healthy s' \<and> (bs = [] \<longrightarrow> len = 0 \<or> staged_rem s = []))"
  using assms
proof (cases rule: staged_read_cases)
  case stage
  from staged_copy_ok [OF stage(2)] stage(1) show ?thesis
    by (auto simp: staged_healthy_def)
next
  case (direct k)
  from sock_read_Inr [OF direct(3)] direct show ?thesis
    by (auto simp: staged_healthy_def sock_healthy_def staged_inv_def staged_rem_def)
next
  case (refill k cs)
  from sock_read_Inr [OF refill(3)]
  have k: "incoming (s_stream s) = cs @ incoming k" "length cs \<le> length (s_stage s)"
      "length (events k) \<le> length (events (s_stream s))"
      "set (events k) \<subseteq> set (events (s_stream s))"
      "cs = [] \<longrightarrow> length (s_stage s) = 0 \<or> incoming (s_stream s) = []"
    by blast+
  from staged_copy_ok [OF refill(4)] have c: "cs @ incoming k = bs @ staged_rem s'"
      "length bs \<le> len" "s_stream s' = k"
      "staged_inv (staged_filled s k cs) \<longrightarrow> staged_inv s' \<and> (bs = [] \<longrightarrow> len = 0 \<or> cs = [])"
    by auto
  show ?thesis
    using k c staged_rem_empty [OF refill(1)] staged_filled_inv [of s cs k]
    by (auto simp: staged_healthy_def sock_healthy_def staged_inv_def STAGE_CAP_def)
qed simp

lemma staged_read_Inl:
  assumes "staged_read len s = (Inl e, s')"
  shows "staged_rem s' = staged_rem s
    \<and> length (events (s_stream s')) < length (events (s_stream s))
    \<and> (staged_healthy s \<longrightarrow> staged_healthy s' \<and> err_kind e = Interrupted)"
  using assms
proof (cases rule: staged_read_cases)
  case stage
  from staged_copy_ok [OF stage(2)] show ?thesis by auto
next
  case (direct k)
  from sock_read_Inl [OF direct(3)] direct show ?thesis
    by (auto simp: staged_healthy_def sock_healthy_def staged_inv_def staged_rem_def)
next
  case (refill k cs)
  from staged_copy_ok [OF refill(4)] show ?thesis by auto
next
  case (fails k e')
  from sock_read_Inl [OF fails(3)] fails show ?thesis
    by (auto simp: staged_healthy_def sock_healthy_def staged_inv_def staged_rem_def)
qed

interpretation staged: raw_reader staged_read staged_rem staged_healthy staged_left
  rewrites "(\<lambda>n s. read_exact_fuel (Suc (staged_left s)) staged_read n s) = staged_read_exact"
proof -
  show "raw_reader staged_read staged_rem staged_healthy staged_left"
  proof
    fix n s bs s' assume r: "staged_read n s = (Inr bs, s')"
    note c = staged_read_Inr [OF r]
    show "staged_rem s = bs @ staged_rem s' \<and> length bs \<le> n" using c by blast
    show "bs \<noteq> [] \<Longrightarrow> staged_left s' < staged_left s"
      using c by (cases bs) (auto simp: staged_left_def)
    show "staged_healthy s \<Longrightarrow> staged_healthy s' \<and> (bs = [] \<longrightarrow> n = 0 \<or> staged_rem s = [])"
      using c by blast
  next
    fix n s e s' assume r: "staged_read n s = (Inl e, s')"
    note c = staged_read_Inl [OF r]
    show "staged_rem s' = staged_rem s \<and> staged_left s' < staged_left s"
      using c by (auto simp: staged_left_def)
    show "staged_healthy s \<Longrightarrow> staged_healthy s' \<and> err_kind e = Interrupted"
      using c by blast
  qed
qed (simp add: staged_read_exact_def fun_eq_iff)

lemma staged_new_rem [simp]: "staged_rem (staged_new k) = incoming k"
  by (simp add: staged_rem_def staged_new_def)

lemma staged_new_healthy: "sock_healthy k \<Longrightarrow> staged_healthy (staged_new k)"
  by (simp add: staged_healthy_def staged_inv_def staged_new_def)

end
