(* ===== verification/Net.thy ===== *)
theory Net
  imports Writer Staged
begin

text \<open>
  The network thread of the receiver (\<open>src/recv.rs\<close>): \<open>read_entries\<close> and what it calls. It
  is a sequential program over the staged socket, the kernel, the progress counters and
  the channels to the threads behind it. What it sends is logged in \<open>n_sent\<close>. What it gets
  back is left to the other side: \<open>n_pool\<close> are the buffers the pool will hand out, whatever
  their old contents, each with whether the thread had to wait for it, and the end of the
  list is the pool closing; \<open>n_room\<close> is after how many channel operations the thread
  behind turns out to be gone, if ever. A theorem for all of these is a theorem for every
  scheduling and every death of the other threads.
\<close>

section \<open>State\<close>

record stats =
  st_files :: u64
  st_bytes :: u64
  st_skipped_files :: u64
  st_skipped_bytes :: u64

definition stats_default :: stats where
  "stats_default = \<lparr>st_files = 0, st_bytes = 0, st_skipped_files = 0, st_skipped_bytes = 0\<rparr>"

record 'w net =
  n_sh :: "'w shared"
  n_in :: staged
  n_prog :: progress
  n_sent :: "msg list"
  n_pool :: "(bool \<times> bytes) list"
  n_room :: "nat option"

definition net_sh :: "('w shared, 'a) op \<Rightarrow> ('w net, 'a) op" where
  "net_sh = zoom n_sh (\<lambda>x s. s\<lparr>n_sh := x\<rparr>)"

definition net_os :: "('w os, 'a) op \<Rightarrow> ('w net, 'a) op" where
  "net_os m = net_sh (on_os m)"

definition net_in :: "(staged, 'a) op \<Rightarrow> ('w net, 'a) op" where
  "net_in = zoom n_in (\<lambda>x s. s\<lparr>n_in := x\<rparr>)"

definition net_prog :: "(progress \<Rightarrow> progress) \<Rightarrow> ('w net, unit) op" where
  "net_prog f s = (Inr (), s\<lparr>n_prog := f (n_prog s)\<rparr>)"

definition net_diag :: "(diag \<Rightarrow> diag) \<Rightarrow> ('w net, unit) op" where
  "net_diag f = net_sh (with_diag f)"

section \<open>Channels\<close>

definition writer_gone :: io_error where
  "writer_gone = IoError Other WriterStopped"

text \<open>Is the thread behind still there?\<close>

definition tick :: "('w net, bool) op" where
  "tick s =
     (case n_room s of
        None \<Rightarrow> (Inr True, s)
      | Some 0 \<Rightarrow> (Inr False, s)
      | Some (Suc n) \<Rightarrow> (Inr True, s\<lparr>n_room := Some n\<rparr>))"

text \<open>A message that cannot be sent is dropped, and with it a file in flight it carries.\<close>

definition send_msg :: "'w kernel \<Rightarrow> msg \<Rightarrow> ('w net, unit) op" where
  "send_msg k m =
     io_bind tick (\<lambda>alive.
     if alive then (\<lambda>s. (Inr (), s\<lparr>n_sent := n_sent s @ [m]\<rparr>))
     else io_bind (net_sh (drop_msgs k [m])) (\<lambda>_. io_throw writer_gone))"

definition pooled_recv :: "('w net, bytes) op" where
  "pooled_recv s =
     (case n_pool s of
        [] \<Rightarrow> (Inl writer_gone, snd (net_diag (\<lambda>d. d\<lparr>d_pool_stalls := d_pool_stalls d + 1\<rparr>) s))
      | (stalled, buf) # pool \<Rightarrow>
          io_bind
            (if stalled then net_diag (\<lambda>d. d\<lparr>d_pool_stalls := d_pool_stalls d + 1\<rparr>) else io_return ())
            (\<lambda>_. io_return buf) (s\<lparr>n_pool := pool\<rparr>))"

text \<open>The reply to a \<open>Finish\<close>: what the hash stage answers to the messages it was sent.\<close>

definition recv_reply :: "'h blake3 \<Rightarrow> ('w net, bytes) op" where
  "recv_reply B =
     io_bind tick (\<lambda>alive.
     if alive then (\<lambda>s. (Inr (last (snd (hash_loop B (b3_new B) (n_sent s)))), s))
     else io_throw writer_gone)"

section \<open>Digests\<close>

definition check_digest :: "bytes \<Rightarrow> bytes \<Rightarrow> ('w net, unit) op" where
  "check_digest actual path =
     io_bind (net_in (staged_read_exact DIGEST_LEN)) (\<lambda>expected.
     io_bind (net_diag (\<lambda>d. d\<lparr>d_socket_bytes := d_socket_bytes d + word_of_nat DIGEST_LEN\<rparr>)) (\<lambda>_.
     if actual = expected then io_return ()
     else io_throw (IoError InvalidData (VerificationFailed path))))"

section \<open>File payloads\<close>

text \<open>The read that retries when interrupted; each retry uses up an event of the socket.\<close>

fun read_retry_fuel :: "nat \<Rightarrow> nat \<Rightarrow> (staged, bytes) op" where
  "read_retry_fuel 0 want s = (Inl eof_error, s)"
| "read_retry_fuel (Suc fuel) want s =
     (case staged_read want s of
        (Inr bs, t) \<Rightarrow> (Inr bs, t)
      | (Inl err, t) \<Rightarrow> if err_kind err = Interrupted then read_retry_fuel fuel want t else (Inl err, t))"

definition read_retry :: "nat \<Rightarrow> (staged, bytes) op" where
  "read_retry want s = read_retry_fuel (Suc (length (events (s_stream s)))) want s"

text \<open>
  The loop over the payload. Each turn takes a buffer from the pool, so the length of the
  pool list bounds the turns; when it is used up, so is the pool.
\<close>

fun pump_loop :: "nat \<Rightarrow> 'w kernel \<Rightarrow> entry \<Rightarrow> u64 \<Rightarrow> ('w net, unit) op" where
  "pump_loop turns k e remaining =
     (if remaining = 0 then io_return ()
      else
        io_bind pooled_recv (\<lambda>buf.
        case turns of
          0 \<Rightarrow> io_throw writer_gone
        | Suc turns' \<Rightarrow>
            io_bind (net_in (read_retry (min (unat remaining) (length buf)))) (\<lambda>bs.
            if bs = [] then
              io_throw (IoError UnexpectedEof (Truncated (e_path e) (e_size e) (e_size e - remaining)))
            else
              let n = length bs in
              io_bind (net_diag (\<lambda>d. queued (d\<lparr>d_socket_bytes := d_socket_bytes d + word_of_nat n\<rparr>))) (\<lambda>_.
              io_bind (send_msg k (Data (bs @ drop n buf) n)) (\<lambda>_.
              io_bind (net_prog (add_bytes (word_of_nat n))) (\<lambda>_.
              pump_loop turns' k e (remaining - word_of_nat n)))))))"

declare pump_loop.simps [simp del]

text \<open>The scratch file, or the real name when the scratch name is too long for the file system.\<close>

definition create_payload_file ::
  "'w kernel \<Rightarrow> fd \<Rightarrow> bytes \<Rightarrow> u32 \<Rightarrow> ('w os, fd \<times> bytes \<times> bytes option) op" where
  "create_payload_file k dir name mode s =
     (case create_temp_file_at k dir name mode s of
        (Inr (f, temp), t) \<Rightarrow> (Inr (f, temp, Some name), t)
      | (Inl err, t) \<Rightarrow>
          if raw_os_error err = Some ENAMETOOLONG
          then io_bind (create_file_at k dir name mode) (\<lambda>f. io_return (f, name, None)) t
          else (Inl err, t))"

definition pump_file ::
  "'h blake3 \<Rightarrow> 'w kernel \<Rightarrow> fd \<Rightarrow> bytes \<Rightarrow> entry \<Rightarrow> bool \<Rightarrow> ('w net, unit) op" where
  "pump_file B k dir name e verify =
     io_bind (net_os (create_payload_file k dir name (e_mode e OR 0x180))) (\<lambda>(file, name', final).
     io_bind (if NOCACHE_MIN \<le> e_size e then io_ignore (net_os (set_nocache k file)) else io_return ()) (\<lambda>_.
     io_bind (send_msg k (Begin \<lparr>if_file = file, if_parent = dir, if_name = name', if_final = final,
                if_mtime = e_mtime e, if_mode = e_mode e, if_finished = False\<rparr>)) (\<lambda>_.
     io_bind (\<lambda>s. pump_loop (length (n_pool s)) k e (e_size e) s) (\<lambda>_.
     io_bind (if verify
              then io_bind (send_msg k Finish) (\<lambda>_. io_bind (recv_reply B) (\<lambda>actual.
                     check_digest actual (e_path e)))
              else io_return ()) (\<lambda>_.
     send_msg k EndFile)))))"

section \<open>The parent cache\<close>

record parent_cache =
  pc_components :: "bytes list"
  pc_dir :: "fd option"

definition parent_cache_default :: parent_cache where
  "parent_cache_default = \<lparr>pc_components = [], pc_dir = None\<rparr>"

definition parent_get ::
  "parent_cache \<Rightarrow> bytes list \<Rightarrow> ('s, fd) op \<Rightarrow> ('s, fd \<times> parent_cache) op" where
  "parent_get cache parents open_it =
     (case pc_dir cache of
        Some d \<Rightarrow>
          if pc_components cache = parents then io_return (d, cache)
          else io_bind open_it (\<lambda>d. io_return (d, \<lparr>pc_components = parents, pc_dir = Some d\<rparr>))
      | None \<Rightarrow> io_bind open_it (\<lambda>d. io_return (d, \<lparr>pc_components = parents, pc_dir = Some d\<rparr>)))"

section \<open>Entries\<close>

definition recv_dir :: "'w kernel \<Rightarrow> fd \<Rightarrow> bytes \<Rightarrow> entry \<Rightarrow> ('w net, u64) op" where
  "recv_dir k dir name e =
     io_bind (net_os (mkdir_at k dir name (e_mode e OR 0x1C0))) (\<lambda>_.
     io_bind (io_ignore (net_os (set_mtime_at k dir name (e_mtime e)))) (\<lambda>_.
     io_bind (net_sh (register_parent k dir)) (\<lambda>_.
     io_bind (net_diag (\<lambda>d. d\<lparr>d_dirs := d_dirs d + 1\<rparr>)) (\<lambda>_.
     io_return 0))))"

definition recv_symlink ::
  "'h blake3 \<Rightarrow> 'w kernel \<Rightarrow> fd \<Rightarrow> bytes \<Rightarrow> entry \<Rightarrow> bool \<Rightarrow> ('w net, u64) op" where
  "recv_symlink B k dir name e verify =
     io_bind (net_in (staged_read_exact (unat (e_size e)))) (\<lambda>target.
     io_bind (if verify then check_digest (digest B target) (e_path e) else io_return ()) (\<lambda>_.
     if \<not> utf8_valid target then io_throw (IoError InvalidData LinkNotUtf8)
     else
       io_bind (io_ignore (net_os (unlink_at k dir name))) (\<lambda>_.
       io_bind (net_os (symlink_at k target dir name)) (\<lambda>_.
       io_bind (io_ignore (net_os (set_mtime_at k dir name (e_mtime e)))) (\<lambda>_.
       io_bind (net_sh (register_parent k dir)) (\<lambda>_.
       io_bind (net_diag (\<lambda>d. d\<lparr>d_symlinks := d_symlinks d + 1,
                                d_socket_bytes := d_socket_bytes d + e_size e\<rparr>)) (\<lambda>_.
       io_return (e_size e))))))))"

definition recv_file ::
  "'h blake3 \<Rightarrow> 'w kernel \<Rightarrow> fd \<Rightarrow> bytes \<Rightarrow> entry \<Rightarrow> bool \<Rightarrow> ('w net, u64) op" where
  "recv_file B k dir name e verify =
     io_bind (pump_file B k dir name e verify) (\<lambda>_.
     io_bind (net_diag (\<lambda>d. d\<lparr>d_files := d_files d + 1\<rparr>)) (\<lambda>_.
     io_return (e_size e)))"

definition recv_entry ::
  "'h blake3 \<Rightarrow> 'w kernel \<Rightarrow> fd \<Rightarrow> bool \<Rightarrow> parent_cache \<Rightarrow> entry \<Rightarrow> ('w net, parent_cache \<times> u64) op" where
  "recv_entry B k root verify cache e =
     (case sanitize (e_path e) of
        Inl _ \<Rightarrow> io_throw (IoError InvalidData (RefusedPath (e_path e)))
      | Inr components \<Rightarrow>
          let name = last components; parents = butlast components in
          io_bind (net_os (parent_get cache parents (walk_dirs k root parents))) (\<lambda>(dir, cache').
          io_bind (net_prog (set_current (e_path e))) (\<lambda>_.
          io_bind (case e_kind e of
                     Dir \<Rightarrow> recv_dir k dir name e
                   | Symlink \<Rightarrow> recv_symlink B k dir name e verify
                   | File \<Rightarrow> recv_file B k dir name e verify
                   | End \<Rightarrow> io_return 0) (\<lambda>moved.
          io_bind (net_prog finish_file) (\<lambda>_.
          io_return (cache', moved))))))"

text \<open>Every entry takes a byte at least, so fuel above the bytes left is never used up.\<close>

fun entries_loop ::
  "nat \<Rightarrow> 'h blake3 \<Rightarrow> 'w kernel \<Rightarrow> fd \<Rightarrow> bool \<Rightarrow> parent_cache \<Rightarrow> stats \<Rightarrow> ('w net, stats) op" where
  "entries_loop 0 B k root verify cache st = io_throw eof_error"
| "entries_loop (Suc fuel) B k root verify cache st =
     io_bind (net_in (entry_decode staged_read_exact)) (\<lambda>oe.
     case oe of
       None \<Rightarrow> io_return st
     | Some e \<Rightarrow>
         io_bind (recv_entry B k root verify cache e) (\<lambda>(cache', moved).
         entries_loop fuel B k root verify cache'
           (st\<lparr>st_files := st_files st + 1, st_bytes := st_bytes st + moved\<rparr>)))"

definition read_entries ::
  "'h blake3 \<Rightarrow> 'w kernel \<Rightarrow> bytes \<Rightarrow> bool \<Rightarrow> ('w net, stats) op" where
  "read_entries B k dest verify =
     io_bind (net_os (open_dir k dest)) (\<lambda>root.
     io_bind (net_sh (register_parent k root)) (\<lambda>_.
     (\<lambda>s. entries_loop (Suc (length (staged_rem (n_in s)))) B k root verify
            parent_cache_default stats_default s)))"

end
