(* ===== verification/WriterSafe.thy ===== *)
theory WriterSafe
  imports Writer
begin

text \<open>
  The writer stays confined too: given authority over the files it is handed, which the
  network thread has when it hands them over, every system call of \<open>write_loop\<close> is on such
  a file or renames or removes a good name in its own directory; and the registry holds
  only directories reached the same way, so the final flush is confined as well.
\<close>

definition authorised :: "fd set \<Rightarrow> fd set \<Rightarrow> 'w os \<Rightarrow> inflight \<Rightarrow> bool" where
  "authorised D F s f \<longleftrightarrow>
     if_file f \<in> has_files F s \<and> if_parent f \<in> has_dirs D s \<and> good_component (if_name f) \<and>
     (\<forall>n. if_final f = Some n \<longrightarrow> good_component n) \<and> \<not> if_finished f"

lemma authorised_stays: "stays dest D F s s' \<Longrightarrow> authorised D F s f \<Longrightarrow> authorised D F s' f"
  by (auto simp: authorised_def dest: stays_dir stays_file)

section \<open>The registry\<close>

definition regs_ok :: "fd set \<Rightarrow> 'w shared \<Rightarrow> bool" where
  "regs_ok D s \<longleftrightarrow> (\<forall>g. sh_regs s = Some g \<longrightarrow> set (reg_dirs g) \<subseteq> has_dirs D (sh_os s))"

definition sh_stays :: "bytes \<Rightarrow> fd set \<Rightarrow> fd set \<Rightarrow> 'w shared \<Rightarrow> 'w shared \<Rightarrow> bool" where
  "sh_stays dest D F s s' \<longleftrightarrow>
     stays dest D F (sh_os s) (sh_os s') \<and> (regs_ok D s \<longrightarrow> regs_ok D s')"

interpretation sh_stays: effect "sh_stays dest D F" for dest D F
  by unfold_locales (auto simp: sh_stays_def intro: stays.refl stays.trans)

lemma sh_stays_os: "sh_stays dest D F s s' \<Longrightarrow> stays dest D F (sh_os s) (sh_os s')"
  by (simp add: sh_stays_def)

lemma sh_staysI:
  "stays dest D F (sh_os s) (sh_os s') \<Longrightarrow> sh_regs s' = sh_regs s \<Longrightarrow> sh_stays dest D F s s'"
  using stays_mono by (fastforce simp: sh_stays_def regs_ok_def)

lemma sh_stays_same: "sh_os s' = sh_os s \<Longrightarrow> sh_regs s' = sh_regs s \<Longrightarrow> sh_stays dest D F s s'"
  by (simp add: sh_staysI stays.refl)

lemma on_os_stays:
  assumes "spec (stays dest D F) (\<lambda>t. \<exists>s. P s \<and> t = sh_os s) m Q"
  shows "spec (sh_stays dest D F) P (on_os m) (\<lambda>_ _. True)"
proof (rule specI)
  fix s r s' assume p: "P s" and e: "on_os m s = (r, s')"
  from on_os_state [OF e] obtain o' where o: "m (sh_os s) = (r, o')" "s' = s\<lparr>sh_os := o'\<rparr>" by blast
  from specD [OF assms _ o(1)] p have "stays dest D F (sh_os s) o'" by blast
  with o show "sh_stays dest D F s s' \<and> (\<forall>v. r = Inr v \<longrightarrow> True)" by (simp add: sh_staysI)
qed

lemma sh_keeps:
  assumes "spec (sh_stays dest D F) (\<lambda>s. authorised D F (sh_os s) f) m (\<lambda>_ _. True)"
  shows "spec (sh_stays dest D F) (\<lambda>s. authorised D F (sh_os s) f) m (\<lambda>_ s. authorised D F (sh_os s) f)"
  by (rule spec_weaken [OF sh_stays.spec_stable [OF assms, where P' = "\<lambda>s. authorised D F (sh_os s) f"]])
    (auto dest: authorised_stays [OF sh_stays_os])

lemma register_stays:
  "(\<And>s. P s \<Longrightarrow> d \<in> has_dirs D s) \<Longrightarrow> spec (stays dest D F) P (register k d g) (\<lambda>_ _. True)"
  unfolding register_def
  by (rule stays.spec_bind [OF fd_identity_stays stays.spec_return]) auto

lemma register_parent_sh:
  assumes "register_parent k d s = (r, s')" and "d \<in> has_dirs D (sh_os s)"
  shows "sh_stays dest D F s s'"
proof (cases "sh_regs s")
  case (Some g)
  obtain x t where x: "on_os (register k d g) s = (x, t)" by (cases "on_os (register k d g) s")
  from on_os_state [OF x] obtain o' where o: "register k d g (sh_os s) = (x, o')" "sh_os t = o'" by auto
  from specD [OF register_stays [of "\<lambda>s. d \<in> has_dirs D s"] assms(2) o(1)]
  have st: "stays dest D F (sh_os s) (sh_os t)" using o by simp
  show ?thesis
  proof (cases x)
    case (Inl e)
    with assms(1) x Some have "s' = t" by (simp add: register_parent_def)
    with st on_os_state [OF x] show ?thesis by (auto intro: sh_staysI)
  next
    case (Inr g')
    with assms(1) x Some have s': "s' = t\<lparr>sh_regs := Some g'\<rparr>" by (simp add: register_parent_def)
    from o(1) Inr have "set (reg_dirs g') \<subseteq> insert d (set (reg_dirs g))"
      by (auto simp: register_def io_bind_Inr reg_insert_def split: if_splits)
    with st assms(2) s' Some show ?thesis
      using stays_mono [OF st] by (auto simp: sh_stays_def regs_ok_def)
  qed
qed (use assms in \<open>simp add: register_parent_def sh_stays.refl\<close>)

lemma drop_inflight_stays:
  assumes "authorised D F (sh_os s) f" and "drop_inflight k f s = (r, s')"
  shows "sh_stays dest D F s s'"
proof -
  obtain x o' where x: "unlink_at k (if_parent f) (if_name f) (sh_os s) = (x, o')"
    by (cases "unlink_at k (if_parent f) (if_name f) (sh_os s)")
  have "stays dest D F (sh_os s) o'"
    by (rule specD [OF unlink_at_stays [of "\<lambda>s. if_parent f \<in> has_dirs D s"] _ x])
      (use assms(1) in \<open>auto simp: authorised_def\<close>)
  with x assms(2) show ?thesis
    by (auto simp: drop_inflight_def io_ignore_def on_os_def zoom_def sh_stays.refl split: if_splits
        intro!: sh_staysI)
qed

lemma drop_begin_stays:
  assumes "\<And>f. m = Begin f \<Longrightarrow> authorised D F (sh_os s) f" and "drop_msgs k [m] s = (r, s')"
  shows "sh_stays dest D F s s'"
proof (cases m)
  case (Begin f)
  obtain x t where x: "drop_inflight k f s = (x, t)" by (cases "drop_inflight k f s")
  with assms(2) Begin have "s' = t" by (cases x) (auto simp: io_bind_def)
  with drop_inflight_stays [OF assms(1) [OF Begin] x] show ?thesis by simp
qed (use assms(2) sh_stays.refl in auto)


lemma drop_inflight_spec:
  "(\<And>s. P s \<Longrightarrow> authorised D F (sh_os s) f) \<Longrightarrow>
   spec (sh_stays dest D F) P (drop_inflight k f) (\<lambda>_ _. True)"
  by (rule specI) (auto intro: drop_inflight_stays)

lemma register_parent_spec:
  "(\<And>s. P s \<Longrightarrow> d \<in> has_dirs D (sh_os s)) \<Longrightarrow>
   spec (sh_stays dest D F) P (register_parent k d) (\<lambda>_ _. True)"
  by (rule specI) (auto intro: register_parent_sh)

section \<open>The writer\<close>

text \<open>The files that are still to be dealt with.\<close>

definition all_auth :: "fd set \<Rightarrow> fd set \<Rightarrow> inflight list \<Rightarrow> 'w shared \<Rightarrow> bool" where
  "all_auth D F fs s \<longleftrightarrow> (\<forall>f \<in> set fs. authorised D F (sh_os s) f)"

lemma all_auth_stays: "sh_stays dest D F s s' \<Longrightarrow> all_auth D F fs s \<Longrightarrow> all_auth D F fs s'"
  by (auto simp: all_auth_def dest: authorised_stays [OF sh_stays_os])

lemma all_auth_simps [simp]:
  "all_auth D F [] s" "all_auth D F (f # fs) s \<longleftrightarrow> authorised D F (sh_os s) f \<and> all_auth D F fs s"
  "all_auth D F (fs @ gs) s \<longleftrightarrow> all_auth D F fs s \<and> all_auth D F gs s"
  by (auto simp: all_auth_def)

text \<open>Sequencing while all of them stay authorised.\<close>

lemma auth_bind:
  assumes "spec (sh_stays dest D F) (all_auth D F fs) m (\<lambda>_ _. True)"
    and "\<And>v. spec (sh_stays dest D F) (all_auth D F fs) (f v) (\<lambda>_ _. True)"
  shows "spec (sh_stays dest D F) (all_auth D F fs) (io_bind m f) (\<lambda>_ _. True)"
proof (rule sh_stays.spec_bind)
  show "spec (sh_stays dest D F) (all_auth D F fs) m (\<lambda>_ s. all_auth D F fs s \<and> True)"
    by (rule sh_stays.spec_stable [OF assms(1)]) (rule all_auth_stays)
  show "spec (sh_stays dest D F) (\<lambda>s. all_auth D F fs s \<and> True) (f v) (\<lambda>_ _. True)" for v
    using assms(2) by simp
qed

lemma auth_weaken:
  "spec (sh_stays dest D F) (all_auth D F fs) m (\<lambda>_ _. True) \<Longrightarrow> set fs \<subseteq> set gs \<Longrightarrow>
   spec (sh_stays dest D F) (all_auth D F gs) m (\<lambda>_ _. True)"
  by (erule spec_weaken) (auto simp: all_auth_def)

lemma quiet_spec:
  "(\<And>s. sh_os (snd (m s)) = sh_os s \<and> sh_regs (snd (m s)) = sh_regs s) \<Longrightarrow>
   spec (sh_stays dest D F) P m (\<lambda>_ _. True)"
  by (rule specI) (metis sh_stays_same snd_conv)

lemma drop_msgs_stays:
  "spec (sh_stays dest D F) (all_auth D F (begun ms)) (drop_msgs k ms) (\<lambda>_ _. True)"
proof (induction k ms rule: drop_msgs.induct)
  case (2 k f ms)
  show ?case
    unfolding drop_msgs.simps begun.simps
    by (intro auth_bind drop_inflight_spec auth_weaken [OF 2]) auto
qed (unfold drop_msgs.simps begun.simps, auto intro: sh_stays.spec_return simp del: io_return_simp)

lemma abandon_stays:
  "spec (sh_stays dest D F) (all_auth D F (f # begun ms)) (abandon k f ms err) (\<lambda>_ _. True)"
  unfolding abandon_def
  by (intro auth_bind drop_inflight_spec auth_weaken [OF drop_msgs_stays] sh_stays.spec_throw) auto

lemma complete_stays:
  fixes k :: "'w kernel"
  shows "spec (sh_stays dest D F) (all_auth D F [f]) (complete k durable f) (\<lambda>_ _. True)"
proof -
  have ig: "spec (sh_stays dest D F) (all_auth D F [f]) (io_ignore (on_os m)) (\<lambda>_ _. True)"
    if "spec (stays dest D F) (\<lambda>t. \<exists>s. all_auth D F [f] s \<and> t = sh_os s) m (\<lambda>_ _. True)" for m :: "('w os, unit) op"
    by (rule sh_stays.spec_ignore [OF on_os_stays [OF that]]) simp
  have pub: "spec (sh_stays dest D F) (all_auth D F [f]) (case if_final f of
       None \<Rightarrow> io_return ()
     | Some final \<Rightarrow>
         io_bind (on_os (rename_at k (if_parent f) (if_name f) final)) (\<lambda>_.
         register_parent k (if_parent f))) (\<lambda>_ _. True)"
  proof (cases "if_final f")
    case None
    then show ?thesis by (auto intro: sh_stays.spec_return simp del: io_return_simp)
  next
    case (Some n)
    have "spec (sh_stays dest D F) (all_auth D F [f])
        (io_bind (on_os (rename_at k (if_parent f) (if_name f) n)) (\<lambda>_. register_parent k (if_parent f)))
        (\<lambda>_ _. True)"
    proof (cases "good_component n")
      case True
      show ?thesis
      proof (rule spec_pre)
        fix s :: "'w shared" assume "all_auth D F [f] s"
        then have g: "good_component (if_name f)" by (simp add: authorised_def)
        have "spec (sh_stays dest D F) (all_auth D F [f])
            (io_bind (on_os (rename_at k (if_parent f) (if_name f) n)) (\<lambda>_. register_parent k (if_parent f)))
            (\<lambda>_ _. True)"
          by (intro auth_bind on_os_stays [OF rename_at_stays] register_parent_spec)
            (use g True in \<open>auto simp: authorised_def\<close>)
        then show "spec (sh_stays dest D F) ((=) s)
            (io_bind (on_os (rename_at k (if_parent f) (if_name f) n)) (\<lambda>_. register_parent k (if_parent f)))
            (\<lambda>_ _. True)"
          using \<open>all_auth D F [f] s\<close> by (elim spec_weaken) auto
      qed
    next
      case False
      then show ?thesis using Some by (auto simp: spec_def authorised_def)
    qed
    with Some show ?thesis by simp
  qed
  show ?thesis
    unfolding complete_def
  proof (intro auth_bind pub)
    show "spec (sh_stays dest D F) (all_auth D F [f]) (if if_mode f AND 0x180 \<noteq> 0x180
              then io_ignore (on_os (set_mode_fd k (if_file f) (if_mode f)))
              else io_return ()) (\<lambda>_ _. True)"
      by (intro spec_if ig set_mode_fd_stays sh_stays.spec_return) (auto simp: authorised_def)
    show "spec (sh_stays dest D F) (all_auth D F [f])
        (io_ignore (on_os (set_mtime_fd k (if_file f) (if_mtime f)))) (\<lambda>_ _. True)"
      by (intro ig set_mtime_fd_stays) (auto simp: authorised_def)
    show "spec (sh_stays dest D F) (all_auth D F [f])
        (if durable then on_os (full_fsync k (if_file f)) else io_return ()) (\<lambda>_ _. True)"
      by (intro spec_if on_os_stays [OF full_fsync_stays] sh_stays.spec_return) (auto simp: authorised_def)
  qed
qed

lemma drop_current_stays:
  "spec (sh_stays dest D F) (all_auth D F (case cur of None \<Rightarrow> [] | Some f \<Rightarrow> [f]))
    (drop_current k cur) (\<lambda>_ _. True)"
  unfolding drop_current_def
  by (cases cur) (auto intro: drop_inflight_spec sh_stays.spec_return simp del: io_return_simp)

lemma file_write_stays:
  "spec (sh_stays dest D F) (all_auth D F [f]) (on_os (file_write_all k (if_file f) bs)) (\<lambda>_ _. True)"
  by (rule on_os_stays [OF file_write_all_stays]) (auto simp: authorised_def)

text \<open>A step whose error is handled: the loop's two places that abandon the file.\<close>

lemma spec_handle:
  assumes m: "spec (sh_stays dest D F) (all_auth D F fs) m (\<lambda>_ _. True)"
    and h: "\<And>e. spec (sh_stays dest D F) (all_auth D F fs) (h e) (\<lambda>_ _. True)"
    and g: "\<And>v. spec (sh_stays dest D F) (all_auth D F fs) (g v) (\<lambda>_ _. True)"
  shows "spec (sh_stays dest D F) (all_auth D F fs)
    (\<lambda>s. case m s of (Inl e, t) \<Rightarrow> h e t | (Inr v, t) \<Rightarrow> g v t) (\<lambda>_ _. True)"
proof (rule specI)
  fix s r s' assume p: "all_auth D F fs s"
    and e: "(case m s of (Inl e, t) \<Rightarrow> h e t | (Inr v, t) \<Rightarrow> g v t) = (r, s')"
  obtain x t where x: "m s = (x, t)" by (cases "m s")
  from specD [OF m p x] have st: "sh_stays dest D F s t" .
  with p have pt: "all_auth D F fs t" by (rule all_auth_stays [rotated])
  have "sh_stays dest D F t s'"
    using x e specD [OF h pt] specD [OF g pt] by (cases x) auto
  with st show "sh_stays dest D F s s' \<and> (\<forall>v. r = Inr v \<longrightarrow> True)" using sh_stays.trans by blast
qed

lemma write_loop_stays:
  "spec (sh_stays dest D F) (all_auth D F (pending cur ms)) (write_loop k durable cur ms) (\<lambda>_ _. True)"
proof (induction ms arbitrary: cur)
  case Nil
  show ?case
    unfolding write_loop.simps
    by (intro auth_bind auth_weaken [OF drop_current_stays] sh_stays.spec_return)
      (auto simp: pending_def)
next
  case (Cons m ms)
  show ?case
  proof (cases m)
    case (Begin f)
    show ?thesis
      unfolding Begin write_loop.simps
      by (intro auth_bind auth_weaken [OF drop_current_stays] auth_weaken [OF Cons])
        (auto simp: pending_def)
  next
    case (Data buf len)
    have d: "spec (sh_stays dest D F) P (with_diag g) (\<lambda>_ _. True)" for P g
      by (rule quiet_spec) (simp add: with_diag_def)
    show ?thesis
    proof (cases cur)
      case None
      show ?thesis
        unfolding Data None write_loop.simps option.case
        by (intro auth_bind d auth_weaken [OF Cons]) (auto simp: pending_def)
    next
      case (Some f)
      show ?thesis
        unfolding Data Some write_loop.simps option.case
        by (intro auth_bind d spec_handle auth_weaken [OF file_write_stays [of dest D F f]]
            auth_weaken [OF abandon_stays] auth_weaken [OF Cons]) (auto simp: pending_def)
    qed
  next
    case EndFile
    show ?thesis
    proof (cases cur)
      case None
      show ?thesis
        unfolding EndFile None write_loop.simps option.case
        by (intro auth_weaken [OF Cons]) (auto simp: pending_def)
    next
      case (Some f)
      have mk: "spec (sh_stays dest D F) P (mark_finished f) (\<lambda>_ _. True)" for P
        by (rule quiet_spec) (simp add: mark_finished_def)
      have dr: "spec (sh_stays dest D F) P (drop_inflight k (f\<lparr>if_finished := True\<rparr>)) (\<lambda>_ _. True)" for P
        by (rule quiet_spec) (simp add: drop_inflight_def)
      show ?thesis
        unfolding EndFile Some write_loop.simps option.case
        by (intro spec_handle auth_bind mk dr auth_weaken [OF complete_stays [of dest D F f]]
            auth_weaken [OF abandon_stays] auth_weaken [OF Cons]) (auto simp: pending_def)
    qed
  next
    case Finish
    show ?thesis
      unfolding Finish write_loop.simps
      by (intro auth_weaken [OF Cons]) (auto simp: pending_def split: option.splits)
  qed
qed

section \<open>The final flush\<close>

lemma flush_dirs_stays:
  "set ds \<subseteq> X \<Longrightarrow> spec (stays dest D F) (\<lambda>s. X \<subseteq> has_dirs D s) (flush_dirs k ds) (\<lambda>_ _. True)"
proof (induction ds)
  case Nil
  show ?case unfolding flush_dirs.simps by (rule stays.spec_return) simp
next
  case (Cons d ds)
  have f: "spec (stays dest D F) (\<lambda>s. X \<subseteq> has_dirs D s) (full_fsync k d) (\<lambda>_ _. True)"
    by (rule full_fsync_stays) (use Cons.prems in auto)
  have "spec (stays dest D F) (\<lambda>s. X \<subseteq> has_dirs D s) (full_fsync k d) (\<lambda>_ s. X \<subseteq> has_dirs D s)"
    by (rule spec_weaken [OF stays.spec_stable [OF f, where P' = "\<lambda>s. X \<subseteq> has_dirs D s"]])
      (auto dest: stays_dir)
  then show ?case unfolding flush_dirs.simps by (rule stays.spec_bind) (use Cons in simp)
qed

end
