(* ===== verification/NetSafe.thy ===== *)
theory NetSafe
  imports Net WriterSafe
begin

text \<open>
  Escape prevention for the whole network thread: whatever the sender puts on the wire,
  whatever the kernel replies and whatever other processes do to the tree, every system
  call of \<open>read_entries\<close> is confined, and every file it hands to the writer is one it
  created itself, under a good name in a directory it reached without following a link.
\<close>

abbreviation os_of :: "'w net \<Rightarrow> 'w os" where
  "os_of s \<equiv> sh_os (n_sh s)"

definition net_stays :: "bytes \<Rightarrow> fd set \<Rightarrow> fd set \<Rightarrow> 'w net \<Rightarrow> 'w net \<Rightarrow> bool" where
  "net_stays dest D F s s' \<longleftrightarrow>
     sh_stays dest D F (n_sh s) (n_sh s') \<and>
     ((\<forall>f \<in> set (begun (n_sent s)). authorised D F (os_of s) f) \<longrightarrow>
      (\<forall>f \<in> set (begun (n_sent s')). authorised D F (os_of s') f))"

interpretation net_stays: effect "net_stays dest D F" for dest D F
  by unfold_locales (auto simp: net_stays_def intro: sh_stays.refl sh_stays.trans)

lemma net_staysI:
  assumes "sh_stays dest D F (n_sh s) (n_sh s')" and "n_sent s' = n_sent s"
  shows "net_stays dest D F s s'"
  using assms authorised_stays [OF sh_stays_os [OF assms(1)]] by (simp add: net_stays_def)

lemma net_stays_os: "net_stays dest D F s s' \<Longrightarrow> stays dest D F (os_of s) (os_of s')"
  unfolding net_stays_def by (rule sh_stays_os) simp

lemma net_stays_authorised:
  "net_stays dest D F s s' \<Longrightarrow> authorised D F (os_of s) f \<Longrightarrow> authorised D F (os_of s') f"
  using authorised_stays [OF net_stays_os] .

lemma begun_append [simp]: "begun (xs @ ys) = begun xs @ begun ys"
  by (induction xs rule: begun.induct) auto

lemma net_os_state:
  "net_os m s = (r, s') \<Longrightarrow> \<exists>o'. m (os_of s) = (r, o') \<and> s' = s\<lparr>n_sh := (n_sh s)\<lparr>sh_os := o'\<rparr>\<rparr>"
  by (auto simp: net_os_def net_sh_def on_os_def zoom_eq)

lemma net_os_stays:
  assumes "spec (stays dest D F) P m Q"
  shows "spec (net_stays dest D F) (\<lambda>s. P (os_of s)) (net_os m) (\<lambda>v s. Q v (os_of s))"
proof (rule specI)
  fix s r s' assume p: "P (os_of s)" and e: "net_os m s = (r, s')"
  from net_os_state [OF e] obtain o' where o: "m (os_of s) = (r, o')"
      "s' = s\<lparr>n_sh := (n_sh s)\<lparr>sh_os := o'\<rparr>\<rparr>" by blast
  with specD [OF assms p o(1)] have "net_stays dest D F s s'"
    by (intro net_staysI) (auto simp: sh_staysI)
  with o specE [OF assms p] show "net_stays dest D F s s' \<and> (\<forall>v. r = Inr v \<longrightarrow> Q v (os_of s'))"
    by auto
qed

lemma net_os_stays':
  assumes "spec (stays dest D F) (\<lambda>t. \<exists>s. P s \<and> t = os_of s) m Q"
  shows "spec (net_stays dest D F) P (net_os m) (\<lambda>v s. Q v (os_of s))"
  by (rule spec_weaken [OF net_os_stays [OF assms]]) auto

text \<open>Operations that touch neither the kernel nor the messages.\<close>

definition n_sh_core :: "'w net \<Rightarrow> 'w os \<times> registry option" where
  "n_sh_core s = (os_of s, sh_regs (n_sh s))"

definition inert :: "('w net, 'a) op \<Rightarrow> bool" where
  "inert m \<longleftrightarrow> (\<forall>s r s'. m s = (r, s') \<longrightarrow> n_sh_core s' = n_sh_core s \<and> n_sent s' = n_sent s)"

lemma inert_stays: "inert m \<Longrightarrow> spec (net_stays dest D F) P m (\<lambda>_ _. True)"
  unfolding inert_def
  by (rule specI) (simp add: net_staysI sh_stays_same n_sh_core_def)

lemma inert_simps [simp]:
  "inert (net_in m)" "inert (net_prog f)" "inert (net_diag g)"
  by (auto simp: inert_def net_in_def zoom_def net_prog_def net_diag_def net_sh_def with_diag_def
      n_sh_core_def split: prod.splits)

lemma inert_tick [simp]: "inert tick"
  unfolding inert_def
proof (intro allI impI)
  fix s :: "'a net" and r s'
  assume "tick s = (r, s')"
  then show "n_sh_core s' = n_sh_core s \<and> n_sent s' = n_sent s"
    unfolding tick_def n_sh_core_def by (cases "n_room s"; cases "the (n_room s)") auto
qed

lemma inert_return [simp]: "inert (io_return v)" and inert_throw [simp]: "inert (io_throw e)"
  by (auto simp: inert_def)

lemma inert_bind: "inert m \<Longrightarrow> (\<And>v. inert (f v)) \<Longrightarrow> inert (io_bind m f)"
  unfolding inert_def by (auto simp: io_bind_def split: prod.splits sum.splits)

lemma inert_pooled [simp]: "inert pooled_recv"
proof -
  have "inert (if b then net_diag g else io_return ())" for b and g by simp
  then show ?thesis
    unfolding inert_def pooled_recv_def
    by (auto simp: net_diag_def net_sh_def zoom_def with_diag_def io_bind_def n_sh_core_def
        split: list.splits prod.splits sum.splits if_splits)
qed

lemma inert_reply [simp]: "inert (recv_reply B)"
  unfolding recv_reply_def
  by (rule inert_bind [OF inert_tick]) (auto simp: inert_def)

lemma inert_check [simp]: "inert (check_digest a p)"
  unfolding check_digest_def by (intro inert_bind) auto

text \<open>Keeping a directory through an operation.\<close>

lemma net_keeps_dir:
  assumes "\<And>s. P s \<Longrightarrow> d \<in> has_dirs D (os_of s)" and "spec (net_stays dest D F) P m Q"
  shows "spec (net_stays dest D F) P m (\<lambda>v s. d \<in> has_dirs D (os_of s) \<and> Q v s)"
  by (rule net_stays.spec_stable [OF assms(2)])
    (use assms(1) in \<open>auto dest!: net_stays_os dest: stays_dir\<close>)

lemma net_keeps_file:
  assumes "\<And>s. P s \<Longrightarrow> f \<in> has_files F (os_of s)" and "spec (net_stays dest D F) P m Q"
  shows "spec (net_stays dest D F) P m (\<lambda>v s. f \<in> has_files F (os_of s) \<and> Q v s)"
  by (rule net_stays.spec_stable [OF assms(2)])
    (use assms(1) in \<open>auto dest!: net_stays_os dest: stays_file\<close>)

lemma net_register_parent_stays:
  "(\<And>s. P s \<Longrightarrow> d \<in> has_dirs D (os_of s)) \<Longrightarrow>
   spec (net_stays dest D F) P (net_sh (register_parent k d)) (\<lambda>_ _. True)"
proof (rule specI)
  fix s r s' assume d: "\<And>s. P s \<Longrightarrow> d \<in> has_dirs D (os_of s)" and p: "P s"
    and e: "net_sh (register_parent k d) s = (r, s')"
  then obtain x where x: "register_parent k d (n_sh s) = (r, x)" "s' = s\<lparr>n_sh := x\<rparr>"
    by (auto simp: net_sh_def zoom_eq)
  from register_parent_sh [OF x(1) d [OF p]] x(2)
  show "net_stays dest D F s s' \<and> (\<forall>v. r = Inr v \<longrightarrow> True)" by (simp add: net_staysI)
qed

section \<open>Sending\<close>

lemma send_msg_stays:
  assumes "\<And>s f. P s \<Longrightarrow> m = Begin f \<Longrightarrow> authorised D F (os_of s) f"
  shows "spec (net_stays dest D F) P (send_msg k m) (\<lambda>_ _. True)"
proof -
  let ?P = "\<lambda>s. \<forall>f. m = Begin f \<longrightarrow> authorised D F (os_of s) f"
  have t: "spec (net_stays dest D F) P tick (\<lambda>_ s. ?P s)"
    by (rule spec_weaken [OF net_stays.spec_stable [OF inert_stays [OF inert_tick, of dest D F P],
          where P' = ?P]])
      (use assms net_stays_authorised in blast)+
  have s: "spec (net_stays dest D F) ?P (\<lambda>s. (Inr (), s\<lparr>n_sent := n_sent s @ [m]\<rparr>)) (\<lambda>_ _. True)"
    by (rule specI) (cases m; auto simp: net_stays_def sh_stays.refl)
  have d: "spec (net_stays dest D F) ?P (net_sh (drop_msgs k [m])) (\<lambda>_ _. True)"
  proof (rule specI)
    fix s r s' assume p: "?P s" and e: "net_sh (drop_msgs k [m]) s = (r, s')"
    then obtain x where x: "drop_msgs k [m] (n_sh s) = (r, x)" "s' = s\<lparr>n_sh := x\<rparr>"
      by (auto simp: net_sh_def zoom_eq)
    have "sh_stays dest D F (n_sh s) x" by (rule drop_begin_stays [OF _ x(1)]) (use p in blast)
    with x(2) show "net_stays dest D F s s' \<and> (\<forall>v. r = Inr v \<longrightarrow> True)" by (simp add: net_staysI)
  qed
  show ?thesis
    unfolding send_msg_def
    by (rule net_stays.spec_bind [OF t])
      (intro spec_if s net_stays.spec_bind [OF d net_stays.spec_throw])
qed

lemma pump_loop_stays: "spec (net_stays dest D F) P (pump_loop turns k e remaining) (\<lambda>_ _. True)"
proof (induction turns arbitrary: P remaining)
  case 0
  show ?case
    unfolding pump_loop.simps [of 0]
    by (intro spec_if net_stays.spec_return net_stays.spec_bind [OF inert_stays])
      (auto intro: net_stays.spec_throw simp del: io_throw_simp)
next
  case (Suc turns)
  show ?case
    unfolding pump_loop.simps [of "Suc turns"] nat.case Let_def
    by (intro spec_if net_stays.spec_return net_stays.spec_throw net_stays.spec_bind [OF inert_stays]
        net_stays.spec_bind [OF send_msg_stays] Suc) auto
qed

section \<open>Files, links and directories\<close>

lemma create_payload_file_stays:
  assumes g: "good_component n"
  shows "spec (stays dest D F) (\<lambda>s. d \<in> has_dirs D s) (create_payload_file k d n mode)
    (\<lambda>(f, name, final) s. f \<in> has_files F s \<and> good_component name \<and> (\<forall>m. final = Some m \<longrightarrow> good_component m))"
proof (rule specI)
  let ?D = "\<lambda>s. d \<in> has_dirs D s"
  fix s r s' assume p: "?D s" and e: "create_payload_file k d n mode s = (r, s')"
  obtain x t where x: "create_temp_file_at k d n mode s = (x, t)"
    by (cases "create_temp_file_at k d n mode s")
  note temp = create_temp_file_at_stays [where P = ?D and d = d and D = D and F = F and dest = dest, OF _ g]
  from specD [OF temp p x] have st: "stays dest D F s t" by simp
  show "stays dest D F s s' \<and> (\<forall>v. r = Inr v \<longrightarrow> (case v of (f, name, final) \<Rightarrow> \<lambda>s. f \<in> has_files F s \<and>
      good_component name \<and> (\<forall>m. final = Some m \<longrightarrow> good_component m)) s')"
  proof (cases x)
    case (Inr ft)
    obtain f tmp where ft: "ft = (f, tmp)" by (cases ft)
    from specE [OF temp p x [unfolded Inr]] x Inr e st ft g show ?thesis
      by (auto simp: create_payload_file_def)
  next
    case (Inl err)
    show ?thesis
    proof (cases "raw_os_error err = Some ENAMETOOLONG")
      case True
      have "spec (stays dest D F) ?D (io_bind (create_file_at k d n mode) (\<lambda>f. io_return (f, n, None)))
          (\<lambda>(f, name, final) s. f \<in> has_files F s \<and> good_component name \<and> (\<forall>m. final = Some m \<longrightarrow> good_component m))"
        by (rule stays.spec_bind [OF create_file_at_stays stays.spec_return]) (use g in auto)
      moreover have "?D t" using stays_dir [OF st p] .
      moreover have "io_bind (create_file_at k d n mode) (\<lambda>f. io_return (f, n, None)) t = (r, s')"
        using x Inl e True by (simp add: create_payload_file_def)
      ultimately show ?thesis using stays.trans [OF st] unfolding spec_def by blast
    next
      case False
      with x Inl e st show ?thesis by (auto simp: create_payload_file_def)
    qed
  qed
qed

lemma true_stays:
  "spec (net_stays dest D F) P m (\<lambda>_ _. True) \<Longrightarrow> (\<And>v. spec (net_stays dest D F) (\<lambda>_. True) (f v) Q) \<Longrightarrow>
   spec (net_stays dest D F) P (io_bind m f) Q"
  by (rule net_stays.spec_bind)

text \<open>Sequencing while a directory is kept.\<close>

lemma dir_stays:
  assumes "spec (net_stays dest D F) (\<lambda>s. d \<in> has_dirs D (os_of s)) m (\<lambda>_ _. True)"
    and "\<And>v. spec (net_stays dest D F) (\<lambda>s. d \<in> has_dirs D (os_of s)) (f v) Q"
  shows "spec (net_stays dest D F) (\<lambda>s. d \<in> has_dirs D (os_of s)) (io_bind m f) Q"
  by (rule net_stays.spec_bind [OF net_keeps_dir [OF _ assms(1)]])
    (auto intro: spec_weaken [OF assms(2)])

lemma ignore_stays:
  "spec (net_stays dest D F) P m (\<lambda>_ _. True) \<Longrightarrow> spec (net_stays dest D F) P (io_ignore m) (\<lambda>_ _. True)"
  by (rule net_stays.spec_ignore) auto

lemma pump_file_stays:
  fixes k :: "'w kernel"
  assumes g: "good_component n"
  shows "spec (net_stays dest D F) (\<lambda>s. d \<in> has_dirs D (os_of s)) (pump_file B k d n e verify) (\<lambda>_ _. True)"
proof -
  let ?D = "\<lambda>s. d \<in> has_dirs D (os_of s)"
  let ?Q = "\<lambda>(f, name, final) s. f \<in> has_files F (os_of s) \<and> good_component name \<and> (\<forall>m. final = Some m \<longrightarrow> good_component m)"
  have c: "spec (net_stays dest D F) ?D (net_os (create_payload_file k d n mode)) (\<lambda>v s. ?D s \<and> ?Q v s)" for mode
    by (rule net_keeps_dir [OF _ spec_weaken [OF net_os_stays [OF create_payload_file_stays [OF g]]]]) auto
  have rest: "spec (net_stays dest D F) (\<lambda>_. True)
      (io_bind (\<lambda>s. pump_loop (length (n_pool s)) k e (e_size e) s) (\<lambda>_.
       io_bind (if verify
              then io_bind (send_msg k Finish) (\<lambda>_. io_bind (recv_reply B) (\<lambda>actual.
                     check_digest actual (e_path e)))
              else io_return ()) (\<lambda>_.
       send_msg k EndFile))) (\<lambda>_ _. True)"
  proof (rule true_stays)
    show "spec (net_stays dest D F) (\<lambda>_. True) (\<lambda>s. pump_loop (length (n_pool s)) k e (e_size e) s) (\<lambda>_ _. True)"
      by (rule specI) (use specD [OF pump_loop_stays [of dest D F "\<lambda>_. True"]] in auto)
    show "spec (net_stays dest D F) (\<lambda>_. True) (io_bind (if verify
              then io_bind (send_msg k Finish) (\<lambda>_. io_bind (recv_reply B) (\<lambda>actual.
                     check_digest actual (e_path e)))
              else io_return ()) (\<lambda>_. send_msg k EndFile)) (\<lambda>_ _. True)"
      by (intro true_stays spec_if send_msg_stays inert_stays net_stays.spec_return) auto
  qed
  show ?thesis
    unfolding pump_file_def
  proof (rule net_stays.spec_bind [OF c])
    fix v :: "fd \<times> bytes \<times> bytes option"
    obtain fl nm final where v: "v = (fl, nm, final)" by (cases v)
    let ?P = "\<lambda>s. ?D s \<and> ?Q (fl, nm, final) s"
    let ?open = "\<lparr>if_file = fl, if_parent = d, if_name = nm, if_final = final,
                if_mtime = e_mtime e, if_mode = e_mode e, if_finished = False\<rparr>"
    have nc: "spec (net_stays dest D F) ?P (if NOCACHE_MIN \<le> e_size e
        then io_ignore (net_os (set_nocache k fl)) else io_return ()) (\<lambda>_ s. ?P s)"
    proof (rule spec_weaken [OF net_keeps_dir [OF _ net_keeps_file], where P' = ?P])
      show "spec (net_stays dest D F) ?P (if NOCACHE_MIN \<le> e_size e
          then io_ignore (net_os (set_nocache k fl)) else io_return ())
          (\<lambda>_ s. good_component nm \<and> (\<forall>m. final = Some m \<longrightarrow> good_component m))"
      proof (rule spec_pre)
        fix s :: "'w net" assume p: "?P s"
        have "spec (net_stays dest D F) ((=) s) (io_ignore (net_os (set_nocache k fl))) (\<lambda>_ _. True)"
          by (rule ignore_stays, rule net_os_stays', rule set_nocache_stays) (use p in auto)
        moreover have "spec (net_stays dest D F) ((=) s) (io_return ()) (\<lambda>_ _. True)"
          by (rule net_stays.spec_return) simp
        ultimately show "spec (net_stays dest D F) ((=) s) (if NOCACHE_MIN \<le> e_size e
          then io_ignore (net_os (set_nocache k fl)) else io_return ())
          (\<lambda>_ s. good_component nm \<and> (\<forall>m. final = Some m \<longrightarrow> good_component m))"
          using p by (auto intro: spec_weaken)
      qed
    qed auto
    show "spec (net_stays dest D F) (\<lambda>s. ?D s \<and> ?Q v s)
      ((\<lambda>(file, name', final).
         io_bind (if NOCACHE_MIN \<le> e_size e then io_ignore (net_os (set_nocache k file)) else io_return ()) (\<lambda>_.
         io_bind (send_msg k (Begin \<lparr>if_file = file, if_parent = d, if_name = name', if_final = final,
                if_mtime = e_mtime e, if_mode = e_mode e, if_finished = False\<rparr>)) (\<lambda>_.
         io_bind (\<lambda>s. pump_loop (length (n_pool s)) k e (e_size e) s) (\<lambda>_.
         io_bind (if verify
              then io_bind (send_msg k Finish) (\<lambda>_. io_bind (recv_reply B) (\<lambda>actual.
                     check_digest actual (e_path e)))
              else io_return ()) (\<lambda>_.
         send_msg k EndFile))))) v) (\<lambda>_ _. True)"
      unfolding v split
      by (rule net_stays.spec_bind [OF nc [unfolded split] true_stays [OF send_msg_stays rest]])
        (auto simp: authorised_def)
  qed
qed

lemma recv_dir_stays:
  "good_component n \<Longrightarrow>
   spec (net_stays dest D F) (\<lambda>s. d \<in> has_dirs D (os_of s)) (recv_dir k d n e) (\<lambda>_ _. True)"
  unfolding recv_dir_def
  by (intro dir_stays ignore_stays net_os_stays' mkdir_at_stays set_mtime_at_stays
      net_register_parent_stays inert_stays) auto

lemma recv_symlink_stays:
  "good_component n \<Longrightarrow>
   spec (net_stays dest D F) (\<lambda>s. d \<in> has_dirs D (os_of s)) (recv_symlink B k d n e verify) (\<lambda>_ _. True)"
  unfolding recv_symlink_def
  by (intro dir_stays spec_if ignore_stays net_os_stays' unlink_at_stays symlink_at_stays set_mtime_at_stays
      net_register_parent_stays inert_stays) auto

lemma recv_file_stays:
  "good_component n \<Longrightarrow>
   spec (net_stays dest D F) (\<lambda>s. d \<in> has_dirs D (os_of s)) (recv_file B k d n e verify) (\<lambda>_ _. True)"
  unfolding recv_file_def
  by (intro dir_stays pump_file_stays inert_stays) auto

section \<open>The entry loop\<close>

text \<open>The descriptors the loop holds between entries: the root, and the cached parent.\<close>

definition cache_ok :: "fd set \<Rightarrow> parent_cache \<Rightarrow> 'w net \<Rightarrow> bool" where
  "cache_ok D cache s \<longleftrightarrow> (\<forall>d. pc_dir cache = Some d \<longrightarrow> d \<in> has_dirs D (os_of s))"

lemma parent_get_stays:
  assumes "\<forall>c \<in> set parents. good_component c"
  shows "spec (stays dest D F)
    (\<lambda>s. root \<in> has_dirs D s \<and> (\<forall>d. pc_dir cache = Some d \<longrightarrow> d \<in> has_dirs D s))
    (parent_get cache parents (walk_dirs k root parents))
    (\<lambda>(d, cache') s. d \<in> has_dirs D s \<and> pc_dir cache' = Some d)"
proof -
  have w: "spec (stays dest D F)
      (\<lambda>s. root \<in> has_dirs D s \<and> (\<forall>d. pc_dir cache = Some d \<longrightarrow> d \<in> has_dirs D s))
      (io_bind (walk_dirs k root parents) (\<lambda>d. io_return (d, \<lparr>pc_components = parents, pc_dir = Some d\<rparr>)))
      (\<lambda>(d, cache') s. d \<in> has_dirs D s \<and> pc_dir cache' = Some d)"
    by (rule stays.spec_bind [OF walk_dirs_stays stays.spec_return]) (use assms in auto)
  show ?thesis
  proof (cases "pc_dir cache")
    case None
    with w show ?thesis by (simp add: parent_get_def)
  next
    case (Some d)
    show ?thesis
    proof (cases "pc_components cache = parents")
      case True
      show ?thesis
        unfolding parent_get_def Some option.case if_P [OF True]
        by (rule stays.spec_return) (simp add: Some)
    next
      case False
      from w [unfolded Some] show ?thesis unfolding parent_get_def Some option.case if_not_P [OF False] .
    qed
  qed
qed

lemma recv_entry_stays:
  "spec (net_stays dest D F) (\<lambda>s. root \<in> has_dirs D (os_of s) \<and> cache_ok D cache s)
    (recv_entry B k root verify cache e) (\<lambda>(cache', _) s. cache_ok D cache' s)"
proof (cases "sanitize (e_path e)")
  case (Inl err)
  then show ?thesis by (simp add: recv_entry_def net_stays.spec_throw del: io_throw_simp)
next
  case (Inr cs)
  from sanitize_components [OF Inr] have cs: "cs \<noteq> []" "\<forall>c \<in> set cs. good_component c" by auto
  then have name: "good_component (last cs)" and parents: "\<forall>c \<in> set (butlast cs). good_component c"
    by (auto dest: in_set_butlastD)
  have get: "spec (net_stays dest D F) (\<lambda>s. root \<in> has_dirs D (os_of s) \<and> cache_ok D cache s)
      (net_os (parent_get cache (butlast cs) (walk_dirs k root (butlast cs))))
      (\<lambda>(d, cache') s. d \<in> has_dirs D (os_of s) \<and> pc_dir cache' = Some d)"
    by (rule spec_weaken [OF net_os_stays [OF parent_get_stays [OF parents]]]) (auto simp: cache_ok_def)
  have body: "spec (net_stays dest D F) (\<lambda>s. d \<in> has_dirs D (os_of s))
      (io_bind (net_prog (set_current (e_path e))) (\<lambda>_.
          io_bind (case e_kind e of
                     Dir \<Rightarrow> recv_dir k d (last cs) e
                   | Symlink \<Rightarrow> recv_symlink B k d (last cs) e verify
                   | File \<Rightarrow> recv_file B k d (last cs) e verify
                   | End \<Rightarrow> io_return 0) (\<lambda>moved.
          io_bind (net_prog finish_file) (\<lambda>_.
          io_return (cache', moved)))))
      (\<lambda>(c, _) s. d \<in> has_dirs D (os_of s) \<and> c = cache')" for d cache'
  proof (rule dir_stays [OF inert_stays], simp, rule dir_stays)
    show "spec (net_stays dest D F) (\<lambda>s. d \<in> has_dirs D (os_of s)) (case e_kind e of
                     Dir \<Rightarrow> recv_dir k d (last cs) e
                   | Symlink \<Rightarrow> recv_symlink B k d (last cs) e verify
                   | File \<Rightarrow> recv_file B k d (last cs) e verify
                   | End \<Rightarrow> io_return 0) (\<lambda>_ _. True)"
      by (cases "e_kind e")
        (auto intro: recv_dir_stays recv_symlink_stays recv_file_stays net_stays.spec_return name
          simp del: io_return_simp)
    show "spec (net_stays dest D F) (\<lambda>s. d \<in> has_dirs D (os_of s))
        (io_bind (net_prog finish_file) (\<lambda>_. io_return (cache', moved)))
        (\<lambda>(c, _) s. d \<in> has_dirs D (os_of s) \<and> c = cache')" for moved
      by (rule dir_stays [OF inert_stays net_stays.spec_return]) auto
  qed
  show ?thesis
    unfolding recv_entry_def Inr sum.case Let_def
  proof (rule net_stays.spec_bind [OF get])
    fix v :: "fd \<times> parent_cache"
    obtain d cache' where v: "v = (d, cache')" by (cases v)
    show "spec (net_stays dest D F) (\<lambda>s. (case v of (d, cache') \<Rightarrow> \<lambda>s. d \<in> has_dirs D (os_of s) \<and> pc_dir cache' = Some d) s)
      (case v of (d, cache') \<Rightarrow> io_bind (net_prog (set_current (e_path e))) (\<lambda>_.
          io_bind (case e_kind e of
                     End \<Rightarrow> io_return 0
                   | File \<Rightarrow> recv_file B k d (last cs) e verify
                   | Dir \<Rightarrow> recv_dir k d (last cs) e
                   | Symlink \<Rightarrow> recv_symlink B k d (last cs) e verify) (\<lambda>moved.
          io_bind (net_prog finish_file) (\<lambda>_.
          io_return (cache', moved))))) (\<lambda>(cache', _) s. cache_ok D cache' s)"
      unfolding v split
      by (rule spec_pre, rule spec_weaken [OF body [of d cache']]) (auto simp: cache_ok_def)
  qed
qed

lemma entries_loop_stays:
  fixes k :: "'w kernel"
  shows "spec (net_stays dest D F) (\<lambda>s. root \<in> has_dirs D (os_of s) \<and> cache_ok D cache s)
    (entries_loop fuel B k root verify cache st) (\<lambda>_ _. True)"
proof (induction fuel arbitrary: cache st)
  case 0
  show ?case unfolding entries_loop.simps by (rule net_stays.spec_throw)
next
  case (Suc fuel)
  let ?P = "\<lambda>cache s. root \<in> has_dirs D (os_of s) \<and> cache_ok D cache s"
  have dec: "spec (net_stays dest D F) (?P cache) (net_in (entry_decode staged_read_exact)) (\<lambda>_ s. ?P cache s)"
    by (rule spec_weaken [OF net_stays.spec_stable [OF inert_stays [where P = "?P cache"], where P' = "?P cache"]])
      (auto simp: cache_ok_def dest: net_stays_os stays_dir)
  show ?case
    unfolding entries_loop.simps
  proof (rule net_stays.spec_bind [OF dec])
    fix oe
    show "spec (net_stays dest D F) (?P cache) (case oe of None \<Rightarrow> io_return st
       | Some e \<Rightarrow> io_bind (recv_entry B k root verify cache e) (\<lambda>(cache', moved).
         entries_loop fuel B k root verify cache'
           (st\<lparr>st_files := st_files st + 1, st_bytes := st_bytes st + moved\<rparr>))) (\<lambda>_ _. True)"
    proof (cases oe)
      case None
      have "spec (net_stays dest D F) (?P cache) (io_return st) (\<lambda>_ _. True)"
        by (rule net_stays.spec_return) simp
      with None show ?thesis by (simp del: io_return_simp)
    next
      case (Some e)
      have r: "spec (net_stays dest D F) (?P cache) (recv_entry B k root verify cache e)
          (\<lambda>(cache', _) s. ?P cache' s)"
        by (rule spec_weaken [OF net_stays.spec_stable [OF recv_entry_stays, where P' = "\<lambda>s. root \<in> has_dirs D (os_of s)"]])
          (auto dest: net_stays_os stays_dir)
      have "spec (net_stays dest D F) (?P cache) (io_bind (recv_entry B k root verify cache e) (\<lambda>(cache', moved).
         entries_loop fuel B k root verify cache'
           (st\<lparr>st_files := st_files st + 1, st_bytes := st_bytes st + moved\<rparr>))) (\<lambda>_ _. True)"
      proof (rule net_stays.spec_bind [OF r])
        fix v :: "parent_cache \<times> u64"
        obtain cache' moved where v: "v = (cache', moved)" by (cases v)
        show "spec (net_stays dest D F) (\<lambda>s. (case v of (cache', _) \<Rightarrow> \<lambda>s. ?P cache' s) s)
          (case v of (cache', moved) \<Rightarrow> entries_loop fuel B k root verify cache'
           (st\<lparr>st_files := st_files st + 1, st_bytes := st_bytes st + moved\<rparr>)) (\<lambda>_ _. True)"
          unfolding v split by (rule Suc.IH)
      qed
      with Some show ?thesis by simp
    qed
  qed
qed

lemma read_entries_stays:
  "spec (net_stays dest D F) P (read_entries B k dest verify) (\<lambda>_ _. True)"
proof -
  have root: "spec (net_stays dest D F) P (net_os (open_dir k dest)) (\<lambda>root s. root \<in> has_dirs D (os_of s))"
    by (rule net_os_stays' [OF open_dir_stays])
  have loop: "spec (net_stays dest D F) (\<lambda>s. root \<in> has_dirs D (os_of s))
      (\<lambda>s. entries_loop (Suc (length (staged_rem (n_in s)))) B k root verify
            parent_cache_default stats_default s) (\<lambda>_ _. True)" for root
  proof (rule specI)
    fix s r s' assume "root \<in> has_dirs D (os_of s)"
      and e: "entries_loop (Suc (length (staged_rem (n_in s)))) B k root verify
            parent_cache_default stats_default s = (r, s')"
    then have "root \<in> has_dirs D (os_of s) \<and> cache_ok D parent_cache_default s"
      by (simp add: cache_ok_def parent_cache_default_def)
    from specD [OF entries_loop_stays this e]
    show "net_stays dest D F s s' \<and> (\<forall>v. r = Inr v \<longrightarrow> True)" by simp
  qed
  show ?thesis
    unfolding read_entries_def
    by (rule net_stays.spec_bind [OF root dir_stays [OF net_register_parent_stays loop]]) auto
qed

end
