(* ===== verification/Commit.thy ===== *)
theory Commit
  imports Writer
begin

text \<open>
  What the writer does to one file, call by call. A file's messages are its \<open>Begin\<close>, its
  buffers and its \<open>EndFile\<close>; the lemmas here describe the log of system calls that the
  loop adds while it handles them, for every kernel.
\<close>

definition succeeded :: "syscall \<times> reply \<Rightarrow> bool" where
  "succeeded e \<longleftrightarrow> (\<forall>x. snd e \<noteq> Failed x)"

definition calls :: "(syscall \<times> reply) list \<Rightarrow> syscall list" where
  "calls tr = map fst tr"

lemma calls_simps [simp]: "calls [] = []" "calls (e # es) = fst e # calls es" "calls (a @ b) = calls a @ calls b"
  by (simp_all add: calls_def)

lemma set_calls [simp]: "set (calls tr) = fst ` set tr"
  by (simp add: calls_def)

text \<open>The log is extended, by calls that satisfy \<open>P\<close>.\<close>

definition adds :: "(syscall \<times> reply \<Rightarrow> bool) \<Rightarrow> 'w os \<Rightarrow> 'w os \<Rightarrow> bool" where
  "adds P s s' \<longleftrightarrow> (\<exists>tr. trace s' = trace s @ tr \<and> (\<forall>e \<in> set tr. P e))"

interpretation adds: effect "adds P" for P
  by unfold_locales (auto simp: adds_def)

definition adds_sh :: "(syscall \<times> reply \<Rightarrow> bool) \<Rightarrow> 'w shared \<Rightarrow> 'w shared \<Rightarrow> bool" where
  "adds_sh P s s' \<longleftrightarrow> adds P (sh_os s) (sh_os s')"

interpretation adds_sh: effect "adds_sh P" for P
  by unfold_locales (auto simp: adds_sh_def intro: adds.refl adds.trans)

lemma call_adds: "(\<And>r. P (c, r)) \<Longrightarrow> spec (adds P) A (call k c) (\<lambda>_ _. True)"
  by (rule specI) (auto simp: call_def call_raw_def adds_def split: prod.splits reply.splits)

lemma call_unit_adds: "(\<And>r. P (c, r)) \<Longrightarrow> spec (adds P) A (call_unit k c) (\<lambda>_ _. True)"
  unfolding call_unit_def by (rule adds.spec_bind [OF call_adds adds.spec_return]) auto

lemma cstr_adds: "spec (adds P) A (cstr n) (\<lambda>m s. m = n)"
  unfolding cstr_def by (intro spec_if adds.spec_throw adds.spec_return) simp

lemma on_os_adds: "spec (adds P) (\<lambda>_. True) m Q \<Longrightarrow> spec (adds_sh P) A (on_os m) (\<lambda>_ _. True)"
  by (rule specI) (auto dest!: on_os_state specD simp: adds_sh_def)

abbreviation is_unlink :: "syscall \<times> reply \<Rightarrow> bool" where
  "is_unlink e \<equiv> \<exists>d n. fst e = UnlinkAt d n"

lemma unlink_at_adds: "spec (adds is_unlink) A (unlink_at k d n) (\<lambda>_ _. True)"
  unfolding unlink_at_def
  by (rule adds.spec_bind [OF cstr_adds]) (auto intro: call_unit_adds)

lemma drop_inflight_adds: "spec (adds_sh is_unlink) A (drop_inflight k f) (\<lambda>_ _. True)"
  unfolding drop_inflight_def
  by (intro spec_if adds_sh.spec_ignore [OF on_os_adds [OF unlink_at_adds]] adds_sh.spec_return) auto

lemma drop_msgs_adds: "spec (adds_sh is_unlink) (\<lambda>_. True) (drop_msgs k ms) (\<lambda>_ _. True)"
proof (induction k ms rule: drop_msgs.induct)
  case (2 k f ms)
  show ?case unfolding drop_msgs.simps by (rule adds_sh.spec_bind [OF drop_inflight_adds]) (rule 2)
qed (unfold drop_msgs.simps, auto intro: adds_sh.spec_return simp del: io_return_simp)

lemma abandon_adds: "spec (adds_sh is_unlink) A (abandon k f ms err) (\<lambda>_ _. False)"
  unfolding abandon_def
  by (rule adds_sh.spec_bind [OF drop_inflight_adds adds_sh.spec_bind [OF drop_msgs_adds adds_sh.spec_throw]])

lemma abandon_Inl:
  assumes "abandon k f ms err s = (r, s')"
  shows "\<exists>e. r = Inl e"
proof (cases r)
  case (Inr v)
  with assms have "abandon k f ms err s = (Inr v, s')" by simp
  from specE [OF abandon_adds [of "\<lambda>_. True"] _ this] show ?thesis by simp
qed simp

section \<open>The payload\<close>

fun data_msg :: "bytes \<times> nat \<Rightarrow> msg" where
  "data_msg (buf, len) = Data buf len"

fun live_part :: "bytes \<times> nat \<Rightarrow> bytes" where
  "live_part (buf, len) = take len buf"

text \<open>
  Either every buffer was written, in order and in full, and the loop goes on behind
  them; or a write failed and nothing but writes to this file and removals happened.
\<close>

lemma call_unit_log:
  "call_unit k c s = (r, s') \<Longrightarrow>
   \<exists>rep. trace s' = trace s @ [(c, rep)] \<and> (r = Inr () \<longleftrightarrow> succeeded (c, rep))"
  by (auto simp: call_unit_def call_def call_raw_def io_bind_def succeeded_def
      split: prod.splits reply.splits)

lemma write_data:
  assumes "write_loop k durable (Some f) (map data_msg bufs @ ms) s = (r, s')"
  shows "(\<exists>t w. write_loop k durable (Some f) ms t = (r, s') \<and>
        trace (sh_os t) = trace (sh_os s) @ w \<and> sh_regs t = sh_regs s \<and> sh_done t = sh_done s \<and>
        calls w = map (\<lambda>b. WriteAll (if_file f) (live_part b)) bufs \<and> (\<forall>e \<in> set w. succeeded e))
    \<or> ((\<exists>err. r = Inl err) \<and>
        adds_sh (\<lambda>e. is_unlink e \<or> (\<exists>bs. fst e = WriteAll (if_file f) bs)) s s')"
  using assms
proof (induction bufs arbitrary: s)
  case Nil
  then show ?case by auto
next
  case (Cons b bufs)
  let ?P = "\<lambda>e. is_unlink e \<or> (\<exists>bs. fst e = WriteAll (if_file f) bs)"
  let ?g = "\<lambda>d. d\<lparr>d_disk_bytes := d_disk_bytes d + word_of_nat (snd b)\<rparr>"
  obtain buf len where b: "b = (buf, len)" by (cases b)
  obtain t where t: "with_diag dequeued s = (Inr (), t)" "trace (sh_os t) = trace (sh_os s)"
      "sh_regs t = sh_regs s" "sh_done t = sh_done s"
    by (simp add: with_diag_def)
  obtain x u where x: "on_os (file_write_all k (if_file f) (take len buf)) t = (x, u)"
    by (cases "on_os (file_write_all k (if_file f) (take len buf)) t")
  from on_os_state [OF x] call_unit_log obtain rep where
    u: "trace (sh_os u) = trace (sh_os t) @ [(WriteAll (if_file f) (take len buf), rep)]"
      "sh_regs u = sh_regs t" "sh_done u = sh_done t"
      "x = Inr () \<longleftrightarrow> succeeded (WriteAll (if_file f) (take len buf), rep)"
    unfolding file_write_all_def by fastforce
  show ?case
  proof (cases x)
    case (Inl err)
    with Cons.prems t(1) x b have a: "abandon k f (map data_msg bufs @ ms) err u = (r, s')" by simp
    have "adds_sh ?P u s'"
      using specD [OF abandon_adds _ a, of "\<lambda>_. True"] by (auto simp: adds_sh_def adds_def)
    moreover have "adds_sh ?P s u" using u t by (simp add: adds_sh_def adds_def)
    moreover have "\<exists>err. r = Inl err"
      using a abandon_Inl by blast
    ultimately show ?thesis using adds_sh.trans by blast
  next
    case (Inr v)
    obtain w where w: "with_diag ?g u = (Inr (), w)" "trace (sh_os w) = trace (sh_os u)"
        "sh_regs w = sh_regs u" "sh_done w = sh_done u"
      by (simp add: with_diag_def)
    from Inr t x w(1) Cons.prems b
    have "write_loop k durable (Some f) (map data_msg bufs @ ms) w = (r, s')" by simp
    from Cons.IH [OF this] show ?thesis
    proof (elim disjE exE conjE)
      fix t' w'
      assume "write_loop k durable (Some f) ms t' = (r, s')"
        "trace (sh_os t') = trace (sh_os w) @ w'" "sh_regs t' = sh_regs w" "sh_done t' = sh_done w"
        "calls w' = map (\<lambda>b. WriteAll (if_file f) (live_part b)) bufs" "\<forall>e \<in> set w'. succeeded e"
      then show ?thesis
        using u t w Inr b
        by (intro disjI1 exI [of _ t'] exI [of _ "(WriteAll (if_file f) (take len buf), rep) # w'"]) auto
    next
      fix err assume "r = Inl err" "adds_sh ?P w s'"
      moreover have "adds_sh ?P s w" using u t w by (simp add: adds_sh_def adds_def)
      ultimately show ?thesis using adds_sh.trans by blast
    qed
  qed
qed

section \<open>The last steps\<close>

text \<open>A flush that reached the drive, or the strongest one the file system has.\<close>

definition flush_ok :: "bool \<Rightarrow> fd \<Rightarrow> (syscall \<times> reply) list \<Rightarrow> bool" where
  "flush_ok durable f y \<longleftrightarrow>
     (if durable
      then (\<exists>rep. y = [(FullFsync f, rep)] \<and> (\<forall>x. rep \<noteq> Failed x)) \<or>
           (\<exists>e rep. y = [(FullFsync f, Failed e), (Fsync f, rep)] \<and> (e = ENOTSUP \<or> e = EINVAL) \<and>
              (\<forall>x. rep \<noteq> Failed x))
      else y = [])"

lemma full_fsync_log:
  assumes "full_fsync k f s = (r, s')"
  shows "\<exists>y. trace s' = trace s @ y \<and> (\<forall>e \<in> set y. fst e = FullFsync f \<or> fst e = Fsync f) \<and>
    (r = Inr () \<longleftrightarrow> flush_ok True f y)"
proof -
  obtain x t where x: "call_unit k (FullFsync f) s = (x, t)" by (cases "call_unit k (FullFsync f) s")
  then obtain rep where t: "trace t = trace s @ [(FullFsync f, rep)]"
      "x = (case rep of Failed e \<Rightarrow> Inl (OsError e) | _ \<Rightarrow> Inr ())"
    by (auto simp: call_unit_def call_def call_raw_def io_bind_def split: prod.splits reply.splits)
  show ?thesis
  proof (cases "\<exists>e. rep = Failed e \<and> (e = ENOTSUP \<or> e = EINVAL)")
    case True
    then obtain e where e: "rep = Failed e" "e = ENOTSUP \<or> e = EINVAL" by blast
    then have "call_unit k (Fsync f) t = (r, s')"
      using assms x t(2) by (auto simp: full_fsync_def io_catch_def)
    from call_unit_log [OF this] obtain rep' where
      "trace s' = trace t @ [(Fsync f, rep')]" "r = Inr () \<longleftrightarrow> succeeded (Fsync f, rep')"
      by blast
    with t e show ?thesis
      by (intro exI [of _ "[(FullFsync f, rep), (Fsync f, rep')]"])
        (auto simp: flush_ok_def succeeded_def)
  next
    case False
    then have "s' = t \<and> (r = Inr () \<longleftrightarrow> (\<forall>e. rep \<noteq> Failed e))"
      using assms x t(2) by (cases rep) (auto simp: full_fsync_def io_catch_def)
    with t show ?thesis
      by (intro exI [of _ "[(FullFsync f, rep)]"]) (auto simp: flush_ok_def)
  qed
qed

definition mode_calls :: "inflight \<Rightarrow> syscall list" where
  "mode_calls f =
     (if if_mode f AND 0x180 \<noteq> 0x180 then [Fchmod (if_file f) (ucast (if_mode f AND 0x1FF))] else [])"

text \<open>What follows the flush: the rename, and the parent's registration.\<close>

definition publish_log :: "inflight \<Rightarrow> (syscall \<times> reply) list \<Rightarrow> bool \<Rightarrow> bool" where
  "publish_log f p ok \<longleftrightarrow>
     (case if_final f of
        None \<Rightarrow> p = [] \<and> ok
      | Some n \<Rightarrow> \<exists>rep g. p = (RenameAt (if_parent f) (if_name f) (if_parent f) n, rep) # g \<and>
          set (calls g) \<subseteq> {Fstat (if_parent f)} \<and>
          (ok \<longleftrightarrow> (\<forall>e \<in> set p. succeeded e)))"

lemma ignore_log:
  "io_ignore (on_os (call_unit k c)) s = (r, s') \<Longrightarrow>
   r = Inr () \<and> (\<exists>rep. trace (sh_os s') = trace (sh_os s) @ [(c, rep)])"
  using call_unit_log by (fastforce simp: io_ignore_def on_os_def zoom_def split: prod.splits)

lemma call_raw_log: "call_raw k c s = (rep, w) \<Longrightarrow> trace w = trace s @ [(c, rep)]"
  by (auto simp: call_raw_def split: prod.splits)

lemma register_parent_log:
  assumes "register_parent k d s = (r, s')"
  shows "\<exists>g. trace (sh_os s') = trace (sh_os s) @ g \<and> set (calls g) \<subseteq> {Fstat d} \<and>
    (r = Inr () \<longleftrightarrow> (\<forall>e \<in> set g. succeeded e))"
proof (cases "sh_regs s")
  case None
  with assms show ?thesis by (auto simp: register_parent_def intro!: exI [of _ "[]"])
next
  case (Some g)
  obtain rep w where c: "call_raw k (Fstat d) (sh_os s) = (rep, w)"
    by (cases "call_raw k (Fstat d) (sh_os s)")
  note c = c call_raw_log [OF c]
  with assms Some have "trace (sh_os s') = trace w \<and> (r = Inr () \<longleftrightarrow> (\<forall>x. rep \<noteq> Failed x))"
    by (cases rep) (auto simp: register_parent_def register_def fd_identity_def on_os_def zoom_def
        call_def io_bind_def)
  with c show ?thesis by (intro exI [of _ "[(Fstat d, rep)]"]) (auto simp: succeeded_def)
qed

definition publish :: "'w kernel \<Rightarrow> inflight \<Rightarrow> ('w shared, unit) op" where
  "publish k f =
     (case if_final f of
        None \<Rightarrow> io_return ()
      | Some final \<Rightarrow>
          io_bind (on_os (rename_at k (if_parent f) (if_name f) final)) (\<lambda>_.
          register_parent k (if_parent f)))"

definition nul_free :: "inflight \<Rightarrow> bool" where
  "nul_free f \<longleftrightarrow> 0 \<notin> set (if_name f) \<and> (\<forall>n. if_final f = Some n \<longrightarrow> 0 \<notin> set n)"

lemma publish_logged:
  assumes "publish k f s = (r, s')" and "nul_free f"
  shows "\<exists>p. trace (sh_os s') = trace (sh_os s) @ p \<and> publish_log f p (r = Inr ())"
proof (cases "if_final f")
  case None
  with assms show ?thesis by (auto simp: publish_def publish_log_def)
next
  case (Some n)
  let ?c = "RenameAt (if_parent f) (if_name f) (if_parent f) n"
  have ren: "rename_at k (if_parent f) (if_name f) n = call_unit k ?c"
    using assms(2) Some by (auto simp: rename_at_def cstr_def nul_free_def io_bind_def)
  obtain x t where x: "on_os (call_unit k ?c) s = (x, t)" by (cases "on_os (call_unit k ?c) s")
  from on_os_state [OF x] call_unit_log obtain rep where
    t: "trace (sh_os t) = trace (sh_os s) @ [(?c, rep)]" "x = Inr () \<longleftrightarrow> succeeded (?c, rep)"
    by fastforce
  show ?thesis
  proof (cases x)
    case (Inl e)
    with assms Some ren x have "s' = t" "r = Inl e" by (simp_all add: publish_def)
    with t Inl Some show ?thesis
      by (intro exI [of _ "[(?c, rep)]"]) (auto simp: publish_log_def)
  next
    case (Inr v)
    with assms Some ren x have "register_parent k (if_parent f) t = (r, s')" by (simp add: publish_def)
    from register_parent_log [OF this] obtain g where
      g: "trace (sh_os s') = trace (sh_os t) @ g" "set (calls g) \<subseteq> {Fstat (if_parent f)}"
        "r = Inr () \<longleftrightarrow> (\<forall>e \<in> set g. succeeded e)" by blast
    with t Inr Some show ?thesis
      by (intro exI [of _ "(?c, rep) # g"]) (auto simp: publish_log_def succeeded_def)
  qed
qed

lemma complete_log:
  assumes "complete k durable f s = (r, s')" and "nul_free f"
  shows "\<exists>m t y p. trace (sh_os s') = trace (sh_os s) @ m @ [(Futimens (if_file f) (if_mtime f) (if_mtime f), t)] @ y @ p \<and>
    calls m = mode_calls f \<and>
    (p = [] \<and> (\<forall>e \<in> set y. fst e = FullFsync (if_file f) \<or> fst e = Fsync (if_file f)) \<and> r \<noteq> Inr () \<or>
     flush_ok durable (if_file f) y \<and> publish_log f p (r = Inr ()))"
proof -
  let ?mode = "if if_mode f AND 0x180 \<noteq> 0x180
      then io_ignore (on_os (set_mode_fd k (if_file f) (if_mode f))) else io_return ()"
  let ?time = "io_ignore (on_os (set_mtime_fd k (if_file f) (if_mtime f)))"
  let ?flush = "if durable then on_os (full_fsync k (if_file f)) else io_return ()"
  obtain s1 m where m: "?mode s = (Inr (), s1)" "trace (sh_os s1) = trace (sh_os s) @ m" "calls m = mode_calls f"
  proof (cases "if_mode f AND 0x180 \<noteq> 0x180")
    case True
    obtain x s1 where x: "io_ignore (on_os (set_mode_fd k (if_file f) (if_mode f))) s = (x, s1)"
      by (cases "io_ignore (on_os (set_mode_fd k (if_file f) (if_mode f))) s")
    from ignore_log [OF x [unfolded set_mode_fd_def]] obtain rep where
      "x = Inr ()" "trace (sh_os s1) = trace (sh_os s) @ [(Fchmod (if_file f) (ucast (if_mode f AND 0x1FF)), rep)]"
      by blast
    with x True show ?thesis by (intro that) (auto simp: mode_calls_def)
  next
    case False
    then show ?thesis by (intro that [of s "[]"]) (auto simp: mode_calls_def)
  qed
  obtain x s2 where x: "?time s1 = (x, s2)" by (cases "?time s1")
  from ignore_log [OF x [unfolded set_mtime_fd_def]] x obtain t where
    t: "?time s1 = (Inr (), s2)"
      "trace (sh_os s2) = trace (sh_os s1) @ [(Futimens (if_file f) (if_mtime f) (if_mtime f), t)]"
    by auto
  obtain z s3 where z: "?flush s2 = (z, s3)" by (cases "?flush s2")
  obtain y where y: "trace (sh_os s3) = trace (sh_os s2) @ y" "z = Inr () \<longleftrightarrow> flush_ok durable (if_file f) y"
      "\<forall>e \<in> set y. fst e = FullFsync (if_file f) \<or> fst e = Fsync (if_file f)"
  proof (cases durable)
    case True
    with z have "on_os (full_fsync k (if_file f)) s2 = (z, s3)" by simp
    from on_os_state [OF this] full_fsync_log True show ?thesis by (fastforce intro: that)
  next
    case False
    with z show ?thesis by (intro that [of "[]"]) (auto simp: flush_ok_def)
  qed
  have c: "complete k durable f s = io_bind ?flush (\<lambda>_. publish k f) s2"
    using m(1) t(1) by (simp add: complete_def publish_def)
  show ?thesis
  proof (cases z)
    case (Inl e)
    with z c assms(1) have "s' = s3" "r = Inl e" by simp_all
    with m t y Inl show ?thesis
      by (intro exI [of _ m] exI [of _ t] exI [of _ y] exI [of _ "[]"]) auto
  next
    case (Inr v)
    with z c assms(1) have "publish k f s3 = (r, s')" by simp
    from publish_logged [OF this assms(2)] obtain p where
      "trace (sh_os s') = trace (sh_os s3) @ p" "publish_log f p (r = Inr ())" by blast
    with m t y Inr show ?thesis
      by (intro exI [of _ m] exI [of _ t] exI [of _ y] exI [of _ p]) auto
  qed
qed

section \<open>One file\<close>

definition file_msgs :: "inflight \<Rightarrow> (bytes \<times> nat) list \<Rightarrow> msg list" where
  "file_msgs f bufs = Begin f # map data_msg bufs @ [EndFile]"

definition payload_writes :: "inflight \<Rightarrow> (bytes \<times> nat) list \<Rightarrow> syscall list" where
  "payload_writes f bufs = map (\<lambda>b. WriteAll (if_file f) (live_part b)) bufs"

lemma data_msgs_no_begin [simp]: "begun (map data_msg bufs @ ms) = begun ms"
  by (induction bufs) auto

text \<open>
  The log of one file followed by further messages: \<open>w\<close> are the writes, \<open>m\<close>, the time stamp
  and \<open>y\<close> what is done before the name appears, \<open>p\<close> the rename and what follows it.
\<close>

definition file_log ::
  "bool \<Rightarrow> inflight \<Rightarrow> (bytes \<times> nat) list \<Rightarrow> (syscall \<times> reply) list \<Rightarrow> bool \<Rightarrow> bool" where
  "file_log durable f bufs new ok \<longleftrightarrow>
     (\<exists>w m t y p. new = w @ m @ [(Futimens (if_file f) (if_mtime f) (if_mtime f), t)] @ y @ p \<and>
        calls w = payload_writes f bufs \<and> (\<forall>e \<in> set w. succeeded e) \<and>
        calls m = mode_calls f \<and> flush_ok durable (if_file f) y \<and> publish_log f p ok)"

abbreviation same_done :: "'w shared \<Rightarrow> 'w shared \<Rightarrow> bool" where
  "same_done s s' \<equiv> sh_done s' = sh_done s"

interpretation same_done: effect same_done
  by unfold_locales auto

lemma on_os_done: "spec same_done P (on_os m) (\<lambda>_ _. True)"
  by (rule specI) (auto dest!: on_os_state)

lemma register_parent_done: "spec same_done P (register_parent k d) (\<lambda>_ _. True)"
proof (rule specI)
  fix s r s' assume e: "register_parent k d s = (r, s')"
  have "sh_done s' = sh_done s"
  proof (cases "sh_regs s")
    case (Some g)
    obtain x t where x: "on_os (register k d g) s = (x, t)" by (cases "on_os (register k d g) s")
    from on_os_state [OF this] have "sh_done t = sh_done s" by auto
    with e x Some show ?thesis by (cases x) (auto simp: register_parent_def)
  qed (use e in \<open>simp add: register_parent_def\<close>)
  then show "sh_done s' = sh_done s \<and> (\<forall>v. r = Inr v \<longrightarrow> True)" by simp
qed

lemma complete_done: "spec same_done P (complete k durable f) (\<lambda>_ _. True)"
proof -
  have i: "spec same_done A (if b then m else io_return ()) (\<lambda>_ _. True)"
    if "spec same_done (\<lambda>_. True) m (\<lambda>_ _. True)" for A b and m :: "('w shared, unit) op"
    using that by (cases b) (auto simp: spec_def)
  have g: "spec same_done (\<lambda>_. True) (io_ignore (on_os (m :: ('w os, unit) op))) (\<lambda>_ _. True)" for m
    by (rule same_done.spec_ignore [OF on_os_done]) simp
  have r: "spec same_done (\<lambda>_. True) (case if_final f of None \<Rightarrow> io_return ()
      | Some final \<Rightarrow> io_bind (on_os (rename_at k (if_parent f) (if_name f) final))
          (\<lambda>_. register_parent k (if_parent f))) (\<lambda>_ _. True)"
    by (cases "if_final f")
      (auto intro!: same_done.spec_return same_done.spec_bind [OF on_os_done]
        register_parent_done simp del: io_return_simp)
  show ?thesis
    unfolding complete_def
    by (rule same_done.spec_bind [OF i same_done.spec_bind [OF g same_done.spec_bind [OF i r]]])
      (auto intro: g on_os_done)
qed

lemma file_logI:
  "calls w = payload_writes f bufs \<Longrightarrow> \<forall>e \<in> set w. succeeded e \<Longrightarrow> calls m = mode_calls f \<Longrightarrow>
   flush_ok durable (if_file f) y \<Longrightarrow> publish_log f p ok \<Longrightarrow>
   file_log durable f bufs (w @ m @ [(Futimens (if_file f) (if_mtime f) (if_mtime f), t)] @ y @ p) ok"
  unfolding file_log_def by blast

lemma write_file:
  assumes w: "write_loop k durable None (file_msgs f bufs @ ms) s = (r, s')" and n: "nul_free f"
  shows "(\<exists>t new. trace (sh_os t) = trace (sh_os s) @ new \<and> file_log durable f bufs new True \<and>
        sh_done t = sh_done s @ [f] \<and> write_loop k durable None ms t = (r, s'))
    \<or> (\<exists>new rest. trace (sh_os s') = trace (sh_os s) @ new @ rest \<and> (\<exists>err. r = Inl err) \<and>
        (\<forall>e \<in> set rest. is_unlink e) \<and>
        ((\<forall>e \<in> set new. \<forall>a b c d. fst e \<noteq> RenameAt a b c d) \<or> file_log durable f bufs new False))"
proof -
  have l: "write_loop k durable (Some f) (map data_msg bufs @ EndFile # ms) s = (r, s')"
    using w by (simp add: file_msgs_def drop_current_def)
  from write_data [OF l] show ?thesis
  proof (elim disjE exE conjE)
    fix err assume e: "r = Inl err" and a: "adds_sh (\<lambda>e. is_unlink e \<or> (\<exists>bs. fst e = WriteAll (if_file f) bs)) s s'"
    then obtain tr where "trace (sh_os s') = trace (sh_os s) @ tr"
        "\<forall>e \<in> set tr. is_unlink e \<or> (\<exists>bs. fst e = WriteAll (if_file f) bs)"
      by (auto simp: adds_sh_def adds_def)
    with e show ?thesis by (intro disjI2 exI [of _ tr] exI [of _ "[]"]) auto
  next
    fix t w'
    assume wl: "write_loop k durable (Some f) (EndFile # ms) t = (r, s')"
      and t: "trace (sh_os t) = trace (sh_os s) @ w'" "sh_done t = sh_done s"
        "calls w' = map (\<lambda>b. WriteAll (if_file f) (live_part b)) bufs" "\<forall>e \<in> set w'. succeeded e"
    obtain x u where x: "complete k durable f t = (x, u)" by (cases "complete k durable f t")
    from complete_log [OF x n] obtain m ft y p where
      c: "trace (sh_os u) = trace (sh_os t) @ m @ [(Futimens (if_file f) (if_mtime f) (if_mtime f), ft)] @ y @ p"
        "calls m = mode_calls f"
        "p = [] \<and> (\<forall>e \<in> set y. fst e = FullFsync (if_file f) \<or> fst e = Fsync (if_file f)) \<and> x \<noteq> Inr () \<or>
         flush_ok durable (if_file f) y \<and> publish_log f p (x = Inr ())"
      by blast
    let ?new = "w' @ m @ [(Futimens (if_file f) (if_mtime f) (if_mtime f), ft)] @ y @ p"
    have new: "trace (sh_os u) = trace (sh_os s) @ ?new" using t c by simp
    show ?thesis
    proof (cases x)
      case (Inr v)
      with c(3) have "file_log durable f bufs ?new True"
        using t c(2) by (intro file_logI) (auto simp: payload_writes_def)
      moreover obtain v where v: "mark_finished f u = (Inr (), v)" "sh_done v = sh_done u @ [f]"
          "sh_os v = sh_os u"
        by (simp add: mark_finished_def)
      moreover have "sh_done u = sh_done s"
        using specD [OF complete_done [of "\<lambda>_. True"] _ x] t(2) by simp
      moreover have "write_loop k durable None ms v = (r, s')"
        using wl x Inr v by (simp add: drop_inflight_finished)
      ultimately show ?thesis using new by (intro disjI1 exI [of _ v] exI [of _ ?new]) simp
    next
      case (Inl err)
      with wl x have ab: "abandon k f ms err u = (r, s')" by simp
      obtain rest where rest: "trace (sh_os s') = trace (sh_os u) @ rest" "\<forall>e \<in> set rest. is_unlink e"
        using specD [OF abandon_adds [of "\<lambda>_. True"] _ ab] by (auto simp: adds_sh_def adds_def)
      have mm: "\<forall>e \<in> set m. \<forall>a b c d. fst e \<noteq> RenameAt a b c d"
        using c(2) by (auto simp: mode_calls_def calls_def split: if_splits)
      have ww: "\<forall>e \<in> set w'. \<forall>a b c d. fst e \<noteq> RenameAt a b c d"
      proof
        fix e assume "e \<in> set w'"
        then have "fst e \<in> set (calls w')" by simp
        then show "\<forall>a b c d. fst e \<noteq> RenameAt a b c d" unfolding t(3) by auto
      qed
      have "(\<forall>e \<in> set ?new. \<forall>a b c d. fst e \<noteq> RenameAt a b c d) \<or> file_log durable f bufs ?new False"
        using c(3)
      proof
        assume "flush_ok durable (if_file f) y \<and> publish_log f p (x = Inr ())"
        with Inl t c(2) show ?thesis
          by (intro disjI2 file_logI) (auto simp: payload_writes_def)
      qed (use mm ww in auto)
      with new rest abandon_Inl [OF ab] show ?thesis
        by (intro disjI2 exI [of _ ?new] exI [of _ rest]) auto
    qed
  qed
qed

section \<open>A session of files\<close>

abbreviation no_rename :: "(syscall \<times> reply) list \<Rightarrow> bool" where
  "no_rename tr \<equiv> \<forall>e \<in> set tr. \<forall>a b c d. fst e \<noteq> RenameAt a b c d"

text \<open>What is left of the messages when the connection dies inside a file, or does not.\<close>

fun partial_msgs :: "(inflight \<times> (bytes \<times> nat) list) option \<Rightarrow> msg list" where
  "partial_msgs None = []"
| "partial_msgs (Some (f, bufs)) = Begin f # map data_msg bufs"

lemma drop_current_adds: "spec (adds_sh is_unlink) A (drop_current k cur) (\<lambda>_ _. True)"
  unfolding drop_current_def
  by (cases cur) (auto intro: drop_inflight_adds adds_sh.spec_return simp del: io_return_simp)

lemma write_partial:
  assumes "write_loop k durable None (partial_msgs part) s = (r, s')"
  shows "\<exists>tr. trace (sh_os s') = trace (sh_os s) @ tr \<and> no_rename tr"
proof (cases part)
  case None
  with assms show ?thesis by (auto simp: drop_current_def)
next
  case (Some fb)
  obtain f bufs where fb: "fb = (f, bufs)" by (cases fb)
  have l: "write_loop k durable (Some f) (map data_msg bufs @ []) s = (r, s')"
    using assms Some fb by (simp add: drop_current_def)
  from write_data [OF l] show ?thesis
  proof (elim disjE exE conjE)
    fix err assume "adds_sh (\<lambda>e. is_unlink e \<or> (\<exists>bs. fst e = WriteAll (if_file f) bs)) s s'"
    then show ?thesis by (fastforce simp: adds_sh_def adds_def)
  next
    fix t w assume t: "write_loop k durable (Some f) [] t = (r, s')"
        "trace (sh_os t) = trace (sh_os s) @ w"
        "calls w = map (\<lambda>b. WriteAll (if_file f) (live_part b)) bufs"
    obtain x u where x: "drop_current k (Some f) t = (x, u)" by (cases "drop_current k (Some f) t")
    from t(1) x have "u = s'" by (cases x) (auto simp: io_bind_def)
    with specD [OF drop_current_adds [of "\<lambda>_. True"] _ x] obtain d where
      d: "trace (sh_os s') = trace (sh_os t) @ d" "\<forall>e \<in> set d. is_unlink e"
      by (auto simp: adds_sh_def adds_def)
    have "no_rename w"
    proof
      fix e assume "e \<in> set w"
      then have "fst e \<in> set (calls w)" by simp
      then show "\<forall>a b c d. fst e \<noteq> RenameAt a b c d" unfolding t(3) by auto
    qed
    with t(2) d show ?thesis by (intro exI [of _ "w @ d"]) auto
  qed
qed

definition session_msgs ::
  "(inflight \<times> (bytes \<times> nat) list) list \<Rightarrow> (inflight \<times> (bytes \<times> nat) list) option \<Rightarrow> msg list" where
  "session_msgs files part = concat (map (\<lambda>(f, bufs). file_msgs f bufs) files) @ partial_msgs part"

lemma session_msgs_simps:
  "session_msgs [] part = partial_msgs part"
  "session_msgs ((f, bufs) # files) part = file_msgs f bufs @ session_msgs files part"
  by (simp_all add: session_msgs_def)

text \<open>
  The log of a session: whole files one after the other, then, if the loop did not get to
  the end of them, the calls for the file it failed in, which either hold no rename or
  are its complete log up to a rename that failed or could not be registered.
\<close>

definition session_log ::
  "bool \<Rightarrow> (inflight \<times> (bytes \<times> nat) list) list \<Rightarrow> bool \<Rightarrow> (syscall \<times> reply) list \<Rightarrow> bool" where
  "session_log durable files ok new \<longleftrightarrow>
     (\<exists>n logs rest. n \<le> length files \<and> new = concat logs @ rest \<and>
        list_all2 (\<lambda>(f, b) l. file_log durable f b l True) (take n files) logs \<and>
        (ok \<longrightarrow> n = length files) \<and>
        (no_rename rest \<or> (n < length files \<and> (\<exists>l rem. rest = l @ rem \<and> no_rename rem \<and>
           file_log durable (fst (files ! n)) (snd (files ! n)) l False))))"

lemma session_log_nil: "no_rename new \<Longrightarrow> session_log durable [] ok new"
  unfolding session_log_def by (intro exI [of _ 0] exI [of _ "[]"] exI [of _ new]) auto

lemma session_log_stop:
  "no_rename new \<or> (\<exists>l rem. new = l @ rem \<and> no_rename rem \<and> file_log durable f b l False) \<Longrightarrow>
   session_log durable ((f, b) # files) False new"
  unfolding session_log_def by (intro exI [of _ 0] exI [of _ "[]"] exI [of _ new]) auto

lemma session_log_cons:
  assumes "file_log durable f b new True" and "session_log durable files ok tr"
  shows "session_log durable ((f, b) # files) ok (new @ tr)"
proof -
  obtain n logs rest where
    *: "n \<le> length files" "tr = concat logs @ rest"
      "list_all2 (\<lambda>(f, b) l. file_log durable f b l True) (take n files) logs"
      "ok \<longrightarrow> n = length files"
      "no_rename rest \<or> (n < length files \<and> (\<exists>l rem. rest = l @ rem \<and> no_rename rem \<and>
        file_log durable (fst (files ! n)) (snd (files ! n)) l False))"
    using assms(2) unfolding session_log_def by blast
  show ?thesis
    unfolding session_log_def
    by (rule exI [of _ "Suc n"], rule exI [of _ "new # logs"], rule exI [of _ rest])
      (use * assms(1) in simp)
qed

lemma writer_log:
  "write_loop k durable None (session_msgs files part) s = (r, s') \<Longrightarrow> \<forall>(f, b) \<in> set files. nul_free f \<Longrightarrow>
   \<exists>new. trace (sh_os s') = trace (sh_os s) @ new \<and> session_log durable files (r = Inr ()) new"
proof (induction files arbitrary: s)
  case Nil
  with write_partial [of k durable part s r s'] session_log_nil show ?case
    by (auto simp: session_msgs_simps)
next
  case (Cons fb files)
  obtain f b where fb: "fb = (f, b)" by (cases fb)
  have w: "write_loop k durable None (file_msgs f b @ session_msgs files part) s = (r, s')"
    using Cons.prems(1) fb by (simp add: session_msgs_simps)
  have "nul_free f" using Cons.prems(2) fb by simp
  from write_file [OF w this] show ?case
  proof (elim disjE exE conjE)
    fix t new
    assume t: "trace (sh_os t) = trace (sh_os s) @ new" "file_log durable f b new True"
      and l: "write_loop k durable None (session_msgs files part) t = (r, s')"
    from Cons.IH [OF l] Cons.prems(2) t session_log_cons [OF t(2)] fb show ?case by fastforce
  next
    fix new rest err
    assume *: "trace (sh_os s') = trace (sh_os s) @ new @ rest" "r = Inl err" "\<forall>e \<in> set rest. is_unlink e"
      "no_rename new"
    have "no_rename (new @ rest)" using *(3,4) by fastforce
    then have "session_log durable (fb # files) False (new @ rest)"
      unfolding fb by (intro session_log_stop disjI1)
    with * show ?case by auto
  next
    fix new rest err
    assume *: "trace (sh_os s') = trace (sh_os s) @ new @ rest" "r = Inl err" "\<forall>e \<in> set rest. is_unlink e"
      "file_log durable f b new False"
    have "no_rename rest" using *(3) by fastforce
    with * have "session_log durable (fb # files) False (new @ rest)"
      unfolding fb by (intro session_log_stop) blast
    with * show ?case by auto
  qed
qed

end
