(* ===== verification/NetEffect.thy ===== *)
theory NetEffect
  imports NetSafe Commit
begin

text \<open>
  The calls the network thread's primitives are made of, and the rule that lifts an effect
  of these calls to \<open>read_entries\<close>: the locale \<open>net_effect\<close> is interpreted wherever a
  property of the thread's log is proved (that it only grows, that it renames nothing, how
  its files were created, what it registers).
\<close>

section \<open>Primitives\<close>

lemma call_fd_adds: "(\<And>r. P (c, r)) \<Longrightarrow> spec (adds P) A (call_fd k c) (\<lambda>_ _. True)"
  unfolding call_fd_def by (rule adds.spec_bind [OF call_adds adds.spec_return]) auto

lemma adds_cstr: "(\<And>m. spec (adds P) (\<lambda>_. True) (f m) Q) \<Longrightarrow> spec (adds P) A (io_bind (cstr n) f) Q"
  by (rule adds.spec_bind [OF cstr_adds]) (auto intro: spec_weaken)

lemma adds_bind:
  "spec (adds P) A m (\<lambda>_ _. True) \<Longrightarrow> (\<And>v. spec (adds P) (\<lambda>_. True) (f v) (\<lambda>_ _. True)) \<Longrightarrow>
   spec (adds P) A (io_bind m f) (\<lambda>_ _. True)"
  by (rule adds.spec_bind)

lemma adds_catch:
  "spec (adds P) A m (\<lambda>_ _. True) \<Longrightarrow> (\<And>e. spec (adds P) (\<lambda>_. True) (h e) (\<lambda>_ _. True)) \<Longrightarrow>
   spec (adds P) A (io_catch m h) (\<lambda>_ _. True)"
  by (rule adds.spec_catch [where P' = "\<lambda>_. True"]) auto

lemma open_dir_adds: "(\<And>p r. P (Open p [O_RDONLY, O_DIRECTORY, O_CLOEXEC], r)) \<Longrightarrow> spec (adds P) A (open_dir k p) (\<lambda>_ _. True)"
  unfolding open_dir_def by (intro spec_if adds.spec_throw call_fd_adds adds_cstr) simp_all

lemma dup_fd_adds: "(\<And>r. P (DupFd f, r)) \<Longrightarrow> spec (adds P) A (dup_fd k f) (\<lambda>_ _. True)"
  unfolding dup_fd_def by (rule call_fd_adds)

lemma open_dir_at_adds:
  "(\<And>n r. P (OpenAt d n [O_RDONLY, O_DIRECTORY, O_NOFOLLOW, O_CLOEXEC] 0, r)) \<Longrightarrow> spec (adds P) A (open_dir_at k d n) (\<lambda>_ _. True)"
  unfolding open_dir_at_def by (intro adds_cstr call_fd_adds) auto

lemma adds_mono: "adds P s s' \<Longrightarrow> (\<And>e. P e \<Longrightarrow> Q e) \<Longrightarrow> adds Q s s'"
  by (auto simp: adds_def)

lemma drop_msgs_regs: "drop_msgs k ms s = (r, s') \<Longrightarrow> sh_regs s' = sh_regs s"
proof (induction k ms arbitrary: s rule: drop_msgs.induct)
  case (2 k f ms)
  obtain x t where x: "drop_inflight k f s = (x, t)" by (cases "drop_inflight k f s")
  then have "sh_regs t = sh_regs s"
    by (auto simp: drop_inflight_def io_ignore_def on_os_def zoom_def split: prod.splits if_splits)
  with 2 x show ?case by (cases x) auto
qed auto

text \<open>For the network thread's state.\<close>

definition net_adds :: "(syscall \<times> reply \<Rightarrow> bool) \<Rightarrow> 'w net \<Rightarrow> 'w net \<Rightarrow> bool" where
  "net_adds P s s' \<longleftrightarrow> adds P (os_of s) (os_of s')"

interpretation net_adds: effect "net_adds P" for P
  by unfold_locales (auto simp: net_adds_def intro: adds.refl adds.trans)

lemma net_os_adds: "spec (adds P) (\<lambda>_. True) m (\<lambda>_ _. True) \<Longrightarrow> spec (net_adds P) A (net_os m) (\<lambda>_ _. True)"
  by (rule specI) (auto dest!: net_os_state specD simp: net_adds_def)

lemma inert_adds: "inert m \<Longrightarrow> spec (net_adds P) A m (\<lambda>_ _. True)"
  by (rule specI) (auto simp: inert_def net_adds_def n_sh_core_def adds.refl)

lemma net_adds_bind:
  "spec (net_adds P) A m (\<lambda>_ _. True) \<Longrightarrow> (\<And>v. spec (net_adds P) (\<lambda>_. True) (f v) (\<lambda>_ _. True)) \<Longrightarrow>
   spec (net_adds P) A (io_bind m f) (\<lambda>_ _. True)"
  by (rule net_adds.spec_bind)

section \<open>Calls other than renames and registrations\<close>

text \<open>
  Two calls carry the durability argument: the rename that makes a file visible, which only
  the writer makes, and the \<open>fstat\<close> with which a directory is registered. Every primitive
  the network thread uses is made of other calls.
\<close>

definition basic :: "syscall \<times> reply \<Rightarrow> bool" where
  "basic e \<longleftrightarrow> (\<forall>a b c d. fst e \<noteq> RenameAt a b c d) \<and> (\<forall>f. fst e \<noteq> Fstat f)"

lemma basic_simps [simp]:
  "basic (Open p fl, r)" "basic (OpenAt d n fl m, r)" "basic (MkdirAt d n m', r)"
  "basic (FstatAt d n b, r)" "basic (SymlinkAt t d n, r)"
  "basic (UnlinkAt d n, r)" "basic (UtimensAt d n x y b, r)" "basic (Futimens d x y, r)"
  "basic (Fchmod d m', r)" "basic (NoCache d, r)" "basic (FullFsync d, r)"
  "basic (Fsync d, r)" "basic (DupFd d, r)" "basic (WriteAll d bs, r)"
  "basic (Arc4random, r)"
  by (simp_all add: basic_def)

text \<open>
  Harmless calls create no file, write none and change no mode either; the calls that create a
  payload file are \<open>creating\<close>.
\<close>

definition creating :: "syscall \<times> reply \<Rightarrow> bool" where
  "creating e \<longleftrightarrow> basic e \<and> (\<forall>f bs. fst e \<noteq> WriteAll f bs) \<and> (\<forall>f m. fst e \<noteq> Fchmod f m)"

definition harmless :: "syscall \<times> reply \<Rightarrow> bool" where
  "harmless e \<longleftrightarrow> creating e \<and> (\<forall>d n fl m. fst e = OpenAt d n fl m \<longrightarrow> O_CREAT \<notin> set fl)"

lemma creating_simps [simp]:
  "creating (Open p fl, r)" "creating (OpenAt d n fl m, r)" "creating (MkdirAt d n m', r)"
  "creating (FstatAt d n b, r)" "creating (SymlinkAt t d n, r)" "creating (UnlinkAt d n, r)"
  "creating (UtimensAt d n x y b, r)" "creating (NoCache d, r)" "creating (DupFd d, r)"
  "creating (Arc4random, r)" "creating (Futimens f x y, r)" "creating (FullFsync f, r)"
  "creating (Fsync f, r)"
  by (simp_all add: creating_def)

lemma harmless_simps [simp]:
  "harmless (Open p fl, r)" "harmless (OpenAt d n fl m, r) \<longleftrightarrow> O_CREAT \<notin> set fl" "harmless (MkdirAt d n m', r)"
  "harmless (FstatAt d n b, r)" "harmless (SymlinkAt t d n, r)" "harmless (UnlinkAt d n, r)"
  "harmless (UtimensAt d n x y b, r)" "harmless (NoCache d, r)" "harmless (DupFd d, r)" "harmless (Arc4random, r)"
  "harmless (Futimens f x y, r)" "harmless (FullFsync f, r)" "harmless (Fsync f, r)"
  by (simp_all add: harmless_def)

lemma harmless_creating: "harmless e \<Longrightarrow> creating e" and creating_basic: "creating e \<Longrightarrow> basic e"
  by (simp_all add: harmless_def creating_def)

lemma arc4random_adds: "(\<And>r. P (Arc4random, r)) \<Longrightarrow> spec (adds P) A (arc4random k) (\<lambda>_ _. True)"
  by (rule specI) (auto simp: arc4random_def call_raw_def adds_def split: prod.splits)

lemma mkdir_at_harmless: "spec (adds harmless) A (mkdir_at k d n m) (\<lambda>_ _. True)"
  unfolding mkdir_at_def
  by (intro adds_cstr adds_catch call_unit_adds spec_if adds.spec_throw adds.spec_return) simp_all

lemma map_err_adds:
  "spec (adds P) A m (\<lambda>_ _. True) \<Longrightarrow> spec (adds P) A (io_map_err f m) (\<lambda>_ _. True)"
  by (rule adds.spec_map_err)

lemma walk_dirs_harmless: "spec (adds harmless) A (walk_dirs k root cs) (\<lambda>_ _. True)"
proof -
  have "spec (adds harmless) A (walk_dirs_loop k d cs) (\<lambda>_ _. True)" for A d
  proof (induction cs arbitrary: A d)
    case Nil
    show ?case unfolding walk_dirs_loop.simps by (rule adds.spec_return) simp
  next
    case (Cons c cs)
    show ?case unfolding walk_dirs_loop.simps
      by (intro adds_bind mkdir_at_harmless map_err_adds open_dir_at_adds Cons) simp
  qed
  then show ?thesis unfolding walk_dirs_def by (intro adds_bind dup_fd_adds) simp_all
qed

lemma unlink_at_harmless: "spec (adds harmless) A (unlink_at k d n) (\<lambda>_ _. True)"
  unfolding unlink_at_def by (intro adds_cstr call_unit_adds) simp

lemma symlink_at_harmless: "spec (adds harmless) A (symlink_at k t d n) (\<lambda>_ _. True)"
  unfolding symlink_at_def by (intro adds_cstr call_unit_adds) simp

lemma set_mtime_at_harmless: "spec (adds harmless) A (set_mtime_at k d n t) (\<lambda>_ _. True)"
  unfolding set_mtime_at_def by (intro adds_cstr call_unit_adds) simp

lemma create_file_at_opens: "spec (adds creating) A (create_file_at k d n m) (\<lambda>_ _. True)"
  unfolding create_file_at_def Let_def unlink_at_def
  by (intro adds_cstr adds_catch call_fd_adds spec_if adds_bind call_unit_adds adds.spec_throw) simp_all

lemma create_temp_opens: "spec (adds creating) A (create_temp_file_at k d n m) (\<lambda>_ _. True)"
proof -
  have "spec (adds creating) A (create_temp_tries i k d n m) (\<lambda>_ _. True)" for i A
  proof (induction i arbitrary: A)
    case 0
    show ?case unfolding create_temp_tries.simps by (rule adds.spec_throw)
  next
    case (Suc i)
    show ?case unfolding create_temp_tries.simps Let_def
      by (intro adds_bind arc4random_adds adds_cstr adds_catch call_fd_adds spec_if Suc adds.spec_throw
          adds.spec_return) simp_all
  qed
  then show ?thesis unfolding create_temp_file_at_def .
qed

lemma create_payload_opens: "spec (adds creating) A (create_payload_file k d n m) (\<lambda>_ _. True)"
proof (rule specI)
  fix s r s' assume e: "create_payload_file k d n m s = (r, s')"
  obtain x t where x: "create_temp_file_at k d n m s = (x, t)" by (cases "create_temp_file_at k d n m s")
  from specD [OF create_temp_opens [of "\<lambda>_. True"] _ x] have st: "adds creating s t" by simp
  have c: "spec (adds creating) (\<lambda>_. True)
      (io_bind (create_file_at k d n m) (\<lambda>f. io_return (f, n, None :: bytes option))) (\<lambda>_ _. True)"
    by (intro adds_bind create_file_at_opens adds.spec_return) simp
  have "adds creating t s'"
    using e x specD [OF c, of t] adds.refl
    by (cases x) (auto simp: create_payload_file_def split: if_splits prod.splits)
  with st adds.trans show "adds creating s s' \<and> (\<forall>v. r = Inr v \<longrightarrow> True)" by blast
qed

section \<open>What the network thread does, for any effect\<close>

text \<open>
  An effect on the thread's state that is closed under harmless calls, whatever becomes of the
  rest of the state but the registry, under the registrations and under the creation of a
  payload file is an effect of \<open>read_entries\<close>.
\<close>

locale net_effect = effect R for R :: "'w net \<Rightarrow> 'w net \<Rightarrow> bool" +
  fixes k :: "'w kernel"
  assumes step: "adds harmless (os_of s) (os_of s') \<Longrightarrow> sh_regs (n_sh s') = sh_regs (n_sh s) \<Longrightarrow> R s s'"
    and registers: "net_sh (register_parent k d) s = (r, s') \<Longrightarrow> R s s'"
    and creates: "net_os (create_payload_file k d n (m OR 0x180)) s = (x, s') \<Longrightarrow> good_component n \<Longrightarrow> R s s'"
begin

lemma r_bind:
  "spec R P m (\<lambda>_ _. True) \<Longrightarrow> (\<And>v. spec R (\<lambda>_. True) (f v) (\<lambda>_ _. True)) \<Longrightarrow>
   spec R P (io_bind m f) (\<lambda>_ _. True)"
  by (rule spec_bind)

lemma r_ignore: "spec R P m (\<lambda>_ _. True) \<Longrightarrow> spec R P (io_ignore m) (\<lambda>_ _. True)"
  by (rule spec_ignore) auto

lemma r_os: "spec (adds harmless) (\<lambda>_. True) m (\<lambda>_ _. True) \<Longrightarrow> spec R P (net_os m) (\<lambda>_ _. True)"
  by (rule specI) (auto dest!: net_os_state specD intro!: step)

lemma r_quiet: "inert m \<Longrightarrow> spec R P m (\<lambda>_ _. True)"
  by (rule specI) (auto simp: inert_def n_sh_core_def adds.refl intro!: step)

lemma r_registers: "spec R P (net_sh (register_parent k d)) (\<lambda>_ _. True)"
  by (rule specI) (auto intro: registers)

lemma r_send: "spec R P (send_msg k m) (\<lambda>_ _. True)"
proof -
  have d: "spec R P (net_sh (drop_msgs k [m])) (\<lambda>_ _. True)" for P
  proof (rule specI)
    fix s r s' assume "net_sh (drop_msgs k [m]) s = (r, s')"
    then obtain x where x: "drop_msgs k [m] (n_sh s) = (r, x)" "s' = s\<lparr>n_sh := x\<rparr>"
      by (auto simp: net_sh_def zoom_eq)
    from specD [OF drop_msgs_adds _ x(1)] have a: "adds_sh is_unlink (n_sh s) x" by simp
    have "adds harmless (os_of s) (os_of s')"
      using adds_mono [OF a [unfolded adds_sh_def], of harmless] x(2) by (fastforce simp: harmless_def creating_def basic_def)
    moreover from drop_msgs_regs [OF x(1)] x(2) have "sh_regs (n_sh s') = sh_regs (n_sh s)" by simp
    ultimately show "R s s' \<and> (\<forall>v. r = Inr v \<longrightarrow> True)" by (auto intro: step)
  qed
  have u: "spec R P (\<lambda>s. (Inr (), s\<lparr>n_sent := f s\<rparr>)) (\<lambda>_ _. True)" for P f
    by (rule specI) (auto intro!: step simp: adds.refl)
  have t: "spec R P tick (\<lambda>_ _. True)" for P
    by (rule r_quiet) (rule inert_tick)
  show ?thesis
    unfolding send_msg_def by (intro r_bind spec_if d u t spec_throw)
qed

lemma pump_loop_r: "spec R A (pump_loop turns k e remaining) (\<lambda>_ _. True)"
proof (induction turns arbitrary: A remaining)
  case 0
  show ?case unfolding pump_loop.simps [of 0] nat.case
    by (intro spec_if r_bind r_quiet) simp_all
next
  case (Suc turns)
  show ?case unfolding pump_loop.simps [of "Suc turns"] nat.case Let_def
    by (intro spec_if r_bind r_send Suc r_quiet) simp_all
qed

lemma pump_file_r:
  assumes "good_component name"
  shows "spec R A (pump_file B k dir name e verify) (\<lambda>_ _. True)"
proof -
  have l: "spec R A (\<lambda>s. pump_loop (length (n_pool s)) k e (e_size e) s) (\<lambda>_ _. True)" for A
    by (rule specI) (use specD [OF pump_loop_r [of "\<lambda>_. True"]] in auto)
  have c: "spec R A (net_os (create_payload_file k dir name (m OR 0x180))) (\<lambda>_ _. True)" for A m
    by (rule specI) (use creates assms in blast)
  show ?thesis
    unfolding pump_file_def case_prod_beta set_nocache_def
    by (intro r_bind c r_os spec_if r_ignore r_send l call_unit_adds r_quiet; simp)
qed

lemma recv_body_r:
  assumes g: "good_component name"
  shows "spec R A (case e_kind e of
                     Dir \<Rightarrow> recv_dir k dir name e
                   | Symlink \<Rightarrow> recv_symlink B k dir name e verify
                   | File \<Rightarrow> recv_file B k dir name e verify
                   | End \<Rightarrow> io_return 0) (\<lambda>_ _. True)"
proof -
  have f: "spec R A (recv_file B k dir name e verify) (\<lambda>_ _. True)" for A
    unfolding recv_file_def by (intro r_bind pump_file_r [OF g] r_quiet) simp_all
  have d: "spec R A (recv_dir k dir name e) (\<lambda>_ _. True)" for A
    unfolding recv_dir_def
    by (intro r_bind r_os mkdir_at_harmless r_ignore set_mtime_at_harmless r_registers
        r_quiet) simp_all
  have s: "spec R A (recv_symlink B k dir name e verify) (\<lambda>_ _. True)" for A
    unfolding recv_symlink_def
    by (intro r_bind spec_if r_os r_ignore unlink_at_harmless symlink_at_harmless
        set_mtime_at_harmless r_registers r_quiet; simp)
  show ?thesis
    by (cases "e_kind e") (auto intro: d s f r_quiet simp del: io_return_simp)
qed

lemma recv_entry_r: "spec R A (recv_entry B k root verify cache e) (\<lambda>_ _. True)"
proof -
  have last: "sanitize p = Inr cs \<Longrightarrow> good_component (last cs)" for p cs
    using sanitize_components by (metis last_in_set)
  have g: "spec (adds harmless) A (parent_get cache ps (walk_dirs k root ps)) (\<lambda>_ _. True)" for A ps
    unfolding parent_get_def
    by (intro spec_case_option spec_if adds_bind walk_dirs_harmless adds.spec_return; simp)
  show ?thesis
    unfolding recv_entry_def Let_def case_prod_beta
    by (intro spec_case_sum r_bind r_os g recv_body_r; (rule last, assumption | rule r_quiet, simp)?)
qed

lemma entries_loop_r: "spec R A (entries_loop fuel B k root verify cache st) (\<lambda>_ _. True)"
proof (induction fuel arbitrary: A cache st)
  case 0
  show ?case unfolding entries_loop.simps by (rule spec_throw)
next
  case (Suc fuel)
  show ?case unfolding entries_loop.simps case_prod_beta
    by (intro r_bind spec_case_option recv_entry_r Suc spec_return r_quiet) simp_all
qed

lemma read_entries_r: "spec R A (read_entries B k dest verify) (\<lambda>_ _. True)"
proof -
  have l': "spec R A (\<lambda>s. entries_loop (Suc (length (staged_rem (n_in s)))) B k root verify
            parent_cache_default stats_default s) (\<lambda>_ _. True)" for A root
  proof (rule specI)
    fix s r s' assume e: "entries_loop (Suc (length (staged_rem (n_in s)))) B k root verify
            parent_cache_default stats_default s = (r, s')"
    from specD [OF entries_loop_r [where A = "\<lambda>_. True"] _ e]
    show "R s s' \<and> (\<forall>v. r = Inr v \<longrightarrow> True)" by simp
  qed
  show ?thesis
    unfolding read_entries_def
    by (intro r_bind r_os open_dir_adds r_registers l') simp
qed

end

section \<open>It never renames, writes or changes a mode\<close>

definition hands_off :: "syscall \<times> reply \<Rightarrow> bool" where
  "hands_off e \<longleftrightarrow>
     (\<forall>a b c d. fst e \<noteq> RenameAt a b c d) \<and> (\<forall>f bs. fst e \<noteq> WriteAll f bs) \<and> (\<forall>f m. fst e \<noteq> Fchmod f m)"

interpretation keeps: net_effect "net_adds hands_off" k for k
proof
  fix s s' :: "'a net" assume "adds harmless (os_of s) (os_of s')"
  then show "net_adds hands_off s s'"
    unfolding net_adds_def by (rule adds_mono) (simp add: harmless_def creating_def basic_def hands_off_def)
next
  fix d s r s' assume "net_sh (register_parent k d) s = (r, s')"
  then obtain x where x: "register_parent k d (n_sh s) = (r, x)" "s' = s\<lparr>n_sh := x\<rparr>"
    by (auto simp: net_sh_def zoom_eq)
  from register_parent_log [OF x(1)] obtain g where
    "trace (sh_os x) = trace (os_of s) @ g" "set (calls g) \<subseteq> {Fstat d}" by blast
  with x show "net_adds hands_off s s'" by (fastforce simp: net_adds_def adds_def hands_off_def)
next
  fix d n m s x s' assume "net_os (create_payload_file k d n (m OR 0x180)) s = (x, s')"
  from net_os_state [OF this] obtain o' where
    o: "create_payload_file k d n (m OR 0x180) (os_of s) = (x, o')" "os_of s' = o'" by auto
  from specD [OF create_payload_opens [where A = "\<lambda>_. True"] _ o(1)] have "adds creating (os_of s) (os_of s')"
    using o(2) by simp
  then show "net_adds hands_off s s'"
    unfolding net_adds_def by (rule adds_mono) (simp add: creating_def basic_def hands_off_def)
qed

lemmas read_entries_keeps = keeps.read_entries_r

lemma hands_off_grows: "net_adds hands_off s s' \<Longrightarrow> \<exists>new. trace (os_of s') = trace (os_of s) @ new"
  by (auto simp: net_adds_def adds_def)

end
