(* ===== verification/Place.thy ===== *)
theory Place
  imports NetEffect
begin

text \<open>
  Where a file is. The log of a receiver says which directory a descriptor stands for
  (\<open>leads\<close>: opened from the destination, one component after the other), and how the file
  behind a descriptor came about (\<open>creates\<close>: exclusively under a scratch name, or in place
  when the file system refused the scratch name as too long). \<open>placed\<close> ties the two to an
  entry: the file was created in the directory the entry's path names, with the entry's
  mode, and the descriptor that is written to is the one that creation handed out.
\<close>

section \<open>Directories\<close>

text \<open>The directory \<open>cs\<close> below the destination is open as \<open>d\<close>.\<close>

inductive leads :: "bytes \<Rightarrow> (syscall \<times> reply) list \<Rightarrow> bytes list \<Rightarrow> fd \<Rightarrow> bool"
  for dest :: bytes and tr :: "(syscall \<times> reply) list" where
  root: "(Open dest [O_RDONLY, O_DIRECTORY, O_CLOEXEC], rep) \<in> set tr \<Longrightarrow> d \<in> handed_out rep \<Longrightarrow>
    leads dest tr [] d"
| dup: "leads dest tr cs d \<Longrightarrow> (DupFd d, rep) \<in> set tr \<Longrightarrow> d' \<in> handed_out rep \<Longrightarrow> leads dest tr cs d'"
| sub: "leads dest tr cs d \<Longrightarrow>
    (OpenAt d c [O_RDONLY, O_DIRECTORY, O_NOFOLLOW, O_CLOEXEC] 0, rep) \<in> set tr \<Longrightarrow> d' \<in> handed_out rep \<Longrightarrow>
    leads dest tr (cs @ [c]) d'"

lemma leads_mono: "leads dest tr cs d \<Longrightarrow> set tr \<subseteq> set tr' \<Longrightarrow> leads dest tr' cs d"
proof (induction rule: leads.induct)
  case (root rep d)
  then show ?case by (blast intro: leads.root)
next
  case (dup cs d rep d')
  then show ?case by (blast intro: leads.dup)
next
  case (sub cs d c rep d')
  then show ?case by (blast intro: leads.sub)
qed

text \<open>
  The part of a log after its first \<open>n\<close> calls: what an operation has found out about
  directories is read off the calls it made itself.
\<close>

definition log_from :: "nat \<Rightarrow> 'w os \<Rightarrow> (syscall \<times> reply) list" where
  "log_from n s = drop n (trace s)"

abbreviation started :: "nat \<Rightarrow> 'w os \<Rightarrow> bool" where
  "started n s \<equiv> n \<le> length (trace s)"

abbreviation grows :: "'w os \<Rightarrow> 'w os \<Rightarrow> bool" where
  "grows \<equiv> adds (\<lambda>_. True)"

lemma grows_log: "grows s s' \<Longrightarrow> \<exists>new. trace s' = trace s @ new"
  by (auto simp: adds_def)

lemma log_from_append: "trace s' = trace s @ new \<Longrightarrow> started n s \<Longrightarrow> log_from n s' = log_from n s @ new"
  by (simp add: log_from_def)

lemma started_grows: "grows s s' \<Longrightarrow> started n s \<Longrightarrow> started n s'"
  by (auto simp: adds_def)

lemma log_from_grows: "grows s s' \<Longrightarrow> set (log_from n s) \<subseteq> set (log_from n s')"
  by (auto simp: adds_def log_from_def)

lemma leads_grows: "grows s s' \<Longrightarrow> leads dest (log_from n s) cs d \<Longrightarrow> leads dest (log_from n s') cs d"
  using leads_mono log_from_grows by blast

text \<open>A descriptor known to stand for a directory in the log so far.\<close>

abbreviation stands :: "bytes \<Rightarrow> nat \<Rightarrow> bytes list \<Rightarrow> fd \<Rightarrow> 'w os \<Rightarrow> bool" where
  "stands dest n cs d s \<equiv> started n s \<and> leads dest (log_from n s) cs d"

lemma stands_grows: "grows s s' \<Longrightarrow> stands dest n cs d s \<Longrightarrow> stands dest n cs d s'"
  using leads_grows started_grows by blast

lemma stands_stable: "spec grows (\<lambda>_. True) m (\<lambda>_ _. True) \<Longrightarrow> spec grows (stands dest n cs d) m (\<lambda>_. stands dest n cs d)"
  unfolding spec_def using stands_grows by blast

lemma call_fd_log:
  "call_fd k c s = (r, s') \<Longrightarrow>
   \<exists>rep. trace s' = trace s @ [(c, rep)] \<and>
     (case r of Inr f \<Rightarrow> f \<in> handed_out rep | Inl e \<Rightarrow> \<exists>x. rep = Failed x \<and> e = OsError x)"
  unfolding call_fd_def call_def
  by (cases "call_raw k c s"; cases "fst (call_raw k c s)")
    (auto dest!: call_raw_log simp: io_bind_def)

text \<open>A call that hands out a descriptor, as an operation that learns what it stands for.\<close>

lemma call_fd_at:
  assumes "\<And>tr rep d'. (c, rep) \<in> set tr \<Longrightarrow> d' \<in> handed_out rep \<Longrightarrow> leads dest tr cs d \<Longrightarrow>
    leads dest tr cs' d'"
  shows "spec grows (stands dest n cs d) (call_fd k c) (stands dest n cs')"
proof (rule specI)
  fix s r s' assume p: "stands dest n cs d s" and e: "call_fd k c s = (r, s')"
  from call_fd_log [OF e] obtain rep where
    t: "trace s' = trace s @ [(c, rep)]" "case r of Inr f \<Rightarrow> f \<in> handed_out rep | Inl e \<Rightarrow> \<exists>x. rep = Failed x \<and> e = OsError x"
    by blast
  have g: "grows s s'" using t(1) by (auto simp: adds_def)
  have "(c, rep) \<in> set (log_from n s')" using log_from_append [OF t(1)] p by simp
  with t(2) assms stands_grows [OF g p] g show "grows s s' \<and> (\<forall>v. r = Inr v \<longrightarrow> stands dest n cs' v s')"
    by auto
qed

lemma open_dir_at_root: "spec grows (started n) (open_dir k dest) (stands dest n [])"
proof (rule specI)
  fix s r s' assume p: "started n s" and e: "open_dir k dest s = (r, s')"
  let ?c = "Open dest [O_RDONLY, O_DIRECTORY, O_CLOEXEC]"
  show "grows s s' \<and> (\<forall>v. r = Inr v \<longrightarrow> stands dest n [] v s')"
  proof (cases "\<not> utf8_valid dest \<or> 0 \<in> set dest")
    case True
    with e show ?thesis by (auto simp: open_dir_def cstr_def adds.refl split: if_splits)
  next
    case False
    with e have "call_fd k ?c s = (r, s')" by (simp add: open_dir_def cstr_def)
    from call_fd_log [OF this] obtain rep where
      t: "trace s' = trace s @ [(?c, rep)]" "case r of Inr f \<Rightarrow> f \<in> handed_out rep | Inl e \<Rightarrow> \<exists>x. rep = Failed x \<and> e = OsError x"
      by blast
    have "(?c, rep) \<in> set (log_from n s')" using log_from_append [OF t(1) p] by simp
    with t p show ?thesis by (auto simp: adds_def intro: leads.root)
  qed
qed

lemma dup_fd_at: "spec grows (stands dest n cs d) (dup_fd k d) (stands dest n cs)"
  unfolding dup_fd_def by (rule call_fd_at) (rule leads.dup)

lemma open_dir_at_sub: "spec grows (stands dest n cs d) (open_dir_at k d c) (stands dest n (cs @ [c]))"
  unfolding open_dir_at_def
proof (rule adds.spec_bind [where M = "\<lambda>m s. m = c \<and> stands dest n cs d s"])
  show "spec grows (stands dest n cs d) (cstr c) (\<lambda>m s. m = c \<and> stands dest n cs d s)"
    unfolding cstr_def by (intro spec_if adds.spec_throw adds.spec_return) simp
  show "spec grows (\<lambda>s. m = c \<and> stands dest n cs d s)
      (call_fd k (OpenAt d m [O_RDONLY, O_DIRECTORY, O_NOFOLLOW, O_CLOEXEC] 0)) (stands dest n (cs @ [c]))" for m
  proof (cases "m = c")
    case True
    then show ?thesis
      by (intro spec_weaken [OF call_fd_at [where cs = cs and d = d]]) (auto intro: leads.sub)
  qed (simp add: spec_def)
qed

lemma walk_dirs_loop_at:
  "spec grows (stands dest n cs d) (walk_dirs_loop k d ps) (stands dest n (cs @ ps))"
proof (induction ps arbitrary: cs d)
  case Nil
  show ?case unfolding walk_dirs_loop.simps by (rule adds.spec_return) simp
next
  case (Cons c ps)
  have m: "spec grows (\<lambda>_. True) (mkdir_at k d c 0x1ED) (\<lambda>_ _. True)"
    unfolding mkdir_at_def
    by (intro adds_cstr adds_catch call_unit_adds spec_if adds.spec_throw adds.spec_return) simp_all
  have m': "spec grows (stands dest n cs d) (mkdir_at k d c 0x1ED) (\<lambda>_. stands dest n cs d)"
    by (rule stands_stable [OF m])
  show ?case unfolding walk_dirs_loop.simps
    by (intro adds.spec_bind [OF m'] adds.spec_bind [OF adds.spec_map_err [OF open_dir_at_sub]])
      (use Cons [of "cs @ [c]"] in simp)
qed

lemma walk_dirs_at: "spec grows (stands dest n [] d) (walk_dirs k d ps) (stands dest n ps)"
  unfolding walk_dirs_def
  by (rule adds.spec_bind [OF dup_fd_at]) (use walk_dirs_loop_at [where cs = "[]"] in simp)

lemma open_dir_chain_loop_at:
  "spec grows (stands dest n cs d) (open_dir_chain_loop k d ps) (stands dest n (cs @ ps))"
proof (induction ps arbitrary: cs d)
  case Nil
  show ?case unfolding open_dir_chain_loop.simps by (rule adds.spec_return) simp
next
  case (Cons c ps)
  show ?case unfolding open_dir_chain_loop.simps
    by (rule adds.spec_bind [OF open_dir_at_sub]) (use Cons [of "cs @ [c]"] in simp)
qed

lemma open_dir_chain_at: "spec grows (stands dest n [] d) (open_dir_chain k d ps) (stands dest n ps)"
  unfolding open_dir_chain_def
  by (rule adds.spec_bind [OF dup_fd_at]) (use open_dir_chain_loop_at [where cs = "[]"] in simp)

text \<open>The cache only ever remembers a directory under the path it was opened by.\<close>

definition cache_at :: "bytes \<Rightarrow> nat \<Rightarrow> parent_cache \<Rightarrow> 'w os \<Rightarrow> bool" where
  "cache_at dest n cache s \<longleftrightarrow> (\<forall>d. pc_dir cache = Some d \<longrightarrow> leads dest (log_from n s) (pc_components cache) d)"

lemma cache_at_default [simp]: "cache_at dest n parent_cache_default s"
  by (simp add: cache_at_def parent_cache_default_def)

lemma cache_at_grows: "grows s s' \<Longrightarrow> cache_at dest n cache s \<Longrightarrow> cache_at dest n cache s'"
  unfolding cache_at_def using leads_grows by blast

lemma parent_get_at:
  assumes "spec grows (stands dest n [] root) open_it (stands dest n ps)"
  shows "spec grows (\<lambda>s. stands dest n [] root s \<and> cache_at dest n cache s) (parent_get cache ps open_it)
    (\<lambda>(d, cache') s. stands dest n ps d s \<and> cache_at dest n cache' s)"
proof -
  have o: "spec grows (\<lambda>s. stands dest n [] root s \<and> cache_at dest n cache s)
      (io_bind open_it (\<lambda>d. io_return (d, \<lparr>pc_components = ps, pc_dir = Some d\<rparr>)))
      (\<lambda>(d, cache') s. stands dest n ps d s \<and> cache_at dest n cache' s)"
    by (rule adds.spec_bind [OF spec_weaken [OF assms] adds.spec_return])
      (auto simp: cache_at_def)
  show ?thesis
    unfolding parent_get_def
    by (intro spec_case_option spec_if o adds.spec_return) (auto simp: cache_at_def)
qed

section \<open>Creations\<close>

text \<open>One try: a random number, and an exclusive creation under the name it gives.\<close>

definition attempt :: "fd \<Rightarrow> bytes \<Rightarrow> u32 \<Rightarrow> reply \<times> reply \<Rightarrow> (syscall \<times> reply) list" where
  "attempt d n mode t =
     [(Arc4random, fst t),
      (OpenAt d (temp_name n (word_of_nat (rc_of (fst t))))
         [O_WRONLY, O_CREAT, O_EXCL, O_NOFOLLOW, O_CLOEXEC] mode, snd t)]"

text \<open>What a number of tries gives.\<close>

definition tries_give :: "bytes \<Rightarrow> (reply \<times> reply) list \<Rightarrow> (fd \<times> bytes) result \<Rightarrow> bool" where
  "tries_give n tries r \<longleftrightarrow>
     (\<forall>t \<in> set (butlast tries). snd t = Failed EEXIST) \<and>
     (case r of
        Inr (f, temp) \<Rightarrow> tries \<noteq> [] \<and> (\<forall>x. snd (last tries) \<noteq> Failed x) \<and> f = rc_of (snd (last tries)) \<and>
          temp = temp_name n (word_of_nat (rc_of (fst (last tries))))
      | Inl err \<Rightarrow> \<exists>x. err = OsError x \<and> (x \<noteq> EEXIST \<longrightarrow> tries \<noteq> []) \<and>
          (tries \<noteq> [] \<longrightarrow> snd (last tries) = Failed x))"

lemma create_temp_tries_log:
  assumes "good_component n"
  shows "create_temp_tries i k d n mode s = (r, s') \<Longrightarrow>
   \<exists>tries. trace s' = trace s @ concat (map (attempt d n mode) tries) \<and> length tries \<le> i \<and> tries_give n tries r"
proof (induction i arbitrary: s)
  case 0
  then show ?case by (auto simp: tries_give_def)
next
  case (Suc i)
  obtain q t where q: "call_raw k Arc4random s = (q, t)" by (cases "call_raw k Arc4random s")
  note tq = call_raw_log [OF q]
  let ?temp = "temp_name n (word_of_nat (rc_of q))"
  let ?c = "OpenAt d ?temp [O_WRONLY, O_CREAT, O_EXCL, O_NOFOLLOW, O_CLOEXEC] mode"
  have z: "0 \<notin> set ?temp" using temp_name_good [OF assms] by (simp add: good_component_def)
  obtain rep u where c: "call_raw k ?c t = (rep, u)" by (cases "call_raw k ?c t")
  note tc = call_raw_log [OF c]
  have one: "trace u = trace s @ attempt d n mode (q, rep)" using tq tc by (simp add: attempt_def)
  show ?case
  proof (cases "rep = Failed EEXIST")
    case True
    with Suc.prems q c z have "create_temp_tries i k d n mode u = (r, s')"
      by (simp add: arc4random_def Let_def cstr_def io_catch_def call_fd_def call_def io_bind_def)
    from Suc.IH [OF this] obtain tries where
      t: "trace s' = trace u @ concat (map (attempt d n mode) tries)" "length tries \<le> i" "tries_give n tries r"
      by blast
    have "tries_give n ((q, rep) # tries) r"
      using t(3) True by (auto simp: tries_give_def split: sum.splits)
    with t one show ?thesis by (intro exI [of _ "(q, rep) # tries"]) simp
  next
    case False
    with Suc.prems q c z have "s' = u \<and> tries_give n [(q, rep)] r"
      by (cases rep) (auto simp: arc4random_def Let_def cstr_def io_catch_def call_fd_def call_def io_bind_def
          tries_give_def split: if_splits)
    with one show ?thesis by (intro exI [of _ "[(q, rep)]"]) simp
  qed
qed

text \<open>
  The creation in place, under the real name: truncating, and with a second try after a
  file that could not be opened was removed.
\<close>

definition in_place :: "fd \<Rightarrow> bytes \<Rightarrow> u32 \<Rightarrow> reply \<Rightarrow> syscall \<times> reply" where
  "in_place d n mode rep = (OpenAt d n [O_WRONLY, O_CREAT, O_TRUNC, O_NOFOLLOW, O_CLOEXEC] mode, rep)"

lemma create_file_at_log:
  assumes "create_file_at k d n mode s = (Inr f, s')"
  shows "\<exists>rep pre. f \<in> handed_out rep \<and> trace s' = trace s @ pre @ [in_place d n mode rep] \<and>
    (pre = [] \<or> (\<exists>q. pre = [in_place d n mode (Failed EACCES), (UnlinkAt d n, q)] \<and> succeeded (UnlinkAt d n, q)))"
proof -
  let ?o = "call_fd k (OpenAt d n [O_WRONLY, O_CREAT, O_TRUNC, O_NOFOLLOW, O_CLOEXEC] mode)"
  from assms have z: "0 \<notin> set n" by (auto simp: create_file_at_def cstr_def split: if_splits)
  obtain x t where x: "?o s = (x, t)" by (cases "?o s")
  from call_fd_log [OF x] obtain rep where
    t: "trace t = trace s @ [in_place d n mode rep]"
      "case x of Inr f \<Rightarrow> f \<in> handed_out rep | Inl e \<Rightarrow> \<exists>x. rep = Failed x \<and> e = OsError x"
    by (auto simp: in_place_def)
  show ?thesis
  proof (cases x)
    case (Inr f')
    with assms x z t show ?thesis
      by (intro exI [of _ rep] exI [of _ "[]"]) (auto simp: create_file_at_def cstr_def io_catch_def Let_def)
  next
    case (Inl err)
    with t(2) obtain e where e: "rep = Failed e" "err = OsError e" by auto
    with assms x z Inl have "e = EACCES" and
      u: "io_bind (unlink_at k d n) (\<lambda>_. ?o) t = (Inr f, s')"
      by (auto simp: create_file_at_def cstr_def io_catch_def Let_def split: if_splits)
    from u obtain v where v: "call_unit k (UnlinkAt d n) t = (Inr (), v)" "?o v = (Inr f, s')"
      using z by (auto simp: io_bind_Inr unlink_at_def cstr_def)
    from call_unit_log [OF v(1)] obtain q where
      q: "trace v = trace t @ [(UnlinkAt d n, q)]" "succeeded (UnlinkAt d n, q)" by auto
    from call_fd_log [OF v(2)] obtain rep' where
      "trace s' = trace v @ [in_place d n mode rep']" "f \<in> handed_out rep'" by (auto simp: in_place_def)
    with t(1) q e \<open>e = EACCES\<close> show ?thesis by (intro exI [of _ rep'] exI [of _ "[in_place d n mode (Failed EACCES), (UnlinkAt d n, q)]"]) simp
  qed
qed

text \<open>
  The calls that created the file of \<open>f\<close> as \<open>n\<close> in the directory \<open>d\<close>: up to three names that
  were taken, then the exclusive creation under a scratch name, to be renamed to \<open>n\<close>; or, only
  when that name was too long for the file system, the creation in place. The descriptor is
  the one the creating call handed out.
\<close>

definition creates :: "fd \<Rightarrow> bytes \<Rightarrow> u32 \<Rightarrow> (syscall \<times> reply) list \<Rightarrow> inflight \<Rightarrow> bool" where
  "creates d n mode seg f \<longleftrightarrow>
     (\<exists>tries q rep tl. seg = concat (map (attempt d n mode) tries) @ attempt d n mode (q, rep) @ tl \<and>
        length tries \<le> 3 \<and> (\<forall>t \<in> set tries. snd t = Failed EEXIST) \<and>
        (if_final f = Some n \<and> if_name f = temp_name n (word_of_nat (rc_of q)) \<and>
           if_file f \<in> handed_out rep \<and> tl = []
         \<or> if_final f = None \<and> if_name f = n \<and> rep = Failed ENAMETOOLONG \<and>
           (\<exists>pre rep'. tl = pre @ [in_place d n mode rep'] \<and> if_file f \<in> handed_out rep' \<and>
              (pre = [] \<or> (\<exists>q'. pre = [in_place d n mode (Failed EACCES), (UnlinkAt d n, q')])))))"

lemma createsI:
  assumes "length tries \<le> 3" and "\<forall>t \<in> set tries. snd t = Failed EEXIST"
  shows "if_file f \<in> handed_out rep \<Longrightarrow> if_name f = temp_name n (word_of_nat (rc_of q)) \<Longrightarrow> if_final f = Some n \<Longrightarrow>
      creates d n mode (concat (map (attempt d n mode) tries) @ attempt d n mode (q, rep) @ []) f"
    and "if_file f \<in> handed_out rep' \<Longrightarrow> if_name f = n \<Longrightarrow> if_final f = None \<Longrightarrow>
      pre = [] \<or> (\<exists>q'. pre = [in_place d n mode (Failed EACCES), (UnlinkAt d n, q')]) \<Longrightarrow>
      creates d n mode (concat (map (attempt d n mode) tries) @ attempt d n mode (q, Failed ENAMETOOLONG) @
        pre @ [in_place d n mode rep']) f"
  unfolding creates_def
  subgoal using assms by (intro exI [of _ tries] exI [of _ q] exI [of _ rep] exI [of _ "[]"]) simp
  subgoal using assms
    by (intro exI [of _ tries] exI [of _ q] exI [of _ "Failed ENAMETOOLONG"] exI [of _ "pre @ [in_place d n mode rep']"])
      blast
  done

lemma create_payload_log:
  assumes c: "create_payload_file k d n mode s = (Inr (fl, nm, final), s')" and g: "good_component n"
  shows "\<exists>seg. trace s' = trace s @ seg \<and>
    (\<forall>f. if_file f = fl \<longrightarrow> if_name f = nm \<longrightarrow> if_final f = final \<longrightarrow> creates d n mode seg f)"
proof -
  obtain x t where x: "create_temp_file_at k d n mode s = (x, t)"
    by (cases "create_temp_file_at k d n mode s")
  from create_temp_tries_log [OF g x [unfolded create_temp_file_at_def]] obtain tries where
    t: "trace t = trace s @ concat (map (attempt d n mode) tries)" "length tries \<le> 4" "tries_give n tries x"
    by blast
  show ?thesis
  proof (cases x)
    case (Inr v)
    with c x have v: "x = Inr (fl, nm)" "final = Some n" "s' = t"
      by (cases v; simp add: create_payload_file_def)+
    from t(3) v(1) have "tries \<noteq> []" by (simp add: tries_give_def)
    then obtain ini q rep where l: "tries = ini @ [(q, rep)]" by (metis append_butlast_last_id surj_pair)
    from t(3) v(1) l have i: "\<forall>t \<in> set ini. snd t = Failed EEXIST"
        "fl \<in> handed_out rep" "nm = temp_name n (word_of_nat (rc_of q))"
      by (auto simp: tries_give_def handed_out_rc)
    have "trace s' = trace s @ concat (map (attempt d n mode) ini) @ attempt d n mode (q, rep) @ []"
      using t(1) v(3) l by simp
    moreover have "length ini \<le> 3" using t(2) l by simp
    ultimately show ?thesis
      using createsI(1) [of ini] i v(2) by (intro exI conjI) (assumption, auto)
  next
    case (Inl err)
    with c x have e: "raw_os_error err = Some ENAMETOOLONG"
        and b: "io_bind (create_file_at k d n mode) (\<lambda>f. io_return (f, n, None)) t = (Inr (fl, nm, final), s')"
      by (auto simp: create_payload_file_def split: if_splits)
    have ne: "ENAMETOOLONG \<noteq> EEXIST" by simp
    from t(3) Inl e ne have "tries \<noteq> []" by (auto simp: tries_give_def)
    then obtain ini q rep where l: "tries = ini @ [(q, rep)]" by (metis append_butlast_last_id surj_pair)
    from t(3) Inl e l have i: "\<forall>t \<in> set ini. snd t = Failed EEXIST" "rep = Failed ENAMETOOLONG"
      by (auto simp: tries_give_def)
    from b have f: "create_file_at k d n mode t = (Inr fl, s')" "nm = n" "final = None"
      by (auto simp: io_bind_Inr)
    from create_file_at_log [OF f(1)] obtain rep' pre where
      p: "fl \<in> handed_out rep'" "trace s' = trace t @ pre @ [in_place d n mode rep']"
        "pre = [] \<or> (\<exists>q. pre = [in_place d n mode (Failed EACCES), (UnlinkAt d n, q)])"
      by blast
    have "trace s' = trace s @ concat (map (attempt d n mode) ini) @ attempt d n mode (q, rep) @
        (pre @ [in_place d n mode rep'])"
      using t(1) p(2) l by simp
    moreover have "length ini \<le> 3" using t(2) l by simp
    ultimately show ?thesis
      using createsI(2) [of ini] i f(2,3) p(1,3) by (intro exI conjI) (assumption, auto)
  qed
qed

text \<open>What the name of the created file can be.\<close>

lemma creates_names:
  assumes "creates d n mode seg f" and g: "good_component n"
  shows "if_final f = Some n \<and> if_name f \<noteq> n \<and> length (if_name f) = length n + 21 \<and> good_component (if_name f)
     \<or> if_final f = None \<and> if_name f = n \<and>
       (\<exists>x. (OpenAt d (temp_name n x) [O_WRONLY, O_CREAT, O_EXCL, O_NOFOLLOW, O_CLOEXEC] mode,
          Failed ENAMETOOLONG) \<in> set seg)"
proof -
  from assms(1) obtain tries q rep tl where
    s: "seg = concat (map (attempt d n mode) tries) @ attempt d n mode (q, rep) @ tl" and
    c: "if_final f = Some n \<and> if_name f = temp_name n (word_of_nat (rc_of q)) \<or>
        if_final f = None \<and> if_name f = n \<and> rep = Failed ENAMETOOLONG"
    unfolding creates_def by blast
  let ?t = "temp_name n (word_of_nat (rc_of q))"
  from c show ?thesis
  proof (elim disjE conjE)
    assume "if_final f = Some n" "if_name f = ?t"
    then show ?thesis
      using temp_name_neq [of n] temp_name_good [OF g] length_temp_name [of n] by simp
  next
    assume *: "if_final f = None" "if_name f = n" "rep = Failed ENAMETOOLONG"
    have "(OpenAt d ?t [O_WRONLY, O_CREAT, O_EXCL, O_NOFOLLOW, O_CLOEXEC] mode, Failed ENAMETOOLONG) \<in> set seg"
      by (simp add: s attempt_def *(3))
    with *(1,2) show ?thesis by blast
  qed
qed

text \<open>
  The file of \<open>f\<close> is the one entry \<open>e\<close> with path \<open>cs\<close> asks for: its directory is open under the
  path's parents, and the file was created there after that, under the path's last component.
\<close>

definition placed :: "bytes \<Rightarrow> (syscall \<times> reply) list \<Rightarrow> bytes list \<Rightarrow> u32 \<Rightarrow> inflight \<Rightarrow> bool" where
  "placed dest tr cs mode f \<longleftrightarrow>
     (\<exists>a seg b. tr = a @ seg @ b \<and> leads dest a (butlast cs) (if_parent f) \<and>
        creates (if_parent f) (last cs) mode seg f)"

lemma placed_later: "placed dest tr cs mode f \<Longrightarrow> placed dest (tr @ b) cs mode f"
  unfolding placed_def by fastforce

lemma placed_before:
  assumes "placed dest tr cs mode f"
  shows "placed dest (p @ tr) cs mode f"
proof -
  from assms obtain a seg b where "tr = a @ seg @ b" "leads dest a (butlast cs) (if_parent f)"
      "creates (if_parent f) (last cs) mode seg f"
    unfolding placed_def by blast
  moreover from this(2) have "leads dest (p @ a) (butlast cs) (if_parent f)" by (rule leads_mono) simp
  ultimately show ?thesis unfolding placed_def by (metis append.assoc)
qed

lemma placedI:
  "stands dest n (butlast cs) (if_parent f) s \<Longrightarrow> trace s' = trace s @ seg @ b \<Longrightarrow>
   creates (if_parent f) (last cs) mode seg f \<Longrightarrow> placed dest (log_from n s') cs mode f"
  unfolding placed_def by (intro exI [of _ "log_from n s"] exI [of _ seg] exI [of _ b]) (simp add: log_from_def)

section \<open>No other creation\<close>

lemma split_at_Cons:
  assumes "xs @ ys = a @ e # b"
  shows "(\<exists>us. xs = a @ e # us \<and> b = us @ ys) \<or> (\<exists>us. a = xs @ us \<and> ys = us @ e # b)"
proof -
  from assms obtain us where "xs = a @ us \<and> us @ ys = e # b \<or> a = xs @ us \<and> ys = us @ e # b"
    by (auto simp: append_eq_append_conv2)
  then show ?thesis by (cases us) auto
qed

text \<open>
  A call that creates a file is the exclusive creation of a scratch name, or the creation in
  place of a name whose scratch name the file system found too long in an earlier call; and
  it lets the owner read and write.
\<close>

definition creation_ok :: "(syscall \<times> reply) list \<Rightarrow> syscall \<times> reply \<Rightarrow> bool" where
  "creation_ok tr e \<longleftrightarrow>
     (\<forall>d n fl m. fst e = OpenAt d n fl m \<longrightarrow> O_CREAT \<in> set fl \<longrightarrow> m AND 0x180 = 0x180 \<and>
        ((\<exists>nm r. n = temp_name nm r) \<and> fl = [O_WRONLY, O_CREAT, O_EXCL, O_NOFOLLOW, O_CLOEXEC] \<or>
         fl = [O_WRONLY, O_CREAT, O_TRUNC, O_NOFOLLOW, O_CLOEXEC] \<and>
           (\<exists>r. (OpenAt d (temp_name n r) [O_WRONLY, O_CREAT, O_EXCL, O_NOFOLLOW, O_CLOEXEC] m,
               Failed ENAMETOOLONG) \<in> set tr)))"

definition orderly :: "(syscall \<times> reply) list \<Rightarrow> bool" where
  "orderly tr \<longleftrightarrow> (\<forall>a e b. tr = a @ e # b \<longrightarrow> creation_ok a e)"

lemma creation_ok_mono: "creation_ok tr e \<Longrightarrow> set tr \<subseteq> set tr' \<Longrightarrow> creation_ok tr' e"
  unfolding creation_ok_def by blast

lemma orderly_append:
  assumes "orderly a" and "\<And>x e y. b = x @ e # y \<Longrightarrow> creation_ok (a @ x) e"
  shows "orderly (a @ b)"
  unfolding orderly_def
proof (intro allI impI)
  fix x e y assume "a @ b = x @ e # y"
  from split_at_Cons [OF this] show "creation_ok x e"
    using assms unfolding orderly_def by blast
qed

lemma orderly_trans: "orderly a \<Longrightarrow> orderly b \<Longrightarrow> orderly (a @ b)"
proof (erule orderly_append)
  fix x e y assume "orderly b" "b = x @ e # y"
  then have "creation_ok x e" unfolding orderly_def by blast
  then show "creation_ok (a @ x) e" by (rule creation_ok_mono) simp
qed

lemma orderly_all: "(\<And>e. e \<in> set tr \<Longrightarrow> creation_ok [] e) \<Longrightarrow> orderly tr"
  unfolding orderly_def by (fastforce elim!: creation_ok_mono)

lemma harmless_creation_ok: "harmless e \<Longrightarrow> creation_ok [] e"
  by (auto simp: harmless_def creation_ok_def)

lemma attempt_creation_ok:
  "m AND 0x180 = 0x180 \<Longrightarrow> e \<in> set (concat (map (attempt d n m) tries)) \<Longrightarrow> creation_ok [] e"
  by (fastforce simp: attempt_def creation_ok_def)

lemma bind_return: "io_bind (io_return v) f = f v"
  by (rule ext) simp

lemma create_payload_orderly:
  assumes c: "create_payload_file k d n mode s = (r, s')" and g: "good_component n" and m: "mode AND 0x180 = 0x180"
  shows "\<exists>new. trace s' = trace s @ new \<and> orderly new"
proof -
  obtain x t where x: "create_temp_file_at k d n mode s = (x, t)"
    by (cases "create_temp_file_at k d n mode s")
  from create_temp_tries_log [OF g x [unfolded create_temp_file_at_def]] obtain tries where
    t: "trace t = trace s @ concat (map (attempt d n mode) tries)" "tries_give n tries x"
    by blast
  have o: "orderly (concat (map (attempt d n mode) tries))"
    by (rule orderly_all) (rule attempt_creation_ok [OF m])
  show ?thesis
  proof (cases "\<exists>err. x = Inl err \<and> raw_os_error err = Some ENAMETOOLONG")
    case False
    with c x have "s' = t" by (cases x) (auto simp: create_payload_file_def split: if_splits)
    with t o show ?thesis by blast
  next
    case True
    then obtain err where e: "x = Inl err" "raw_os_error err = Some ENAMETOOLONG" by blast
    let ?P = "\<lambda>e. fst e = OpenAt d n [O_WRONLY, O_CREAT, O_TRUNC, O_NOFOLLOW, O_CLOEXEC] mode \<or> fst e = UnlinkAt d n"
    have f: "spec (adds ?P) (\<lambda>_. True) (create_file_at k d n mode) (\<lambda>_ _. True)"
    proof (cases "0 \<in> set n")
      case True
      then show ?thesis by (simp add: create_file_at_def cstr_def io_bind_def spec_def io_throw_def adds.refl)
    next
      case False
      then show ?thesis
        unfolding create_file_at_def Let_def unlink_at_def cstr_def if_not_P [OF False] bind_return
        by (intro adds_catch call_fd_adds spec_if adds_bind call_unit_adds adds.spec_throw) simp_all
    qed
    have "spec (adds ?P) (\<lambda>_. True)
        (io_bind (create_file_at k d n mode) (\<lambda>f. io_return (f, n, None :: bytes option))) (\<lambda>_ _. True)"
      by (intro adds_bind f adds.spec_return) simp
    from specD [OF this _, of t r s'] c x e obtain new where
      new: "trace s' = trace t @ new" "\<forall>e \<in> set new. ?P e"
      by (auto simp: create_payload_file_def adds_def)
    from t(2) e have "\<exists>q. (q, Failed ENAMETOOLONG) \<in> set tries"
      unfolding tries_give_def by (auto intro: last_in_set) (metis last_in_set prod.collapse)
    then obtain q where q: "(q, Failed ENAMETOOLONG) \<in> set tries" by blast
    have "orderly (concat (map (attempt d n mode) tries) @ new)"
    proof (rule orderly_append [OF o])
      fix u e v assume "new = u @ e # v"
      with new(2) have "?P e" by simp
      with q m show "creation_ok (concat (map (attempt d n mode) tries) @ u) e"
        by (force simp: creation_ok_def attempt_def)
    qed
    with t(1) new(1) show ?thesis by auto
  qed
qed

definition net_orderly :: "'w net \<Rightarrow> 'w net \<Rightarrow> bool" where
  "net_orderly s s' \<longleftrightarrow> (\<exists>new. trace (os_of s') = trace (os_of s) @ new \<and> orderly new)"

interpretation orders: net_effect net_orderly k for k
proof
  fix s :: "'a net" show "net_orderly s s" by (simp add: net_orderly_def orderly_def)
next
  fix s t u :: "'a net" assume "net_orderly s t" "net_orderly t u"
  then obtain a b where "trace (os_of u) = trace (os_of s) @ a @ b" "orderly a" "orderly b"
    by (auto simp: net_orderly_def)
  with orderly_trans show "net_orderly s u" unfolding net_orderly_def by blast
next
  fix s s' :: "'a net" assume "adds harmless (os_of s) (os_of s')"
  then obtain new where "trace (os_of s') = trace (os_of s) @ new" "\<forall>e \<in> set new. harmless e"
    by (auto simp: adds_def)
  with orderly_all [of new] harmless_creation_ok show "net_orderly s s'" unfolding net_orderly_def by blast
next
  fix d s r s' assume "net_sh (register_parent k d) s = (r, s')"
  then obtain x where x: "register_parent k d (n_sh s) = (r, x)" "s' = s\<lparr>n_sh := x\<rparr>"
    by (auto simp: net_sh_def zoom_eq)
  from register_parent_log [OF x(1)] obtain g where
    g: "trace (sh_os x) = trace (os_of s) @ g" "set (calls g) \<subseteq> {Fstat d}" by blast
  have "orderly g" by (rule orderly_all) (use g(2) in \<open>auto simp: creation_ok_def\<close>)
  with g(1) x(2) show "net_orderly s s'" by (auto simp: net_orderly_def)
next
  fix d n m s x s' assume "net_os (create_payload_file k d n (m OR 0x180)) s = (x, s')" and g: "good_component n"
  from net_os_state [OF this(1)] obtain o' where
    o: "create_payload_file k d n (m OR 0x180) (os_of s) = (x, o')" "os_of s' = o'" by auto
  have "(m OR 0x180) AND 0x180 = (0x180 :: u32)" by simp
  from create_payload_orderly [OF o(1) g this] o(2) show "net_orderly s s'" by (simp add: net_orderly_def)
qed

end
