(* ===== verification/NetFun.thy ===== *)
theory NetFun
  imports Place
begin

text \<open>
  What the network thread sends behind it, and what it read for it. Whatever happens, the
  messages are whole files followed by at most one unfinished one; and when a file's
  \<open>EndFile\<close> was sent, its buffers are the bytes the stream held for it and, in a verified
  session, they hash to the digest that followed them.
\<close>

section \<open>The hash stage as a function of the messages\<close>

definition no_fin :: "msg list \<Rightarrow> msg list" where
  "no_fin ms = filter (\<lambda>m. m \<noteq> Finish) ms"

lemma no_fin_simps [simp]:
  "no_fin [] = []" "no_fin (xs @ ys) = no_fin xs @ no_fin ys"
  "no_fin (Begin f # ms) = Begin f # no_fin ms" "no_fin (Data b n # ms) = Data b n # no_fin ms"
  "no_fin (EndFile # ms) = EndFile # no_fin ms" "no_fin (Finish # ms) = no_fin ms"
  "no_fin (map data_msg bufs) = map data_msg bufs"
proof -
  show "no_fin (map data_msg bufs) = map data_msg bufs"
    by (induction bufs) (auto simp: no_fin_def)
qed (simp_all add: no_fin_def)

lemma hash_loop_forward: "fst (hash_loop B h ms) = no_fin ms"
proof (induction ms arbitrary: h)
  case (Cons m ms)
  then show ?case by (cases m) (simp_all add: no_fin_def case_prod_beta)
qed (simp add: no_fin_def)

text \<open>The payload bytes since the last \<open>Finish\<close>.\<close>

fun since :: "bytes \<Rightarrow> msg list \<Rightarrow> bytes" where
  "since acc [] = acc"
| "since acc (Data buf len # ms) = since (acc @ take len buf) ms"
| "since acc (Finish # ms) = since [] ms"
| "since acc (_ # ms) = since acc ms"

lemma since_append [simp]: "since acc (xs @ ys) = since (since acc xs) ys"
  by (induction acc xs rule: since.induct) auto

lemma since_data [simp]: "since acc (map data_msg bufs) = acc @ concat (map live_part bufs)"
proof (induction bufs arbitrary: acc)
  case (Cons b bufs)
  then show ?case by (cases b) simp
qed simp

lemma hash_loop_replies:
  assumes B: "blake3_ok B absorbed"
  shows "snd (hash_loop B h (ms @ [Finish])) =
    snd (hash_loop B h ms) @ [digest B (since (absorbed h) ms)]"
proof (induction ms arbitrary: h)
  case Nil
  show ?case using finalize_absorbed [OF B] by simp
next
  case (Cons m ms)
  show ?case
    using absorbed_reset [OF B]
    by (cases m) (simp_all add: Cons absorbed_hash_update [OF B] case_prod_beta)
qed

lemma last_reply:
  "blake3_ok B absorbed \<Longrightarrow> last (snd (hash_loop B (b3_new B) (ms @ [Finish]))) = digest B (since [] ms)"
  by (simp add: hash_loop_replies absorbed_new)

section \<open>What an operation leaves alone\<close>

lemma net_in_frame:
  "net_in m s = (r, s') \<Longrightarrow> \<exists>i. m (n_in s) = (r, i) \<and> n_in s' = i \<and> n_sent s' = n_sent s \<and>
     n_sh s' = n_sh s \<and> n_pool s' = n_pool s"
  by (auto simp: net_in_def zoom_eq)

lemma net_sh_frame:
  "net_sh m s = (r, s') \<Longrightarrow> n_in s' = n_in s \<and> n_sent s' = n_sent s \<and> n_pool s' = n_pool s"
  by (auto simp: net_sh_def zoom_eq)

lemma net_os_frame:
  "net_os m s = (r, s') \<Longrightarrow> n_in s' = n_in s \<and> n_sent s' = n_sent s \<and> n_pool s' = n_pool s"
  unfolding net_os_def by (rule net_sh_frame)

lemma net_diag_frame:
  "net_diag g s = (r, s') \<Longrightarrow> r = Inr () \<and> n_in s' = n_in s \<and> n_sent s' = n_sent s \<and> n_pool s' = n_pool s"
  by (auto simp: net_diag_def net_sh_def zoom_eq with_diag_def)

lemma net_prog_frame:
  "net_prog g s = (r, s') \<Longrightarrow> r = Inr () \<and> n_in s' = n_in s \<and> n_sent s' = n_sent s \<and> n_pool s' = n_pool s"
  by (auto simp: net_prog_def)

lemma ignore_os_frame:
  "io_ignore (net_os m) s = (r, s') \<Longrightarrow>
   r = Inr () \<and> n_in s' = n_in s \<and> n_sent s' = n_sent s \<and> n_pool s' = n_pool s"
  by (auto simp: io_ignore_def net_os_def net_sh_def zoom_def split: prod.splits)

lemma tick_frame:
  "tick s = (r, s') \<Longrightarrow> (\<exists>b. r = Inr b) \<and> n_in s' = n_in s \<and> n_sent s' = n_sent s \<and>
     n_sh s' = n_sh s \<and> n_pool s' = n_pool s"
  unfolding tick_def by (cases "n_room s"; cases "the (n_room s)") auto

lemma pooled_recv_frame:
  "pooled_recv s = (r, s') \<Longrightarrow> n_in s' = n_in s \<and> n_sent s' = n_sent s"
  unfolding pooled_recv_def
  by (cases "n_pool s")
    (auto simp: net_diag_def net_sh_def zoom_def with_diag_def io_bind_def split: prod.splits if_splits)

lemma send_msg_frame:
  assumes "send_msg k m s = (r, s')"
  shows "n_in s' = n_in s \<and> n_pool s' = n_pool s \<and>
    (r = Inr () \<and> n_sent s' = n_sent s @ [m] \<or> r = Inl writer_gone \<and> n_sent s' = n_sent s)"
proof -
  obtain x t where x: "tick s = (x, t)" by (cases "tick s")
  from tick_frame [OF x] obtain b where b: "x = Inr b" "n_in t = n_in s" "n_sent t = n_sent s" "n_pool t = n_pool s"
    by blast
  show ?thesis
  proof (cases b)
    case True
    with assms x b show ?thesis by (auto simp: send_msg_def)
  next
    case False
    obtain y u where y: "net_sh (drop_msgs k [m]) t = (y, u)" by (cases "net_sh (drop_msgs k [m]) t")
    have "\<exists>v. y = Inr v"
      using y by (cases m) (auto simp: net_sh_def zoom_def io_bind_def drop_inflight_def io_ignore_def
        split: prod.splits if_splits sum.splits)
    with y net_sh_frame [OF y] assms x b False show ?thesis by (auto simp: send_msg_def)
  qed
qed

lemma recv_reply_frame:
  "recv_reply B s = (r, s') \<Longrightarrow> n_in s' = n_in s \<and> n_sent s' = n_sent s \<and>
     (\<forall>d. r = Inr d \<longrightarrow> d = last (snd (hash_loop B (b3_new B) (n_sent s))))"
  unfolding recv_reply_def io_bind_eq by (auto dest!: tick_frame split: if_splits)

lemma read_retry_ok:
  "read_retry want s = (Inr bs, s') \<Longrightarrow> staged_rem s = bs @ staged_rem s' \<and> length bs \<le> want"
proof -
  have "staged_rem s = bs @ staged_rem s' \<and> length bs \<le> want"
    if "read_retry_fuel fuel want s = (Inr bs, s')" for fuel s
    using that
  proof (induction fuel arbitrary: s)
    case (Suc fuel)
    obtain x t where x: "staged_read want s = (x, t)" by (cases "staged_read want s")
    show ?case
    proof (cases x)
      case (Inl err)
      with Suc x staged.rd_err [of want s err t] show ?thesis by (auto split: if_splits)
    next
      case (Inr cs)
      with Suc x staged.rd_ok [of want s cs t] show ?thesis by auto
    qed
  qed simp
  then show "read_retry want s = (Inr bs, s') \<Longrightarrow> staged_rem s = bs @ staged_rem s' \<and> length bs \<le> want"
    unfolding read_retry_def by blast
qed

lemma staged_read_exact_ok:
  "staged_read_exact n s = (Inr bs, s') \<Longrightarrow> length bs = n \<and> staged_rem s = bs @ staged_rem s'"
  unfolding staged_read_exact_def by (rule staged.re_ok)

lemma check_digest_frame:
  assumes "check_digest a p s = (r, s')"
  shows "n_sent s' = n_sent s \<and> (r = Inr () \<longrightarrow> staged_rem (n_in s) = a @ staged_rem (n_in s'))"
proof -
  obtain x t where x: "net_in (staged_read_exact DIGEST_LEN) s = (x, t)"
    by (cases "net_in (staged_read_exact DIGEST_LEN) s")
  note fx = net_in_frame [OF x]
  show ?thesis
  proof (cases x)
    case (Inl err)
    with assms x fx show ?thesis by (auto simp: check_digest_def)
  next
    case (Inr ex)
    with fx have "staged_read_exact DIGEST_LEN (n_in s) = (Inr ex, n_in t)" by simp
    note rd = staged_read_exact_ok [OF this]
    let ?g = "\<lambda>d. d\<lparr>d_socket_bytes := d_socket_bytes d + word_of_nat DIGEST_LEN\<rparr>"
    obtain u where u: "net_diag ?g t = (Inr (), u)" using net_diag_frame by (cases "net_diag ?g t") blast
    from assms x Inr u net_diag_frame [OF u] fx rd show ?thesis
      by (auto simp: check_digest_def split: if_splits)
  qed
qed

section \<open>Payloads\<close>

lemma pump_loop_log:
  "pump_loop turns k e remaining s = (r, s') \<Longrightarrow>
   \<exists>bufs. n_sent s' = n_sent s @ map data_msg bufs \<and>
     (r = Inr () \<longrightarrow> staged_rem (n_in s) = concat (map live_part bufs) @ staged_rem (n_in s') \<and>
        length (concat (map live_part bufs)) = unat remaining)"
proof (induction turns arbitrary: remaining s)
  case 0
  then show ?case
    by (cases "remaining = 0")
      (auto simp: pump_loop.simps [of 0] io_bind_eq dest!: pooled_recv_frame intro: exI [of _ "[]"])
next
  case (Suc turns)
  show ?case
  proof (cases "remaining = 0")
    case True
    with Suc.prems show ?thesis by (auto simp: pump_loop.simps intro: exI [of _ "[]"])
  next
    case False
    note p = Suc.prems [unfolded pump_loop.simps [of "Suc turns"] if_not_P [OF False] nat.case]
    obtain x t where x: "pooled_recv s = (x, t)" by (cases "pooled_recv s")
    note fx = pooled_recv_frame [OF x]
    show ?thesis
    proof (cases x)
      case (Inl err)
      with p x fx show ?thesis by (auto intro: exI [of _ "[]"])
    next
      case (Inr buf)
      let ?want = "min (unat remaining) (length buf)"
      obtain y u where y: "net_in (read_retry ?want) t = (y, u)" by (cases "net_in (read_retry ?want) t")
      note fy = net_in_frame [OF y]
      show ?thesis
      proof (cases y)
        case (Inl err)
        with p x Inr y fx fy show ?thesis by (auto intro: exI [of _ "[]"])
      next
        case (Inr bs)
        with fy have rd: "read_retry ?want (n_in t) = (Inr bs, n_in u)" by auto
        note rd = read_retry_ok [OF rd]
        show ?thesis
        proof (cases "bs = []")
          case True
          with p x \<open>x = Inr buf\<close> y Inr fx fy show ?thesis by (auto intro: exI [of _ "[]"])
        next
          case bs: False
          let ?n = "length bs"
          let ?g = "\<lambda>d. queued (d\<lparr>d_socket_bytes := d_socket_bytes d + word_of_nat ?n\<rparr>)"
          obtain v where v: "net_diag ?g u = (Inr (), v)"
            using net_diag_frame by (cases "net_diag ?g u") blast
          note fv = net_diag_frame [OF v]
          let ?m = "Data (bs @ drop ?n buf) ?n"
          obtain z w where z: "send_msg k ?m v = (z, w)" by (cases "send_msg k ?m v")
          note fz = send_msg_frame [OF z]
          show ?thesis
          proof (cases z)
            case (Inl err)
            with p x \<open>x = Inr buf\<close> y Inr bs v z fx fy fv fz show ?thesis
              by (auto simp: Let_def intro: exI [of _ "[]"])
          next
            case (Inr uu)
            obtain a where a: "net_prog (add_bytes (word_of_nat ?n)) w = (Inr (), a)"
              using net_prog_frame by (cases "net_prog (add_bytes (word_of_nat ?n)) w") blast
            note fa = net_prog_frame [OF a]
            from p x \<open>x = Inr buf\<close> y \<open>y = Inr bs\<close> bs v z Inr a
            have l: "pump_loop turns k e (remaining - word_of_nat ?n) a = (r, s')"
              by (simp add: Let_def)
            from Suc.IH [OF l] obtain bufs where
              b: "n_sent s' = n_sent a @ map data_msg bufs"
                "r = Inr () \<longrightarrow> staged_rem (n_in a) = concat (map live_part bufs) @ staged_rem (n_in s') \<and>
                  length (concat (map live_part bufs)) = unat (remaining - word_of_nat ?n)"
              by blast
            have le: "?n \<le> unat remaining" using rd by simp
            have un: "unat (remaining - word_of_nat ?n) = unat remaining - ?n"
            proof -
              have lt: "unat remaining < 2 ^ 64" using unsigned_less [of remaining, where ?'a = nat] by simp
              with le have "unat (word_of_nat ?n :: u64) = ?n" by simp
              moreover from this le have "word_of_nat ?n \<le> remaining" by (simp add: word_le_nat_alt)
              ultimately show ?thesis by (simp add: unat_sub)
            qed
            show ?thesis
              using b fx fy fv fz fa Inr rd un le
              by (intro exI [of _ "(bs @ drop ?n buf, ?n) # bufs"]) auto
          qed
        qed
      qed
    qed
  qed
qed

section \<open>Files\<close>

text \<open>The file in flight that an entry asks for, under a scratch name or its own.\<close>

definition file_of :: "fd \<Rightarrow> bytes \<Rightarrow> entry \<Rightarrow> inflight \<Rightarrow> bool" where
  "file_of dir name e f \<longleftrightarrow>
     if_parent f = dir \<and> if_mtime f = e_mtime e \<and> if_mode f = e_mode e \<and> \<not> if_finished f \<and>
     (if_final f = Some name \<and> (\<exists>r. if_name f = temp_name name r) \<or>
      if_final f = None \<and> if_name f = name)"

definition fin_msgs :: "bool \<Rightarrow> msg list" where
  "fin_msgs verify = (if verify then [Finish] else [])"

lemma create_payload_file_names:
  assumes "create_payload_file k d n mode s = (Inr (f, nm, final), s')" and g: "good_component n"
  shows "final = Some n \<and> (\<exists>r. nm = temp_name n r) \<or> final = None \<and> nm = n"
proof -
  obtain x t where x: "create_temp_file_at k d n mode s = (x, t)"
    by (cases "create_temp_file_at k d n mode s")
  show ?thesis
  proof (cases x)
    case (Inl err)
    with x assms(1) show ?thesis
      by (auto simp: create_payload_file_def io_bind_Inr split: if_splits)
  next
    case (Inr ft)
    obtain f' tmp where ft: "ft = (f', tmp)" by (cases ft)
    note t = create_temp_file_at_stays [where P = "\<lambda>_. True" and d = d and D = UNIV and F = UNIV and dest = "[]", OF _ g]
    from specE [OF t _ x [unfolded Inr]] x Inr ft assms(1) show ?thesis
      by (auto simp: create_payload_file_def has_dirs_def)
  qed
qed

lemma file_of_nul_free: "good_component name \<Longrightarrow> file_of dir name e f \<Longrightarrow> nul_free f \<and> fresh f"
  using temp_name_good [of name] by (auto simp: file_of_def nul_free_def fresh_def good_component_def)

text \<open>The file in flight, and the calls between two states that created it.\<close>

definition makes :: "fd \<Rightarrow> bytes \<Rightarrow> entry \<Rightarrow> 'w net \<Rightarrow> 'w net \<Rightarrow> inflight \<Rightarrow> bool" where
  "makes dir name e s s' f \<longleftrightarrow> file_of dir name e f \<and>
     (\<exists>seg b. trace (os_of s') = trace (os_of s) @ seg @ b \<and> creates dir name (e_mode e OR 0x180) seg f)"

lemma makes_grows: "makes dir name e s t f \<Longrightarrow> net_adds hands_off t s' \<Longrightarrow> makes dir name e s s' f"
  unfolding makes_def by (fastforce dest!: hands_off_grows)

text \<open>What follows the file's \<open>Begin\<close>.\<close>

definition pump_rest :: "'h blake3 \<Rightarrow> 'w kernel \<Rightarrow> entry \<Rightarrow> bool \<Rightarrow> ('w net, unit) op" where
  "pump_rest B k e verify =
     io_bind (\<lambda>s. pump_loop (length (n_pool s)) k e (e_size e) s) (\<lambda>_.
     io_bind (if verify
              then io_bind (send_msg k Finish) (\<lambda>_. io_bind (recv_reply B) (\<lambda>actual.
                     check_digest actual (e_path e)))
              else io_return ()) (\<lambda>_.
     send_msg k EndFile))"

definition verify_step :: "'h blake3 \<Rightarrow> 'w kernel \<Rightarrow> entry \<Rightarrow> bool \<Rightarrow> ('w net, unit) op" where
  "verify_step B k e verify =
     (if verify
      then io_bind (send_msg k Finish) (\<lambda>_. io_bind (recv_reply B) (\<lambda>actual.
             check_digest actual (e_path e)))
      else io_return ())"

lemma pump_rest_grows:
  assumes "pump_rest B k e verify s = (r, s')"
  shows "net_adds hands_off s s'"
proof -
  have l: "spec (net_adds hands_off) A (\<lambda>s. pump_loop (length (n_pool s)) k e (e_size e) s) (\<lambda>_ _. True)" for A
    by (rule specI) (use specD [OF keeps.pump_loop_r [where A = "\<lambda>_. True"]] in auto)
  have "spec (net_adds hands_off) (\<lambda>_. True) (pump_rest B k e verify) (\<lambda>_ _. True)"
    unfolding pump_rest_def
    by (intro keeps.r_bind spec_if keeps.r_send l keeps.r_quiet; simp)
  from specD [OF this _ assms] show ?thesis by simp
qed

lemma verify_step_log:
  assumes v: "verify_step B k e verify s = (r, s')" and B: "blake3_ok B absorbed"
  shows "(r = Inr () \<and> n_sent s' = n_sent s @ fin_msgs verify \<and>
      staged_rem (n_in s) = (if verify then digest B (since [] (n_sent s)) else []) @ staged_rem (n_in s'))
    \<or> ((\<exists>err. r = Inl err) \<and> no_fin (n_sent s') = no_fin (n_sent s))"
proof (cases verify)
  case False
  with v show ?thesis by (simp add: verify_step_def fin_msgs_def)
next
  case True
  obtain x t where x: "send_msg k Finish s = (x, t)" by (cases "send_msg k Finish s")
  note fx = send_msg_frame [OF x]
  show ?thesis
  proof (cases x)
    case (Inl err)
    with v x fx True show ?thesis by (auto simp: verify_step_def)
  next
    case (Inr u)
    with fx have t: "n_in t = n_in s" "n_sent t = n_sent s @ [Finish]" by auto
    obtain y w where y: "recv_reply B t = (y, w)" by (cases "recv_reply B t")
    note fy = recv_reply_frame [OF y]
    show ?thesis
    proof (cases y)
      case (Inl err)
      with v x y Inr t fy True show ?thesis by (auto simp: verify_step_def)
    next
      case (Inr d)
      with fy t have d: "d = digest B (since [] (n_sent s))" by (simp add: last_reply [OF B])
      from v x \<open>x = Inr u\<close> y Inr True have c: "check_digest d (e_path e) w = (r, s')"
        by (simp add: verify_step_def)
      note fc = check_digest_frame [OF c]
      show ?thesis
        using fc t fy d True by (cases r) (auto simp: fin_msgs_def)
    qed
  qed
qed

lemma pump_rest_log:
  assumes p: "pump_rest B k e verify s = (r, s')" and B: "blake3_ok B absorbed"
    and z: "verify \<longrightarrow> since [] (n_sent s) = []"
  shows "\<exists>bufs.
      (r = Inr () \<and> n_sent s' = n_sent s @ map data_msg bufs @ fin_msgs verify @ [EndFile] \<and>
       length (concat (map live_part bufs)) = unat (e_size e) \<and>
       staged_rem (n_in s) = concat (map live_part bufs) @
         (if verify then digest B (concat (map live_part bufs)) else []) @ staged_rem (n_in s'))
    \<or> ((\<exists>err. r = Inl err) \<and> no_fin (n_sent s') = no_fin (n_sent s) @ map data_msg bufs)"
proof -
  obtain x t where x: "pump_loop (length (n_pool s)) k e (e_size e) s = (x, t)"
    by (cases "pump_loop (length (n_pool s)) k e (e_size e) s")
  from pump_loop_log [OF x] obtain bufs where
    b: "n_sent t = n_sent s @ map data_msg bufs"
      "x = Inr () \<longrightarrow> staged_rem (n_in s) = concat (map live_part bufs) @ staged_rem (n_in t) \<and>
        length (concat (map live_part bufs)) = unat (e_size e)"
    by blast
  show ?thesis
  proof (cases x)
    case (Inl err)
    with p x b show ?thesis by (intro exI [of _ bufs]) (auto simp: pump_rest_def)
  next
    case (Inr u)
    obtain y w where y: "verify_step B k e verify t = (y, w)" by (cases "verify_step B k e verify t")
    have since: "verify \<longrightarrow> since [] (n_sent t) = concat (map live_part bufs)" using b z by simp
    from p x Inr have pr: "io_bind (verify_step B k e verify) (\<lambda>_. send_msg k EndFile) t = (r, s')"
      by (simp add: pump_rest_def verify_step_def)
    note fy = verify_step_log [OF y B]
    show ?thesis
    proof (cases y)
      case (Inl err)
      with pr y fy b show ?thesis by (intro exI [of _ bufs]) auto
    next
      case (Inr v)
      with pr y have "send_msg k EndFile w = (r, s')" by simp
      note fe = send_msg_frame [OF this]
      show ?thesis
        using fe fy Inr b \<open>x = Inr u\<close> since
        by (intro exI [of _ bufs]) (auto simp: fin_msgs_def)
    qed
  qed
qed

lemma pump_file_log:
  assumes p: "pump_file B k dir name e verify s = (r, s')" and B: "blake3_ok B absorbed"
    and z: "verify \<longrightarrow> since [] (n_sent s) = []" and g: "good_component name"
  shows "(\<exists>f bufs. r = Inr () \<and>
       n_sent s' = n_sent s @ Begin f # map data_msg bufs @ fin_msgs verify @ [EndFile] \<and>
       makes dir name e s s' f \<and> length (concat (map live_part bufs)) = unat (e_size e) \<and>
       staged_rem (n_in s) = concat (map live_part bufs) @
         (if verify then digest B (concat (map live_part bufs)) else []) @ staged_rem (n_in s'))
    \<or> ((\<exists>err. r = Inl err) \<and> (\<exists>part. no_fin (n_sent s') = no_fin (n_sent s) @ partial_msgs part \<and>
        (\<forall>f bufs. part = Some (f, bufs) \<longrightarrow> makes dir name e s s' f)))"
proof -
  let ?c = "net_os (create_payload_file k dir name (e_mode e OR 0x180))"
  obtain x t where x: "?c s = (x, t)" by (cases "?c s")
  note fx = net_os_frame [OF x]
  show ?thesis
  proof (cases x)
    case (Inl err)
    with p x fx show ?thesis by (auto simp: pump_file_def intro!: exI [of _ None])
  next
    case (Inr v)
    obtain fl nm final where v: "v = (fl, nm, final)" by (cases v)
    from net_os_state [OF x] Inr v obtain o' where
      o': "create_payload_file k dir name (e_mode e OR 0x180) (os_of s) = (Inr (fl, nm, final), o')" "os_of t = o'"
      by auto
    note names = create_payload_file_names [OF o'(1) g]
    let ?nc = "if NOCACHE_MIN \<le> e_size e then io_ignore (net_os (set_nocache k fl)) else io_return ()"
    have nc: "spec (net_adds hands_off) (\<lambda>_. True) ?nc (\<lambda>_ _. True)"
      unfolding set_nocache_def by (intro spec_if keeps.r_ignore keeps.r_os call_unit_adds keeps.r_quiet) simp_all
    obtain u where u: "?nc t = (Inr (), u)" "n_in u = n_in t" "n_sent u = n_sent t"
    proof (cases "NOCACHE_MIN \<le> e_size e")
      case True
      then show ?thesis
        using ignore_os_frame [of "set_nocache k fl" t] that
        by (cases "io_ignore (net_os (set_nocache k fl)) t") auto
    qed (use that in simp)
    let ?f = "\<lparr>if_file = fl, if_parent = dir, if_name = nm, if_final = final,
                if_mtime = e_mtime e, if_mode = e_mode e, if_finished = False\<rparr>"
    have "file_of dir name e ?f" using names by (auto simp: file_of_def)
    moreover from create_payload_log [OF o'(1) g] obtain seg where
      "trace o' = trace (os_of s) @ seg" "creates dir name (e_mode e OR 0x180) seg ?f" by auto
    ultimately have "makes dir name e s t ?f" using o'(2) unfolding makes_def by auto
    with specD [OF nc _ u(1)] have mk: "makes dir name e s u ?f" using makes_grows by blast
    obtain y w where y: "send_msg k (Begin ?f) u = (y, w)" by (cases "send_msg k (Begin ?f) u")
    note fy = send_msg_frame [OF y]
    from specD [OF keeps.r_send [where P = "\<lambda>_. True"] _ y] mk have mk: "makes dir name e s w ?f"
      using makes_grows by blast
    show ?thesis
    proof (cases y)
      case (Inl err)
      with p x \<open>x = Inr v\<close> v u y fx fy show ?thesis
        by (auto simp: pump_file_def intro!: exI [of _ None])
    next
      case (Inr yy)
      with fy u fx have w: "n_in w = n_in s" "n_sent w = n_sent s @ [Begin ?f]" by auto
      from p x \<open>x = Inr v\<close> v u(1) y Inr have "pump_rest B k e verify w = (r, s')"
        by (simp add: pump_file_def pump_rest_def)
      with pump_rest_grows mk have mk: "makes dir name e s s' ?f" using makes_grows by blast
      have "verify \<longrightarrow> since [] (n_sent w) = []" using w z by simp
      from pump_rest_log [OF \<open>pump_rest B k e verify w = (r, s')\<close> B this] obtain bufs where
        "(r = Inr () \<and> n_sent s' = n_sent w @ map data_msg bufs @ fin_msgs verify @ [EndFile] \<and>
         length (concat (map live_part bufs)) = unat (e_size e) \<and>
         staged_rem (n_in w) = concat (map live_part bufs) @
           (if verify then digest B (concat (map live_part bufs)) else []) @ staged_rem (n_in s'))
        \<or> ((\<exists>err. r = Inl err) \<and> no_fin (n_sent s') = no_fin (n_sent w) @ map data_msg bufs)"
        by blast
      then show ?thesis
      proof (elim disjE conjE)
        assume "\<exists>err. r = Inl err" "no_fin (n_sent s') = no_fin (n_sent w) @ map data_msg bufs"
        with w mk show ?thesis by (intro disjI2 conjI exI [of _ "Some (?f, bufs)"]) auto
      qed (use w mk in auto)
    qed
  qed
qed

end
