(* ===== verification/NetLog.thy ===== *)
theory NetLog
  imports NetFun
begin

text \<open>
  The entry loop as a whole: what it sent, what it read for it, what it counted, and that
  its fuel is never what stops it.
\<close>

section \<open>The stream is only ever consumed\<close>

text \<open>Bytes are taken from the front of what is left to read, and nothing is written.\<close>

abbreviation same_out :: "staged \<Rightarrow> staged \<Rightarrow> bool" where
  "same_out s s' \<equiv> outgoing (s_stream s') = outgoing (s_stream s) \<and>
     write_events (s_stream s') = write_events (s_stream s)"

abbreviation eats :: "staged \<Rightarrow> staged \<Rightarrow> bool" where
  "eats s s' \<equiv> (\<exists>bs. staged_rem s = bs @ staged_rem s') \<and> same_out s s'"

lemma staged_read_outgoing: "staged_read n s = (r, s') \<Longrightarrow> same_out s s'"
  by (auto simp: staged_read_def sock_read_def staged_copy_def Let_def
      split: if_splits prod.splits sum.splits list.splits sock_event.splits)

lemma read_exact_outgoing:
  "read_exact_fuel fuel staged_read n s = (r, s') \<Longrightarrow> same_out s s'"
proof (induction fuel arbitrary: n s r)
  case (Suc fuel)
  obtain x t where x: "staged_read n s = (x, t)" by (cases "staged_read n s")
  have more: "same_out s s'"
    if "read_exact_fuel fuel staged_read m t = (y, s')" for m y
    using Suc.IH [OF that] staged_read_outgoing [OF x] by simp
  show ?case
    using Suc.prems x staged_read_outgoing [OF x] more
    by (cases x) (auto split: if_splits prod.splits sum.splits)
qed simp

interpretation eats: effect eats
proof
  fix s t u assume "eats s t" "eats t u"
  then show "eats s u" by (metis (no_types, lifting) append.assoc)
qed auto

lemma staged_read_exact_eats: "spec eats P (staged_read_exact n) (\<lambda>_ _. True)"
proof (rule specI)
  fix s r s' assume "staged_read_exact n s = (r, s')"
  then show "eats s s' \<and> (\<forall>v. r = Inr v \<longrightarrow> True)"
    unfolding staged_read_exact_def using staged.read_exact_fuel_suffix read_exact_outgoing by blast
qed

lemma entry_decode_eats: "spec eats P (entry_decode staged_read_exact) (\<lambda>_ _. True)"
  unfolding entry_decode_def Let_def
  by (intro eats.spec_bind [OF staged_read_exact_eats] spec_case_option spec_if eats.spec_return
      eats.spec_throw) simp_all

text \<open>The same for the network thread, which reads only through these.\<close>

abbreviation net_eats :: "'w net \<Rightarrow> 'w net \<Rightarrow> bool" where
  "net_eats s s' \<equiv> eats (n_in s) (n_in s')"

interpretation net_eats: effect net_eats
proof
  fix s t u :: "'w net" assume "net_eats s t" "net_eats t u"
  then show "net_eats s u" by (rule eats.trans)
qed auto

definition still :: "('w net, 'a) op \<Rightarrow> bool" where
  "still m \<longleftrightarrow> (\<forall>s r s'. m s = (r, s') \<longrightarrow> n_in s' = n_in s)"

lemma still_eats: "still m \<Longrightarrow> spec net_eats P m (\<lambda>_ _. True)"
  unfolding still_def by (rule specI) simp

lemma still_simps [simp]:
  "still (net_os m1)" "still (net_sh m2)" "still (net_diag g)" "still (net_prog f)" "still tick"
  "still pooled_recv" "still (send_msg k m)" "still (recv_reply B)" "still (io_ignore (net_os m3))"
  "still (io_return v)" "still (io_throw e)"
  unfolding still_def
  by (auto dest: net_os_frame net_sh_frame net_diag_frame net_prog_frame tick_frame
      pooled_recv_frame send_msg_frame recv_reply_frame ignore_os_frame)

lemma net_in_eats: "spec eats (\<lambda>_. True) m Q \<Longrightarrow> spec net_eats P (net_in m) (\<lambda>_ _. True)"
  by (rule specI) (auto dest!: net_in_frame dest: specD)

lemma eats_bind:
  "spec net_eats P m (\<lambda>_ _. True) \<Longrightarrow> (\<And>v. spec net_eats (\<lambda>_. True) (f v) (\<lambda>_ _. True)) \<Longrightarrow>
   spec net_eats P (io_bind m f) (\<lambda>_ _. True)"
  by (rule net_eats.spec_bind)

lemma check_digest_eats: "spec net_eats P (check_digest a p) (\<lambda>_ _. True)"
  unfolding check_digest_def
  by (intro eats_bind net_in_eats [OF staged_read_exact_eats] spec_if still_eats) simp_all

lemma read_retry_eats: "spec eats P (read_retry want) (\<lambda>_ _. True)"
proof (rule specI)
  have *: "eats s s'" if "read_retry_fuel fuel want s = (r, s')" for fuel s s' r
    using that
  proof (induction fuel arbitrary: s)
    case (Suc fuel)
    obtain x t where x: "staged_read want s = (x, t)" by (cases "staged_read want s")
    show ?case
    proof (cases x)
      case (Inl err)
      with x staged.rd_err [of want s err t] staged_read_outgoing [OF x] have
        t: "staged_rem t = staged_rem s" "same_out s t" by simp_all
      from Suc.prems x Inl consider "s' = t" | "read_retry_fuel fuel want t = (r, s')"
        by (auto split: if_splits)
      then show ?thesis
      proof cases
        case 1
        with t show ?thesis by simp
      next
        case 2
        from Suc.IH [OF 2] show ?thesis by (simp only: t)
      qed
    next
      case (Inr cs)
      with Suc x staged.rd_ok [of want s cs t] staged_read_outgoing [OF x] show ?thesis by auto
    qed
  qed simp
  fix s r s' assume "read_retry want s = (r, s')"
  then show "eats s s' \<and> (\<forall>v. r = Inr v \<longrightarrow> True)" unfolding read_retry_def using * by blast
qed

lemma pump_loop_eats: "spec net_eats P (pump_loop turns k e remaining) (\<lambda>_ _. True)"
proof (induction turns arbitrary: P remaining)
  case 0
  show ?case unfolding pump_loop.simps [of 0] nat.case
    by (intro spec_if eats_bind still_eats) simp_all
next
  case (Suc turns)
  show ?case unfolding pump_loop.simps [of "Suc turns"] nat.case Let_def
    by (intro spec_if eats_bind net_in_eats [OF read_retry_eats] Suc still_eats) simp_all
qed

lemma pump_file_eats: "spec net_eats P (pump_file B k dir name e verify) (\<lambda>_ _. True)"
proof -
  have l: "spec net_eats P (\<lambda>s. pump_loop (length (n_pool s)) k e (e_size e) s) (\<lambda>_ _. True)" for P
    by (rule specI) (use specD [OF pump_loop_eats [of "\<lambda>_. True"]] in blast)
  show ?thesis
    unfolding pump_file_def case_prod_beta
    by (intro eats_bind l spec_if check_digest_eats still_eats) simp_all
qed

lemma recv_entry_eats: "spec net_eats P (recv_entry B k root verify cache e) (\<lambda>_ _. True)"
proof -
  have d: "spec net_eats P (recv_dir k dir name e) (\<lambda>_ _. True)" for P dir name
    unfolding recv_dir_def by (intro eats_bind still_eats) simp_all
  have s: "spec net_eats P (recv_symlink B k dir name e verify) (\<lambda>_ _. True)" for P dir name
    unfolding recv_symlink_def
    by (intro eats_bind net_in_eats [OF staged_read_exact_eats] spec_if check_digest_eats still_eats) simp_all
  have f: "spec net_eats P (recv_file B k dir name e verify) (\<lambda>_ _. True)" for P dir name
    unfolding recv_file_def by (intro eats_bind pump_file_eats still_eats) simp_all
  have "spec net_eats P (case e_kind e of
                     Dir \<Rightarrow> recv_dir k dir name e
                   | Symlink \<Rightarrow> recv_symlink B k dir name e verify
                   | File \<Rightarrow> recv_file B k dir name e verify
                   | End \<Rightarrow> io_return 0) (\<lambda>_ _. True)" for P dir name
    by (cases "e_kind e") (auto intro: d s f still_eats simp del: io_return_simp)
  note kinds = this
  show ?thesis
    unfolding recv_entry_def Let_def case_prod_beta
    by (intro spec_case_sum eats_bind kinds; (rule still_eats, simp)?)
qed

text \<open>So the fuel is enough: more of it changes nothing.\<close>

lemma decode_shrinks:
  assumes "net_in (entry_decode staged_read_exact) s = (Inr (Some e), t)"
  shows "length (staged_rem (n_in t)) < length (staged_rem (n_in s))"
proof -
  from net_in_frame [OF assms] have "entry_decode staged_read_exact (n_in s) = (Inr (Some e), n_in t)"
    by auto
  from staged.decode_canonical [OF this] show ?thesis by (auto simp: length_entry_encode)
qed

lemma entries_loop_fuel:
  "length (staged_rem (n_in s)) < fuel \<Longrightarrow> length (staged_rem (n_in s)) < fuel' \<Longrightarrow>
   entries_loop fuel B k root verify cache st s = entries_loop fuel' B k root verify cache st s"
proof (induction fuel arbitrary: fuel' cache st s)
  case (Suc fuel)
  then obtain n where n: "fuel' = Suc n" by (cases fuel') auto
  obtain x t where x: "net_in (entry_decode staged_read_exact) s = (x, t)"
    by (cases "net_in (entry_decode staged_read_exact) s")
  show ?case
  proof (cases "\<exists>e. x = Inr (Some e)")
    case False
    with x n show ?thesis by (cases x) (auto split: option.splits)
  next
    case True
    then obtain e where e: "x = Inr (Some e)" by blast
    with x decode_shrinks have lt: "length (staged_rem (n_in t)) < length (staged_rem (n_in s))" by blast
    obtain y u where y: "recv_entry B k root verify cache e t = (y, u)"
      by (cases "recv_entry B k root verify cache e t")
    from specD [OF recv_entry_eats [of "\<lambda>_. True"] _ y]
    have "length (staged_rem (n_in u)) \<le> length (staged_rem (n_in t))" by auto
    with lt Suc.prems n have "length (staged_rem (n_in u)) < fuel" "length (staged_rem (n_in u)) < n"
      by auto
    from Suc.IH [OF this] x e y n show ?thesis by (cases y) auto
  qed
qed simp

section \<open>What was read and what was sent\<close>

text \<open>
  An item is an entry with the bytes that followed its header: a file's contents, a
  link's target, nothing for a directory. \<open>frame\<close> is its form on the wire.
\<close>

type_synonym item = "entry \<times> bytes"

definition trailer :: "'h blake3 \<Rightarrow> bool \<Rightarrow> item \<Rightarrow> bytes" where
  "trailer B verify it = (if verify \<and> e_kind (fst it) \<noteq> Dir then digest B (snd it) else [])"

definition frame :: "'h blake3 \<Rightarrow> bool \<Rightarrow> item \<Rightarrow> bytes" where
  "frame B verify it = entry_encode (fst it) @ snd it @ trailer B verify it"

definition payload_len :: "entry \<Rightarrow> nat" where
  "payload_len e = (if e_kind e = Dir then 0 else unat (e_size e))"

definition moved_bytes :: "entry \<Rightarrow> u64" where
  "moved_bytes e = (if e_kind e = Dir then 0 else e_size e)"

definition wf_item :: "item \<Rightarrow> bool" where
  "wf_item it \<longleftrightarrow> wf_entry (fst it) \<and> length (snd it) = payload_len (fst it)"

text \<open>A refused path ends the session, so an item that was received has components.\<close>

definition safe_item :: "item \<Rightarrow> bool" where
  "safe_item it \<longleftrightarrow> (\<exists>cs. sanitize (e_path (fst it)) = Inr cs)"

definition count_item :: "stats \<Rightarrow> item \<Rightarrow> stats" where
  "count_item st it =
     st\<lparr>st_files := st_files st + 1, st_bytes := st_bytes st + moved_bytes (fst it)\<rparr>"

text \<open>
  The file in flight that an entry asked for: the log \<open>tr\<close> opened the directory that the
  entry's path names below the destination, and created the file there. It carries an item
  when its buffers hold the payload.
\<close>

definition begins :: "bytes \<Rightarrow> (syscall \<times> reply) list \<Rightarrow> entry \<Rightarrow> inflight \<Rightarrow> bool" where
  "begins dest tr e f \<longleftrightarrow>
     (\<exists>cs. sanitize (e_path e) = Inr cs \<and> file_of (if_parent f) (last cs) e f \<and>
        placed dest tr cs (e_mode e OR 0x180) f)"

definition carries ::
  "bytes \<Rightarrow> (syscall \<times> reply) list \<Rightarrow> item \<Rightarrow> inflight \<times> (bytes \<times> nat) list \<Rightarrow> bool" where
  "carries dest tr it fb \<longleftrightarrow> begins dest tr (fst it) (fst fb) \<and> concat (map live_part (snd fb)) = snd it"

text \<open>The same for the file a failed session leaves unfinished.\<close>

definition begins_part ::
  "bytes \<Rightarrow> (syscall \<times> reply) list \<Rightarrow> (inflight \<times> (bytes \<times> nat) list) option \<Rightarrow> bool" where
  "begins_part dest tr part \<longleftrightarrow> (\<forall>f bufs. part = Some (f, bufs) \<longrightarrow> (\<exists>e. begins dest tr e f))"

definition complete_msgs :: "bool \<Rightarrow> inflight \<times> (bytes \<times> nat) list \<Rightarrow> msg list" where
  "complete_msgs verify fb = Begin (fst fb) # map data_msg (snd fb) @ fin_msgs verify @ [EndFile]"

lemma begins_part_None [simp]: "begins_part dest tr None"
  by (simp add: begins_part_def)

lemma begins_mono: "begins dest tr e f \<Longrightarrow> begins dest (a @ tr @ b) e f"
  unfolding begins_def using placed_later placed_before by blast

lemma carries_mono: "carries dest tr it fb \<Longrightarrow> carries dest (a @ tr @ b) it fb"
  unfolding carries_def using begins_mono by blast

lemma begins_part_mono: "begins_part dest tr part \<Longrightarrow> begins_part dest (a @ tr @ b) part"
  unfolding begins_part_def using begins_mono by blast

lemma carries_grows:
  "carries dest (log_from n (os_of s)) it fb \<Longrightarrow> net_adds hands_off s s' \<Longrightarrow> started n (os_of s) \<Longrightarrow>
   carries dest (log_from n (os_of s')) it fb"
  using carries_mono [where a = "[]"] by (fastforce dest!: hands_off_grows simp: log_from_append)

lemma begins_part_grows:
  "begins_part dest (log_from n (os_of s)) part \<Longrightarrow> net_adds hands_off s s' \<Longrightarrow> started n (os_of s) \<Longrightarrow>
   begins_part dest (log_from n (os_of s')) part"
  using begins_part_mono [where a = "[]"] by (fastforce dest!: hands_off_grows simp: log_from_append)

lemma begins_nul_free: "begins dest tr e f \<Longrightarrow> nul_free f \<and> fresh f"
  unfolding begins_def
proof (elim conjE exE)
  fix cs assume "sanitize (e_path e) = Inr cs" "file_of (if_parent f) (last cs) e f"
  moreover from this have "good_component (last cs)"
    using sanitize_components by (metis last_in_set)
  ultimately show ?thesis using file_of_nul_free by blast
qed

lemma carries_nul_free: "carries dest tr it fb \<Longrightarrow> nul_free (fst fb) \<and> fresh (fst fb)"
  unfolding carries_def using begins_nul_free by blast

text \<open>What was made in an open directory is placed there.\<close>

lemma makes_begins:
  assumes "makes dir (last cs) e s s' f" and "sanitize (e_path e) = Inr cs"
    and "stands dest n (butlast cs) dir (os_of s)"
  shows "begins dest (log_from n (os_of s')) e f"
proof -
  from assms(1) obtain seg b where f: "file_of dir (last cs) e f"
      "trace (os_of s') = trace (os_of s) @ seg @ b" "creates dir (last cs) (e_mode e OR 0x180) seg f"
    unfolding makes_def by blast
  then have d: "if_parent f = dir" by (simp add: file_of_def)
  with f assms(3) have "placed dest (log_from n (os_of s')) cs (e_mode e OR 0x180) f"
    by (intro placedI [where n = n and s = "os_of s" and s' = "os_of s'" and seg = seg and b = b]) simp_all
  with f(1) d assms(2) show ?thesis unfolding begins_def by blast
qed

lemma no_fin_complete: "no_fin (complete_msgs verify fb) = file_msgs (fst fb) (snd fb)"
  by (simp add: complete_msgs_def file_msgs_def fin_msgs_def)

lemma since_complete: "verify \<Longrightarrow> since acc (complete_msgs verify fb) = []"
  by (simp add: complete_msgs_def fin_msgs_def)

text \<open>One entry.\<close>

definition entry_done ::
  "bytes \<Rightarrow> nat \<Rightarrow> 'h blake3 \<Rightarrow> bool \<Rightarrow> entry \<Rightarrow> bytes \<Rightarrow> 'w net \<Rightarrow> 'w net \<Rightarrow> bool" where
  "entry_done dest n B verify e pay s s' \<longleftrightarrow>
     length pay = payload_len e \<and> safe_item (e, pay) \<and>
     staged_rem (n_in s) = pay @ trailer B verify (e, pay) @ staged_rem (n_in s') \<and>
     (if e_kind e = File
      then \<exists>fb. carries dest (log_from n (os_of s')) (e, pay) fb \<and> n_sent s' = n_sent s @ complete_msgs verify fb
      else n_sent s' = n_sent s)"

lemma silent_bind:
  assumes "io_bind m f s = (r, s')" and "\<And>x t. m s = (x, t) \<Longrightarrow> n_in t = n_in s \<and> n_sent t = n_sent s"
  shows "(\<exists>err. r = Inl err) \<and> n_sent s' = n_sent s \<or>
    (\<exists>a t. m s = (Inr a, t) \<and> f a t = (r, s') \<and> n_in t = n_in s \<and> n_sent t = n_sent s)"
  using assms unfolding io_bind_eq by blast

lemma recv_dir_log:
  assumes "recv_dir k dir name e s = (r, s')"
  shows "n_in s' = n_in s \<and> n_sent s' = n_sent s \<and> (\<forall>v. r = Inr v \<longrightarrow> v = 0)"
  using assms unfolding recv_dir_def io_bind_eq
  by (auto dest!: net_os_frame net_sh_frame ignore_os_frame net_diag_frame)

lemma recv_symlink_log:
  assumes "recv_symlink B k dir name e verify s = (r, s')"
  shows "n_sent s' = n_sent s \<and> (\<forall>v. r = Inr v \<longrightarrow> v = e_size e \<and>
    (\<exists>pay. length pay = unat (e_size e) \<and>
       staged_rem (n_in s) = pay @ (if verify then digest B pay else []) @ staged_rem (n_in s')))"
proof -
  let ?rest = "\<lambda>target. io_bind (io_ignore (net_os (unlink_at k dir name))) (\<lambda>_.
       io_bind (net_os (symlink_at k target dir name)) (\<lambda>_.
       io_bind (io_ignore (net_os (set_mtime_at k dir name (e_mtime e)))) (\<lambda>_.
       io_bind (net_sh (register_parent k dir)) (\<lambda>_.
       io_bind (net_diag (\<lambda>d. d\<lparr>d_symlinks := d_symlinks d + 1,
                                d_socket_bytes := d_socket_bytes d + e_size e\<rparr>)) (\<lambda>_.
       io_return (e_size e))))))"
  have rest: "n_in s' = n_in u \<and> n_sent s' = n_sent u \<and> (\<forall>v. r = Inr v \<longrightarrow> v = e_size e)"
    if "?rest target u = (r, s')" for target u
    using that unfolding io_bind_eq
    by (auto dest!: net_os_frame net_sh_frame ignore_os_frame net_diag_frame)
  obtain x t where x: "net_in (staged_read_exact (unat (e_size e))) s = (x, t)"
    by (cases "net_in (staged_read_exact (unat (e_size e))) s")
  note fx = net_in_frame [OF x]
  show ?thesis
  proof (cases x)
    case (Inl err)
    with assms x fx show ?thesis by (auto simp: recv_symlink_def)
  next
    case (Inr pay)
    from fx Inr have "staged_read_exact (unat (e_size e)) (n_in s) = (Inr pay, n_in t)" by simp
    note rd = staged_read_exact_ok [OF this]
    let ?chk = "if verify then check_digest (digest B pay) (e_path e) else io_return ()"
    obtain y u where y: "?chk t = (y, u)" by (cases "?chk t")
    have fy: "n_sent u = n_sent t \<and> (y = Inr () \<longrightarrow>
        staged_rem (n_in t) = (if verify then digest B pay else []) @ staged_rem (n_in u))"
      using y check_digest_frame [of "digest B pay" "e_path e" t y u] by (cases verify) auto
    show ?thesis
    proof (cases y)
      case (Inl err)
      with assms x \<open>x = Inr pay\<close> y fx fy show ?thesis by (auto simp: recv_symlink_def)
    next
      case (Inr v)
      with assms x \<open>x = Inr pay\<close> y
      have "(if \<not> utf8_valid pay then io_throw (IoError InvalidData LinkNotUtf8) else ?rest pay) u = (r, s')"
        by (simp add: recv_symlink_def)
      with rest [of pay u] rd fx fy Inr show ?thesis by (auto split: if_splits)
    qed
  qed
qed

lemma recv_file_log:
  assumes p: "recv_file B k dir name e verify s = (r, s')" and B: "blake3_ok B absorbed"
    and z: "verify \<longrightarrow> since [] (n_sent s) = []" and g: "good_component name"
  shows "(\<exists>f bufs. r = Inr (e_size e) \<and> n_sent s' = n_sent s @ complete_msgs verify (f, bufs) \<and>
       makes dir name e s s' f \<and> length (concat (map live_part bufs)) = unat (e_size e) \<and>
       staged_rem (n_in s) = concat (map live_part bufs) @
         (if verify then digest B (concat (map live_part bufs)) else []) @ staged_rem (n_in s'))
    \<or> ((\<exists>err. r = Inl err) \<and> (\<exists>part. no_fin (n_sent s') = no_fin (n_sent s) @ partial_msgs part \<and>
        (\<forall>f bufs. part = Some (f, bufs) \<longrightarrow> makes dir name e s s' f)))"
proof -
  obtain x t where x: "pump_file B k dir name e verify s = (x, t)"
    by (cases "pump_file B k dir name e verify s")
  note fx = pump_file_log [OF x B z g]
  show ?thesis
  proof (cases x)
    case (Inl err)
    with p x fx show ?thesis by (auto simp: recv_file_def)
  next
    case (Inr v)
    obtain u where u: "net_diag (\<lambda>d. d\<lparr>d_files := d_files d + 1\<rparr>) t = (Inr (), u)"
      using net_diag_frame by (cases "net_diag (\<lambda>d. d\<lparr>d_files := d_files d + 1\<rparr>) t") blast
    from p x Inr u have "r = Inr (e_size e)" "s' = u" by (auto simp: recv_file_def)
    moreover have "net_adds hands_off t u"
      using specD [OF keeps.r_quiet [OF inert_simps(3), where P = "\<lambda>_. True"] TrueI u] by simp
    ultimately show ?thesis
      using fx Inr net_diag_frame [OF u] makes_grows [of dir name e s t _ u] by (auto simp: complete_msgs_def) blast
  qed
qed

text \<open>What the kind of an entry makes of its payload, and then the entry.\<close>

lemma recv_body_log:
  assumes y: "(case e_kind e of
        Dir \<Rightarrow> recv_dir k dir (last cs) e
      | Symlink \<Rightarrow> recv_symlink B k dir (last cs) e verify
      | File \<Rightarrow> recv_file B k dir (last cs) e verify
      | End \<Rightarrow> io_return 0) u = (y, w)" and B: "blake3_ok B absorbed"
    and z: "verify \<longrightarrow> since [] (n_sent u) = []" and k: "e_kind e \<noteq> End" and cs: "sanitize (e_path e) = Inr cs"
    and d: "stands dest n (butlast cs) dir (os_of u)"
  shows "(\<exists>pay. y = Inr (moved_bytes e) \<and> entry_done dest n B verify e pay u w)
    \<or> ((\<exists>err. y = Inl err) \<and> (\<exists>part. no_fin (n_sent w) = no_fin (n_sent u) @ partial_msgs part \<and>
        begins_part dest (log_from n (os_of w)) part))"
proof (cases "e_kind e")
  case End
  with k show ?thesis by simp
next
  case Dir
  with y have "recv_dir k dir (last cs) e u = (y, w)" by simp
  from recv_dir_log [OF this] Dir cs show ?thesis
    by (cases y) (auto simp: moved_bytes_def entry_done_def payload_len_def safe_item_def trailer_def
        intro!: exI [of _ "[]"] exI [of _ None])
next
  case Symlink
  with y have "recv_symlink B k dir (last cs) e verify u = (y, w)" by simp
  note f = recv_symlink_log [OF this]
  show ?thesis
  proof (cases y)
    case (Inl err)
    with f show ?thesis by (auto intro!: exI [of _ None])
  next
    case (Inr m)
    with f obtain pay where "m = e_size e" "length pay = unat (e_size e)"
      "staged_rem (n_in u) = pay @ (if verify then digest B pay else []) @ staged_rem (n_in w)"
      "n_sent w = n_sent u" by blast
    with Inr Symlink cs show ?thesis
      by (intro disjI1 exI [of _ pay])
        (auto simp: moved_bytes_def entry_done_def payload_len_def safe_item_def trailer_def)
  qed
next
  case File
  from sanitize_components [OF cs] have g: "good_component (last cs)" by (metis last_in_set)
  from File y have "recv_file B k dir (last cs) e verify u = (y, w)" by simp
  from recv_file_log [OF this B z g]
  consider (ok) f bufs where "y = Inr (e_size e)" "n_sent w = n_sent u @ complete_msgs verify (f, bufs)"
      "makes dir (last cs) e u w f" "length (concat (map live_part bufs)) = unat (e_size e)"
      "staged_rem (n_in u) = concat (map live_part bufs) @
        (if verify then digest B (concat (map live_part bufs)) else []) @ staged_rem (n_in w)"
    | (bad) err part where "y = Inl err" "no_fin (n_sent w) = no_fin (n_sent u) @ partial_msgs part"
      "\<forall>f bufs. part = Some (f, bufs) \<longrightarrow> makes dir (last cs) e u w f"
    by blast
  then show ?thesis
  proof cases
    case bad
    then have "begins_part dest (log_from n (os_of w)) part"
      unfolding begins_part_def using makes_begins [OF _ cs d] by blast
    with bad show ?thesis by blast
  next
    case ok
    let ?pay = "concat (map live_part bufs)"
    have "carries dest (log_from n (os_of w)) (e, ?pay) (f, bufs)"
      using makes_begins [OF ok(3) cs d] by (simp add: carries_def)
    with ok File cs show ?thesis
      by (intro disjI1 exI [of _ ?pay])
        (auto simp: moved_bytes_def entry_done_def payload_len_def safe_item_def trailer_def)
  qed
qed

lemma recv_entry_log:
  assumes p: "recv_entry B k root verify cache e s = (r, s')" and B: "blake3_ok B absorbed"
    and z: "verify \<longrightarrow> since [] (n_sent s) = []" and k: "e_kind e \<noteq> End"
    and at: "stands dest n [] root (os_of s)" and ca: "cache_at dest n cache (os_of s)"
  shows "(\<exists>cache' pay. r = Inr (cache', moved_bytes e) \<and> entry_done dest n B verify e pay s s' \<and>
        cache_at dest n cache' (os_of s'))
    \<or> ((\<exists>err. r = Inl err) \<and> (\<exists>part. no_fin (n_sent s') = no_fin (n_sent s) @ partial_msgs part \<and>
        begins_part dest (log_from n (os_of s')) part))"
proof (cases "sanitize (e_path e)")
  case (Inl err)
  with p show ?thesis by (auto simp: recv_entry_def intro!: exI [of _ None])
next
  case (Inr cs)
  let ?get = "net_os (parent_get cache (butlast cs) (walk_dirs k root (butlast cs)))"
  let ?body = "\<lambda>dir. case e_kind e of
                     Dir \<Rightarrow> recv_dir k dir (last cs) e
                   | Symlink \<Rightarrow> recv_symlink B k dir (last cs) e verify
                   | File \<Rightarrow> recv_file B k dir (last cs) e verify
                   | End \<Rightarrow> io_return 0"
  obtain x t where x: "?get s = (x, t)" by (cases "?get s")
  note fx = net_os_frame [OF x]
  show ?thesis
  proof (cases x)
    case (Inl err)
    with p x Inr have "r = Inl err" "s' = t" by (simp_all add: recv_entry_def Let_def)
    with fx show ?thesis by (auto intro!: exI [of _ None])
  next
    case x': (Inr v)
    obtain dir cache' where v: "v = (dir, cache')" by (cases v)
    from net_os_state [OF x] x' v obtain o' where
      o': "parent_get cache (butlast cs) (walk_dirs k root (butlast cs)) (os_of s) = (Inr (dir, cache'), o')"
        "os_of t = o'" by auto
    have "spec grows (\<lambda>s. stands dest n [] root s \<and> cache_at dest n cache s)
        (parent_get cache (butlast cs) (walk_dirs k root (butlast cs)))
        (\<lambda>(d, cache') s. stands dest n (butlast cs) d s \<and> cache_at dest n cache' s)"
      by (rule parent_get_at [OF walk_dirs_at])
    from specE [OF this _ o'(1)] at ca o'(2) have
      dt: "stands dest n (butlast cs) dir (os_of t)" "cache_at dest n cache' (os_of t)" by auto
    obtain u where u: "net_prog (set_current (e_path e)) t = (Inr (), u)"
      using net_prog_frame by (cases "net_prog (set_current (e_path e)) t") blast
    note fu = net_prog_frame [OF u]
    have su: "n_in u = n_in s" "n_sent u = n_sent s" using fx fu by auto
    have ou: "os_of u = os_of t" using u by (auto simp: net_prog_def)
    obtain y w where y: "?body dir u = (y, w)" by (cases "?body dir u")
    have rest: "io_bind (?body dir) (\<lambda>moved. io_bind (net_prog finish_file) (\<lambda>_.
        io_return (cache', moved))) u = (r, s')"
      using p x x' v u Inr by (simp add: recv_entry_def Let_def)
    have zu: "verify \<longrightarrow> since [] (n_sent u) = []" using z su by simp
    have "good_component (last cs)" using sanitize_components [OF Inr] by (metis last_in_set)
    from specD [OF keeps.recv_body_r [OF this, where A = "\<lambda>_. True"] _ y] have
      "net_adds hands_off u w" by simp
    then have gw: "grows (os_of t) (os_of w)" using ou by (auto simp: net_adds_def intro: adds_mono)
    have du: "stands dest n (butlast cs) dir (os_of u)" using dt(1) ou by simp
    from recv_body_log [OF y B zu k Inr du] show ?thesis
    proof (elim disjE exE conjE)
      fix pay assume "y = Inr (moved_bytes e)" "entry_done dest n B verify e pay u w"
      with rest y su cache_at_grows [OF gw dt(2)] show ?thesis
        by (intro disjI1 exI [of _ cache'] exI [of _ pay]) (auto simp: net_prog_def entry_done_def)
    next
      fix err part assume "y = Inl err" "no_fin (n_sent w) = no_fin (n_sent u) @ partial_msgs part"
        "begins_part dest (log_from n (os_of w)) part"
      with rest y su show ?thesis by auto
    qed
  qed
qed

text \<open>
  The loop: whole items, and, when it fails, a rest of the stream it could not receive
  and at most one unfinished file.
\<close>

definition only_files :: "item list \<Rightarrow> item list" where
  "only_files its = filter (\<lambda>it. e_kind (fst it) = File) its"

definition received ::
  "bytes \<Rightarrow> (syscall \<times> reply) list \<Rightarrow> item list \<Rightarrow> (inflight \<times> (bytes \<times> nat) list) list \<Rightarrow> bool" where
  "received dest tr its fbs \<longleftrightarrow>
     (\<forall>it \<in> set its. wf_item it \<and> safe_item it) \<and> list_all2 (carries dest tr) (only_files its) fbs"

lemma list_all2_carries_grows:
  "list_all2 (carries dest (log_from n (os_of s))) its fbs \<Longrightarrow> net_adds hands_off s s' \<Longrightarrow> started n (os_of s) \<Longrightarrow>
   list_all2 (carries dest (log_from n (os_of s'))) its fbs"
  by (erule list_all2_mono) (rule carries_grows)

text \<open>The files an entry adds to what was received.\<close>

lemma entry_done_files:
  assumes "entry_done dest n B verify e pay t u" and "verify \<longrightarrow> since [] (n_sent t) = []"
  obtains fbs where "list_all2 (carries dest (log_from n (os_of u))) (only_files [(e, pay)]) fbs"
    "no_fin (n_sent u) = no_fin (n_sent t) @ concat (map (\<lambda>(f, b). file_msgs f b) fbs)"
    "verify \<longrightarrow> since [] (n_sent u) = []"
proof (cases "e_kind e = File")
  case True
  with assms(1) obtain fb where fb: "carries dest (log_from n (os_of u)) (e, pay) fb" "n_sent u = n_sent t @ complete_msgs verify fb"
    by (auto simp: entry_done_def)
  with True show ?thesis
    by (intro that [of "[fb]"])
      (auto simp: only_files_def no_fin_complete since_complete case_prod_beta)
next
  case False
  with assms show ?thesis by (intro that [of "[]"]) (auto simp: only_files_def entry_done_def)
qed

lemma entries_loop_log:
  assumes B: "blake3_ok B absorbed"
  shows "entries_loop fuel B k root verify cache st s = (r, s') \<Longrightarrow> verify \<longrightarrow> since [] (n_sent s) = [] \<Longrightarrow>
    stands dest n [] root (os_of s) \<Longrightarrow> cache_at dest n cache (os_of s) \<Longrightarrow>
    \<exists>its fbs rest part. received dest (log_from n (os_of s')) its fbs \<and>
      begins_part dest (log_from n (os_of s')) part \<and>
      staged_rem (n_in s) = concat (map (frame B verify) its) @ rest \<and>
      no_fin (n_sent s') = no_fin (n_sent s) @ session_msgs fbs part \<and>
      (\<forall>st'. r = Inr st' \<longrightarrow> part = None \<and> rest = write_terminator @ staged_rem (n_in s') \<and>
         st' = foldl count_item st its)"
proof (induction fuel arbitrary: cache st s)
  case 0
  then show ?case
    by (intro exI [of _ "[]"] exI [of _ "staged_rem (n_in s)"] exI [of _ None])
      (auto simp: received_def only_files_def session_msgs_def)
next
  case (Suc fuel)
  obtain x t where x: "net_in (entry_decode staged_read_exact) s = (x, t)"
    by (cases "net_in (entry_decode staged_read_exact) s")
  note fx = net_in_frame [OF x]
  have d: "entry_decode staged_read_exact (n_in s) = (x, n_in t)" using fx by auto
  show ?case
  proof (cases "\<exists>e. x = Inr (Some e)")
    case False
    then consider err where "x = Inl err" | "x = Inr None" by (cases x) auto
    then show ?thesis
    proof cases
      case 1
      with Suc.prems x fx show ?thesis
        by (intro exI [of _ "[]"] exI [of _ "staged_rem (n_in s)"] exI [of _ None])
          (auto simp: received_def only_files_def session_msgs_def)
    next
      case 2
      with Suc.prems x have "r = Inr st" "s' = t" by auto
      with 2 d staged.decode_None [of "n_in s" "n_in t"] fx show ?thesis
        by (intro exI [of _ "[]"] exI [of _ "staged_rem (n_in s)"] exI [of _ None])
          (auto simp: received_def only_files_def session_msgs_def)
    qed
  next
    case True
    then obtain e where e: "x = Inr (Some e)" by blast
    from d e staged.decode_canonical have c: "staged_rem (n_in s) = entry_encode e @ staged_rem (n_in t)"
      and wf: "wf_entry e" by blast+
    then have k: "e_kind e \<noteq> End" by (simp add: wf_entry_def)
    obtain y u where y: "recv_entry B k root verify cache e t = (y, u)"
      by (cases "recv_entry B k root verify cache e t")
    have ot: "os_of t = os_of s" using x by (auto simp: net_in_def zoom_eq)
    have zt: "verify \<longrightarrow> since [] (n_sent t) = []" using fx Suc.prems(2) by auto
    from recv_entry_log [OF y B zt k, where dest = dest and n = n] Suc.prems(3,4) ot
    consider (ok) cache' pay where "y = Inr (cache', moved_bytes e)" "entry_done dest n B verify e pay t u"
        "cache_at dest n cache' (os_of u)"
      | (bad) err part where "y = Inl err" "no_fin (n_sent u) = no_fin (n_sent t) @ partial_msgs part"
        "begins_part dest (log_from n (os_of u)) part"
      by auto
    then show ?thesis
    proof cases
      case bad
      with Suc.prems x e y have "r = Inl err" "s' = u" by auto
      with bad fx show ?thesis
        by (intro exI [of _ "[]"] exI [of _ "staged_rem (n_in s)"] exI [of _ part])
          (auto simp: received_def only_files_def session_msgs_def)
    next
      case ok
      let ?it = "(e, pay)"
      note fin = ok(2) [unfolded entry_done_def]
      have l: "entries_loop fuel B k root verify cache' (count_item st ?it) u = (r, s')"
        using Suc.prems(1) x e y ok(1) by (simp add: count_item_def)
      from specD [OF keeps.recv_entry_r [where A = "\<lambda>_. True"] _ y] have "net_adds hands_off t u" by simp
      then have "grows (os_of t) (os_of u)" by (auto simp: net_adds_def intro: adds_mono)
      from stands_grows [OF this, of n dest "[]" root] Suc.prems(3) ot have du: "stands dest n [] root (os_of u)" by simp
      from specD [OF keeps.entries_loop_r [where A = "\<lambda>_. True"] _ l] have gs: "net_adds hands_off u s'" by simp
      from ok(2) zt obtain fbs1 where f1: "list_all2 (carries dest (log_from n (os_of u))) (only_files [?it]) fbs1"
          "no_fin (n_sent u) = no_fin (n_sent t) @ concat (map (\<lambda>(f, b). file_msgs f b) fbs1)"
          "verify \<longrightarrow> since [] (n_sent u) = []" by (rule entry_done_files)
      from list_all2_carries_grows [OF f1(1) gs] du have
        f1': "list_all2 (carries dest (log_from n (os_of s'))) (only_files [?it]) fbs1" by simp
      from Suc.IH [OF l f1(3) du ok(3)] obtain its fbs rest part where
        *: "received dest (log_from n (os_of s')) its fbs" "staged_rem (n_in u) = concat (map (frame B verify) its) @ rest"
          "no_fin (n_sent s') = no_fin (n_sent u) @ session_msgs fbs part"
          "\<forall>st'. r = Inr st' \<longrightarrow> part = None \<and> rest = write_terminator @ staged_rem (n_in s') \<and>
            st' = foldl count_item (count_item st ?it) its"
          "begins_part dest (log_from n (os_of s')) part"
        by blast
      have "received dest (log_from n (os_of s')) (?it # its) (fbs1 @ fbs)"
      proof -
        have "list_all2 (carries dest (log_from n (os_of s'))) (only_files [?it] @ only_files its) (fbs1 @ fbs)"
          using f1' *(1) by (intro list_all2_appendI) (auto simp: received_def)
        moreover have "only_files (?it # its) = only_files [?it] @ only_files its"
          by (simp add: only_files_def)
        ultimately show ?thesis using *(1) fin wf by (simp add: received_def wf_item_def)
      qed
      moreover have "staged_rem (n_in s) = concat (map (frame B verify) (?it # its)) @ rest"
        using c fin *(2) by (simp add: frame_def)
      moreover have "no_fin (n_sent s') = no_fin (n_sent s) @ session_msgs (fbs1 @ fbs) part"
        using fx f1(2) *(3) by (simp add: session_msgs_def)
      ultimately show ?thesis
        using *(4,5) by (intro exI [of _ "?it # its"] exI [of _ "fbs1 @ fbs"] exI [of _ rest] exI [of _ part]) auto
    qed
  qed
qed

end
