(* ===== verification/Receiver.thy ===== *)
theory Receiver
  imports NetSafe Commit Handshake Bitmap
begin

text \<open>
  The receiver as a whole (\<open>src/recv.rs\<close>): the manifest answer, the handshake check, one
  pipeline per flow, the final flush and the acknowledgement. A pipeline's three threads
  are composed the way its channels compose them: the network thread runs on the socket,
  the hash stage and the writer each on what the stage before sent. The state they share
  is passed from one to the next; since the theorems about each thread hold for every
  kernel and every state it starts in, they do not depend on that order; \<open>Pipeline\<close> shows
  that every schedule of the three threads hands over what this composition says.
\<close>

section \<open>The manifest\<close>

definition file_held ::
  "'w kernel \<Rightarrow> fd \<Rightarrow> parent_cache \<Rightarrow> entry \<Rightarrow> ('w os, bool \<times> parent_cache) op" where
  "file_held k root cache e s =
     (case sanitize (e_path e) of
        Inl _ \<Rightarrow> (Inr (False, cache), s)
      | Inr components \<Rightarrow>
          (case parent_get cache (butlast components) (open_dir_chain k root (butlast components)) s of
             (Inl _, t) \<Rightarrow> (Inr (False, cache), t)
           | (Inr (dir, cache'), t) \<Rightarrow>
               (case stat_file_in_dir k dir (last components) t of
                  (Inl _, u) \<Rightarrow> (Inr (False, cache'), u)
                | (Inr (len, mtime), u) \<Rightarrow>
                    (Inr (len = e_size e \<and> mtime = e_mtime e, cache'), u))))"

text \<open>The answer so far: the bits, and how many files and bytes they save.\<close>

fun manifest_loop ::
  "nat \<Rightarrow> 'w kernel \<Rightarrow> fd \<Rightarrow> parent_cache \<Rightarrow> bool list \<times> u64 \<times> u64 \<Rightarrow>
   ('w net, bool list \<times> u64 \<times> u64) op" where
  "manifest_loop 0 k root cache acc = io_throw eof_error"
| "manifest_loop (Suc fuel) k root cache acc =
     io_bind (net_in (entry_decode staged_read_exact)) (\<lambda>oe.
     case oe of
       None \<Rightarrow> io_return acc
     | Some e \<Rightarrow>
         if e_kind e \<noteq> File then manifest_loop fuel k root cache acc
         else
           io_bind (net_os (file_held k root cache e)) (\<lambda>(have_it, cache').
           case acc of (bits, fs, bytes) \<Rightarrow>
             manifest_loop fuel k root cache'
               (if have_it then (bits @ [True], fs + 1, bytes + e_size e) else (bits @ [False], fs, bytes))))"

text \<open>Writing on the socket behind the stage.\<close>

definition stream_write :: "bytes \<Rightarrow> ('w net, unit) op" where
  "stream_write bs =
     net_in (zoom s_stream (\<lambda>x s. s\<lparr>s_stream := x\<rparr>) (sock_write_all bs))"

definition answer_manifest :: "'w kernel \<Rightarrow> bytes \<Rightarrow> ('w net, u64 \<times> u64) op" where
  "answer_manifest k dest =
     io_bind (net_os (open_dir k dest)) (\<lambda>root.
     io_bind (\<lambda>s. manifest_loop (Suc (length (staged_rem (n_in s)))) k root
                parent_cache_default ([], 0, 0) s) (\<lambda>(bits, fs, bytes).
     io_bind (stream_write (encode_bitmap bits)) (\<lambda>_.
     io_return (fs, bytes))))"

section \<open>The handshake\<close>

definition check_streams :: "(u32 \<times> u32) option \<Rightarrow> (sock, unit) op" where
  "check_streams streams =
     (case streams of
        None \<Rightarrow> io_return ()
      | Some (cnt, index) \<Rightarrow>
          if index \<noteq> 0 then io_throw (IoError InvalidData (IndexBeforePrimary index))
          else if cnt < 2 \<or> MAX_STREAMS < cnt
          then io_throw (IoError InvalidData (StreamCountOutOfRange cnt))
          else io_return ())"

definition verify_handshake :: "bytes \<Rightarrow> (sock, bool \<times> (u32 \<times> u32) option) op" where
  "verify_handshake token =
     io_bind (read_handshake sock_read_exact) (\<lambda>hs.
     if \<not> ct_eq (hs_token hs) token then io_throw (IoError PermissionDenied TokenMismatch)
     else
       io_bind (check_streams (hs_streams hs)) (\<lambda>_.
       io_return (hs_flags hs AND FLAG_NO_VERIFY = 0, hs_streams hs)))"

text \<open>The checks on a further connection of a version 4 session.\<close>

definition check_band :: "bytes \<Rightarrow> u32 \<Rightarrow> bool \<Rightarrow> (sock, u32) op" where
  "check_band token cnt verify =
     io_bind (read_handshake sock_read_exact) (\<lambda>hs.
     if \<not> ct_eq (hs_token hs) token then io_throw (IoError PermissionDenied TokenMismatch)
     else if hs_version hs \<noteq> VERSION_MULTI then
       io_throw (IoError InvalidData (BandVersion (hs_version hs)))
     else (case hs_streams hs of
         None \<Rightarrow> io_throw (IoError InvalidData BandNoTail)
       | Some (band_count, index) \<Rightarrow>
           if band_count \<noteq> cnt then
             io_throw (IoError InvalidData (BandCountDiffers band_count cnt))
           else if index = 0 \<or> cnt \<le> index then
             io_throw (IoError InvalidData (BandIndexOutside index cnt))
           else if (hs_flags hs AND FLAG_NO_VERIFY = 0) \<noteq> verify then
             io_throw (IoError InvalidData BandVerifyDiffers)
           else io_return index))"

section \<open>One pipeline\<close>

definition forwarded :: "'h blake3 \<Rightarrow> bool \<Rightarrow> msg list \<Rightarrow> msg list" where
  "forwarded B verify ms = (if verify then fst (hash_loop B (b3_new B) ms) else ms)"

definition run_pipeline ::
  "'h blake3 \<Rightarrow> 'w kernel \<Rightarrow> bytes \<Rightarrow> bool \<Rightarrow> bool \<Rightarrow> ('w net, stats) op" where
  "run_pipeline B k dest verify durable s =
     (case read_entries B k dest verify (s\<lparr>n_sent := []\<rparr>) of
        (received, t) \<Rightarrow>
          (case write_loop k durable None (forwarded B verify (n_sent t)) (n_sh t) of
             (Inl err, sh) \<Rightarrow> (Inl err, t\<lparr>n_sh := sh\<rparr>)
           | (Inr _, sh) \<Rightarrow> (received, t\<lparr>n_sh := sh\<rparr>)))"

definition flush_directories :: "'w kernel \<Rightarrow> ('w shared, unit) op" where
  "flush_directories k s =
     (case sh_regs s of None \<Rightarrow> (Inr (), s) | Some r \<Rightarrow> on_os (flush_all k r) s)"

definition new_registry :: "bool \<Rightarrow> ('w net, unit) op" where
  "new_registry durable s =
     (Inr (), s\<lparr>n_sh := (n_sh s)\<lparr>sh_regs := if durable then Some registry_new else None\<rparr>\<rparr>)"

definition receive_entries ::
  "'h blake3 \<Rightarrow> 'w kernel \<Rightarrow> bytes \<Rightarrow> bool \<Rightarrow> bool \<Rightarrow> ('w net, stats) op" where
  "receive_entries B k dest verify durable =
     io_bind (new_registry durable) (\<lambda>_.
     io_bind (run_pipeline B k dest verify durable) (\<lambda>st.
     io_bind (net_sh (flush_directories k)) (\<lambda>_.
     io_bind (stream_write [ACK]) (\<lambda>_.
     io_return st))))"

section \<open>Several flows\<close>

text \<open>
  What the listener hands out: a socket, and whether configuring it (buffers, no-delay,
  the handshake time-out; later the idle time-out) fails. A list that is used up stands
  for an accept that does not return. \<open>h_net\<close> is the primary flow, whose shared part is
  everyone's; \<open>h_flows\<close> are the pools and the rooms of the other flows.
\<close>

record conn =
  c_sock :: sock
  c_setup :: "errno option"
  c_idle :: "errno option"

record 'w host =
  h_net :: "'w net"
  h_conns :: "conn list"
  h_flows :: "((bool \<times> bytes) list \<times> nat option) list"

definition on_net :: "('w net, 'a) op \<Rightarrow> ('w host, 'a) op" where
  "on_net = zoom h_net (\<lambda>x s. s\<lparr>h_net := x\<rparr>)"

definition accept_conn :: "('w host, conn) op" where
  "accept_conn s =
     (case h_conns s of
        [] \<Rightarrow> (Inl (OsError ETIMEDOUT), s)
      | c # cs \<Rightarrow> (Inr c, s\<lparr>h_conns := cs\<rparr>))"

definition sock_option :: "errno option \<Rightarrow> ('s, unit) op" where
  "sock_option e = (case e of None \<Rightarrow> io_return () | Some x \<Rightarrow> io_throw (OsError x))"

text \<open>A connection on which an operation was run.\<close>

definition on_sock :: "(sock, 'a) op \<Rightarrow> sock \<Rightarrow> ('s, 'a \<times> sock) op" where
  "on_sock m c s = (case m c of (Inl e, _) \<Rightarrow> (Inl e, s) | (Inr v, c') \<Rightarrow> (Inr (v, c'), s))"

fun accept_bands :: "nat \<Rightarrow> bytes \<Rightarrow> u32 \<Rightarrow> bool \<Rightarrow> ('w host, (u32 \<times> sock) list) op" where
  "accept_bands 0 token cnt verify = io_return []"
| "accept_bands (Suc n) token cnt verify =
     io_bind accept_conn (\<lambda>c.
     io_bind (sock_option (c_setup c)) (\<lambda>_.
     io_bind (on_sock (check_band token cnt verify) (c_sock c)) (\<lambda>(index, stream).
     io_bind (sock_option (c_idle c)) (\<lambda>_.
     io_bind (accept_bands n token cnt verify) (\<lambda>bands.
     io_return ((index, stream) # bands))))))"

definition run_band ::
  "'h blake3 \<Rightarrow> 'w kernel \<Rightarrow> bytes \<Rightarrow> bool \<Rightarrow> bool \<Rightarrow> u32 \<times> sock \<Rightarrow> 'w host \<Rightarrow> stats result \<times> 'w host" where
  "run_band B k dest verify durable band s =
     (let flow = (case h_flows s of [] \<Rightarrow> ([], None) | x # _ \<Rightarrow> x);
          n = (h_net s)\<lparr>n_in := staged_new (snd band), n_pool := fst flow, n_room := snd flow\<rparr>
      in case run_pipeline B k dest verify durable n of
           (r, n') \<Rightarrow>
             ((case r of Inl e \<Rightarrow> Inl (StreamError (unat (fst band)) e) | Inr st \<Rightarrow> Inr st),
              s\<lparr>h_net := (h_net s)\<lparr>n_sh := n_sh n', n_prog := n_prog n'\<rparr>, h_flows := tl (h_flows s)\<rparr>))"

text \<open>Every flow runs to its end, whatever becomes of the others.\<close>

fun run_bands ::
  "'h blake3 \<Rightarrow> 'w kernel \<Rightarrow> bytes \<Rightarrow> bool \<Rightarrow> bool \<Rightarrow> (u32 \<times> sock) list \<Rightarrow> 'w host \<Rightarrow>
   stats result list \<times> 'w host" where
  "run_bands B k dest verify durable [] s = ([], s)"
| "run_bands B k dest verify durable (b # bs) s =
     (case run_band B k dest verify durable b s of
        (r, t) \<Rightarrow> (case run_bands B k dest verify durable bs t of (rs, u) \<Rightarrow> (r # rs, u)))"

fun total_stats :: "stats \<Rightarrow> stats result list \<Rightarrow> stats result" where
  "total_stats tot [] = Inr tot"
| "total_stats tot (Inl e # rs) = Inl e"
| "total_stats tot (Inr st # rs) =
     total_stats (tot\<lparr>st_files := st_files tot + st_files st,
                         st_bytes := st_bytes tot + st_bytes st\<rparr>) rs"

definition run_flows ::
  "'h blake3 \<Rightarrow> 'w kernel \<Rightarrow> bytes \<Rightarrow> bool \<Rightarrow> bool \<Rightarrow> (u32 \<times> sock) list \<Rightarrow> ('w host, stats) op" where
  "run_flows B k dest verify durable bands s =
     (case on_net (run_pipeline B k dest verify durable) s of
        (primary, t) \<Rightarrow>
          (case run_bands B k dest verify durable bands t of
             (rs, u) \<Rightarrow>
               ((case primary of Inl e \<Rightarrow> Inl e | Inr st \<Rightarrow> total_stats st rs), u)))"

definition accept_multi ::
  "'h blake3 \<Rightarrow> 'w kernel \<Rightarrow> bytes \<Rightarrow> bytes \<Rightarrow> bool \<Rightarrow> u32 \<Rightarrow> bool \<Rightarrow> ('w host, stats) op" where
  "accept_multi B k dest token durable cnt verify =
     io_bind (on_net (new_registry durable)) (\<lambda>_.
     io_bind (accept_bands (unat (cnt - 1)) token cnt verify) (\<lambda>bands.
     io_bind (run_flows B k dest verify durable bands) (\<lambda>tot.
     io_bind (on_net (net_sh (flush_directories k))) (\<lambda>_.
     io_bind (on_net (stream_write [ACK])) (\<lambda>_.
     io_return tot)))))"

section \<open>The session\<close>

text \<open>The primary flow gets the accepted socket behind an empty stage.\<close>

definition take_stream :: "sock \<Rightarrow> ('w host, unit) op" where
  "take_stream c s = (Inr (), s\<lparr>h_net := (h_net s)\<lparr>n_in := staged_new c\<rparr>\<rparr>)"

definition accept_one ::
  "'h blake3 \<Rightarrow> 'w kernel \<Rightarrow> bytes \<Rightarrow> bytes \<Rightarrow> bool \<Rightarrow> ('w host, stats) op" where
  "accept_one B k dest token durable =
     io_bind accept_conn (\<lambda>c.
     io_bind (sock_option (c_setup c)) (\<lambda>_.
     io_bind (on_sock (verify_handshake token) (c_sock c)) (\<lambda>((verify, streams), stream).
     io_bind (sock_option (c_idle c)) (\<lambda>_.
     io_bind (take_stream stream) (\<lambda>_.
     io_bind (on_net (answer_manifest k dest)) (\<lambda>(fs, bytes).
     io_bind (case streams of
                None \<Rightarrow> on_net (receive_entries B k dest verify durable)
              | Some (cnt, _) \<Rightarrow> accept_multi B k dest token durable cnt verify) (\<lambda>st.
     io_return (st\<lparr>st_skipped_files := fs, st_skipped_bytes := bytes\<rparr>))))))))"

end
