(* ===== verification/NetCalls.thy ===== *)
theory NetCalls
  imports NetLog Receiver
begin

text \<open>
  Which system calls the manifest answer makes at all. The manifest answer only opens directories and
  reads attributes, so it leaves no trace of a file it decides against.
\<close>

lemma stat_file_in_dir_adds:
  "(\<And>d n b r. P (FstatAt d n b, r)) \<Longrightarrow> spec (adds P) A (stat_file_in_dir k d n) (\<lambda>_ _. True)"
  unfolding stat_file_in_dir_def Let_def
  by (intro adds_cstr adds_bind call_adds spec_if adds.spec_throw adds.spec_return) auto

section \<open>The manifest reads only\<close>

fun reads_only :: "syscall \<times> reply \<Rightarrow> bool" where
  "reads_only (Open p fl, r) = (O_CREAT \<notin> set fl)"
| "reads_only (OpenAt d n fl m, r) = (O_CREAT \<notin> set fl)"
| "reads_only (DupFd f, r) = True"
| "reads_only (FstatAt d n b, r) = True"
| "reads_only _ = False"

lemma open_dir_reads: "spec (adds reads_only) A (open_dir k p) (\<lambda>_ _. True)"
  unfolding open_dir_def by (intro spec_if adds.spec_throw call_fd_adds adds_cstr) simp_all

lemma open_dir_at_reads: "spec (adds reads_only) A (open_dir_at k d n) (\<lambda>_ _. True)"
  unfolding open_dir_at_def by (intro adds_cstr call_fd_adds) auto

lemma open_dir_chain_reads: "spec (adds reads_only) A (open_dir_chain k root cs) (\<lambda>_ _. True)"
proof -
  have "spec (adds reads_only) A (open_dir_chain_loop k d cs) (\<lambda>_ _. True)" for A d
  proof (induction cs arbitrary: A d)
    case Nil
    show ?case unfolding open_dir_chain_loop.simps by (rule adds.spec_return) simp
  next
    case (Cons c cs)
    show ?case unfolding open_dir_chain_loop.simps by (intro adds_bind open_dir_at_reads Cons)
  qed
  then show ?thesis unfolding open_dir_chain_def by (intro adds_bind dup_fd_adds) simp_all
qed

lemma parent_get_reads:
  "spec (adds reads_only) A (parent_get cache ps (open_dir_chain k root ps)) (\<lambda>_ _. True)"
proof -
  have m: "spec (adds reads_only) A (io_bind (open_dir_chain k root ps)
      (\<lambda>d. io_return (d, \<lparr>pc_components = ps, pc_dir = Some d\<rparr>))) (\<lambda>_ _. True)"
    by (intro adds_bind open_dir_chain_reads adds.spec_return) simp
  show ?thesis
    unfolding parent_get_def by (intro spec_case_option spec_if m adds.spec_return) simp
qed

lemma file_held_reads: "spec (adds reads_only) A (file_held k root cache e) (\<lambda>_ _. True)"
proof (rule specI)
  fix s r s' assume e: "file_held k root cache e s = (r, s')"
  show "adds reads_only s s' \<and> (\<forall>v. r = Inr v \<longrightarrow> True)"
  proof (cases "sanitize (e_path e)")
    case (Inl err)
    with e show ?thesis by (auto simp: file_held_def adds.refl)
  next
    case (Inr cs)
    let ?get = "parent_get cache (butlast cs) (open_dir_chain k root (butlast cs))"
    obtain x t where x: "?get s = (x, t)" by (cases "?get s")
    from specD [OF parent_get_reads [of "\<lambda>_. True"] _ x] have st: "adds reads_only s t" by simp
    show ?thesis
    proof (cases x)
      case (Inl err)
      with e x st Inr show ?thesis by (auto simp: file_held_def)
    next
      case x': (Inr v)
      obtain dir cache' where v: "v = (dir, cache')" by (cases v)
      obtain y u where y: "stat_file_in_dir k dir (last cs) t = (y, u)"
        by (cases "stat_file_in_dir k dir (last cs) t")
      have "adds reads_only t u"
        by (rule specD [OF stat_file_in_dir_adds [of reads_only "\<lambda>_. True"] _ y]) simp_all
      moreover from e x x' v y Inr have "s' = u" by (auto simp: file_held_def split: sum.splits)
      ultimately show ?thesis using st adds.trans by blast
    qed
  qed
qed

lemma manifest_loop_reads: "spec (net_adds reads_only) A (manifest_loop fuel k root cache acc) (\<lambda>_ _. True)"
proof (induction fuel arbitrary: A cache acc)
  case 0
  show ?case unfolding manifest_loop.simps by (rule net_adds.spec_throw)
next
  case (Suc fuel)
  show ?case
    unfolding manifest_loop.simps case_prod_beta
    by (intro net_adds_bind spec_case_option spec_if Suc net_os_adds file_held_reads net_adds.spec_return
        inert_adds) simp_all
qed

lemma answer_manifest_reads: "spec (net_adds reads_only) A (answer_manifest k dest) (\<lambda>_ _. True)"
proof -
  have l: "spec (net_adds reads_only) A (\<lambda>s. manifest_loop (Suc (length (staged_rem (n_in s)))) k root
      parent_cache_default ([], 0, 0) s) (\<lambda>_ _. True)" for A root
  proof (rule specI)
    fix s r s' assume e: "manifest_loop (Suc (length (staged_rem (n_in s)))) k root
      parent_cache_default ([], 0, 0) s = (r, s')"
    from specD [OF manifest_loop_reads [of "\<lambda>_. True"] _ e]
    show "net_adds reads_only s s' \<and> (\<forall>v. r = Inr v \<longrightarrow> True)" by simp
  qed
  have w: "spec (net_adds reads_only) A (stream_write bs) (\<lambda>_ _. True)" for A bs
    unfolding stream_write_def by (rule inert_adds) simp
  show ?thesis
    unfolding answer_manifest_def case_prod_beta
    by (intro net_adds_bind net_os_adds open_dir_reads l w net_adds.spec_return) simp
qed

end
