(* ===== verification/Delivery.thy ===== *)
theory Delivery
  imports NetCalls
begin

text \<open>
  A pipeline as a whole: what the network thread took off the socket, against what the
  writer did to the file system. The network thread never renames, and the writer's log is
  one complete file log after the other.
\<close>

section \<open>A rename in a log\<close>

text \<open>What has been done to the file of \<open>fb\<close> by the end of \<open>tr\<close>.\<close>

definition committed :: "bool \<Rightarrow> inflight \<times> (bytes \<times> nat) list \<Rightarrow> (syscall \<times> reply) list \<Rightarrow> bool" where
  "committed durable fb tr \<longleftrightarrow>
     (\<exists>old w m t y. tr = old @ w @ m @ [(Futimens (if_file (fst fb)) (if_mtime (fst fb)) (if_mtime (fst fb)), t)] @ y \<and>
        calls w = payload_writes (fst fb) (snd fb) \<and> (\<forall>e \<in> set w. succeeded e) \<and>
        calls m = mode_calls (fst fb) \<and> flush_ok durable (if_file (fst fb)) y)"

lemma committed_later: "committed durable fb tr \<Longrightarrow> committed durable fb (old @ tr)"
  unfolding committed_def by (metis append.assoc)

lemma no_rename_calls:
  "calls tr = map g xs \<Longrightarrow> (\<And>x a b c d. g x \<noteq> RenameAt a b c d) \<Longrightarrow> no_rename tr"
proof (induction tr arbitrary: xs)
  case (Cons e tr)
  then show ?case by (cases xs) auto
qed simp

lemma no_rename_notin: "no_rename tr \<Longrightarrow> (RenameAt a b c d, rep) \<notin> set tr"
  by force

lemma file_log_rename:
  assumes l: "file_log durable f bufs l ok" and s: "l = a @ (RenameAt d t d' n, rep) # b"
  shows "committed durable (f, bufs) a \<and> d = if_parent f \<and> d' = d \<and> t = if_name f \<and> if_final f = Some n"
proof -
  from l obtain w m tt y p where
    *: "l = w @ m @ [(Futimens (if_file f) (if_mtime f) (if_mtime f), tt)] @ y @ p"
      "calls w = payload_writes f bufs" "\<forall>e \<in> set w. succeeded e" "calls m = mode_calls f"
      "flush_ok durable (if_file f) y" "publish_log f p ok"
    unfolding file_log_def by blast
  let ?h = "w @ m @ [(Futimens (if_file f) (if_mtime f) (if_mtime f), tt)] @ y"
  let ?e = "(RenameAt d t d' n, rep)"
  have nw: "no_rename w" using *(2) by (intro no_rename_calls) (auto simp: payload_writes_def)
  have nm: "no_rename m" using *(4) by (auto simp: mode_calls_def calls_def split: if_splits)
  have ny: "no_rename y" using *(5) by (auto simp: flush_ok_def split: if_splits)
  have "?e \<notin> set ?h"
    using no_rename_notin [OF nw] no_rename_notin [OF nm] no_rename_notin [OF ny] by simp
  then have no: "?h \<noteq> a @ ?e # us" for us by (metis in_set_conv_decomp)
  have "?h @ p = a @ ?e # b" using *(1) s by simp
  from split_at_Cons [OF this] no obtain us where us: "a = ?h @ us" "p = us @ ?e # b" by auto
  from us(2) have "p \<noteq> []" by simp
  with *(6) obtain q rep' g where q: "if_final f = Some q"
      "p = (RenameAt (if_parent f) (if_name f) (if_parent f) q, rep') # g"
      "set (calls g) \<subseteq> {Fstat (if_parent f)}"
    by (auto simp: publish_log_def split: option.splits)
  have "us = []"
  proof (rule ccontr)
    assume "us \<noteq> []"
    with us(2) q(2) have "?e \<in> set g" by (cases us) auto
    with q(3) show False by force
  qed
  with us q(1,2) have "a = ?h" "d = if_parent f" "d' = d" "t = if_name f" "n = q" by auto
  moreover from this *(2-5) have "committed durable (f, bufs) a"
    unfolding committed_def fst_conv snd_conv
    by (intro exI [of _ "[]"] exI [of _ w] exI [of _ m] exI [of _ tt] exI [of _ y]) simp
  ultimately show ?thesis using q(1) by simp
qed

lemma file_logs_rename:
  assumes "list_all2 (\<lambda>(f, b) l. file_log durable f b l True) files logs"
    and "concat logs = a @ (RenameAt d t d' n, rep) # b"
  shows "\<exists>fb \<in> set files. committed durable fb a \<and> d = if_parent (fst fb) \<and> d' = d \<and>
    t = if_name (fst fb) \<and> if_final (fst fb) = Some n"
  using assms
proof (induction arbitrary: a rule: list_all2_induct)
  case (Cons fb files l logs)
  obtain f bufs where fb: "fb = (f, bufs)" by (cases fb)
  from Cons.prems have "l @ concat logs = a @ (RenameAt d t d' n, rep) # b" by simp
  from split_at_Cons [OF this] show ?case
  proof (elim disjE exE conjE)
    fix us assume us: "l = a @ (RenameAt d t d' n, rep) # us"
    have "file_log durable f bufs l True" using Cons.hyps(1) fb by simp
    from file_log_rename [OF this us] show ?thesis by (intro bexI [of _ fb]) (simp_all add: fb)
  next
    fix us assume us: "a = l @ us" "concat logs = us @ (RenameAt d t d' n, rep) # b"
    from Cons.IH [OF us(2)] obtain fb' where "fb' \<in> set files" "committed durable fb' us"
        "d = if_parent (fst fb') \<and> d' = d \<and> t = if_name (fst fb') \<and> if_final (fst fb') = Some n"
      by blast
    with committed_later [of durable fb' us l] us(1) show ?thesis by (intro bexI [of _ fb']) simp_all
  qed
qed simp

lemma session_log_rename:
  assumes "session_log durable files ok new" and "new = a @ (RenameAt d t d' n, rep) # b"
  shows "\<exists>fb \<in> set files. committed durable fb a \<and> d = if_parent (fst fb) \<and> d' = d \<and>
    t = if_name (fst fb) \<and> if_final (fst fb) = Some n"
proof -
  let ?e = "(RenameAt d t d' n, rep)"
  from assms(1) obtain m logs rest where
    *: "m \<le> length files" "new = concat logs @ rest"
      "list_all2 (\<lambda>(f, b) l. file_log durable f b l True) (take m files) logs"
      "no_rename rest \<or> (m < length files \<and> (\<exists>l rem. rest = l @ rem \<and> no_rename rem \<and>
           file_log durable (fst (files ! m)) (snd (files ! m)) l False))"
    unfolding session_log_def by blast
  from *(2) assms(2) have "concat logs @ rest = a @ ?e # b" by simp
  from split_at_Cons [OF this] show ?thesis
  proof (elim disjE exE conjE)
    fix us assume "concat logs = a @ ?e # us"
    from file_logs_rename [OF *(3) this] show ?thesis by (meson in_set_takeD)
  next
    fix us assume us: "a = concat logs @ us" "rest = us @ ?e # b"
    then have "?e \<in> set rest" by simp
    with no_rename_notin have "\<not> no_rename rest" by blast
    with *(4) obtain l rem where l: "m < length files" "rest = l @ rem" "no_rename rem"
        "file_log durable (fst (files ! m)) (snd (files ! m)) l False"
      by blast
    from l(2) us(2) have "l @ rem = us @ ?e # b" by simp
    moreover have "?e \<notin> set rem" using no_rename_notin [OF l(3)] .
    ultimately obtain vs where "l = us @ ?e # vs" using split_at_Cons [of l rem us ?e b] by auto
    from file_log_rename [OF l(4) this] us(1) committed_later l(1) show ?thesis
      by (intro bexI [of _ "files ! m"]) auto
  qed
qed

section \<open>From the network thread to the writer\<close>

lemma drop_msgs_no_fin: "drop_msgs k (no_fin ms) = drop_msgs k ms"
proof (induction ms)
  case (Cons m ms)
  then show ?case by (cases m) simp_all
qed simp

lemma abandon_no_fin: "abandon k f (no_fin ms) = abandon k f ms"
  by (intro ext) (simp add: abandon_def drop_msgs_no_fin)

lemma write_loop_no_fin: "write_loop k durable cur (no_fin ms) = write_loop k durable cur ms"
proof (induction ms arbitrary: cur)
  case (Cons m ms)
  then show ?case
    by (cases m; cases cur) (simp_all add: abandon_no_fin cong: option.case_cong sum.case_cong prod.case_cong)
qed simp

lemma write_forwarded: "write_loop k durable cur (forwarded B verify ms) = write_loop k durable cur (no_fin ms)"
  by (simp add: forwarded_def hash_loop_forward write_loop_no_fin)

text \<open>The prologue of \<open>read_entries\<close> opens the destination and touches nothing else.\<close>

lemma read_entries_log:
  assumes e: "read_entries B k dest verify s = (r, s')" and B: "blake3_ok B absorbed"
    and z: "n_sent s = []"
  shows "\<exists>its fbs rest part pre. trace (os_of s') = trace (os_of s) @ pre \<and>
      received dest pre its fbs \<and> begins_part dest pre part \<and>
      staged_rem (n_in s) = concat (map (frame B verify) its) @ rest \<and>
      no_fin (n_sent s') = session_msgs fbs part \<and>
      (\<forall>st. r = Inr st \<longrightarrow> part = None \<and> rest = write_terminator @ staged_rem (n_in s') \<and>
         st = foldl count_item stats_default its)"
proof -
  let ?n = "length (trace (os_of s))"
  from specD [OF read_entries_keeps [of "\<lambda>_. True"] _ e] obtain pre where
    pre: "trace (os_of s') = trace (os_of s) @ pre" by (auto dest: hands_off_grows)
  then have lf: "log_from ?n (os_of s') = pre" by (simp add: log_from_def)
  have none: ?thesis if "r = Inl err" "n_sent s' = []" for err
    using that pre
    by (intro exI [of _ "[]"] exI [of _ "staged_rem (n_in s)"] exI [of _ None] exI [of _ pre])
      (auto simp: received_def only_files_def session_msgs_def)
  obtain x t where x: "net_os (open_dir k dest) s = (x, t)" by (cases "net_os (open_dir k dest) s")
  note fx = net_os_frame [OF x]
  show ?thesis
  proof (cases x)
    case (Inl err)
    with e x fx z show ?thesis by (intro none) (auto simp: read_entries_def)
  next
    case (Inr root)
    from net_os_state [OF x] Inr obtain o' where o': "open_dir k dest (os_of s) = (Inr root, o')" "os_of t = o'"
      by auto
    from specE [OF open_dir_at_root [of ?n] _ o'(1)] o'(2) have at: "stands dest ?n [] root (os_of t)" by simp
    obtain y u where y: "net_sh (register_parent k root) t = (y, u)"
      by (cases "net_sh (register_parent k root) t")
    note fy = net_sh_frame [OF y]
    from specD [OF keeps.r_registers [where P = "\<lambda>_. True"] _ y] have "grows (os_of t) (os_of u)"
      by (auto simp: net_adds_def intro: adds_mono)
    from stands_grows [OF this at] have au: "stands dest ?n [] root (os_of u)" .
    show ?thesis
    proof (cases y)
      case (Inl err)
      with e x y Inr fx fy z show ?thesis by (intro none) (auto simp: read_entries_def)
    next
      case y': (Inr v)
      from e x y Inr y' have l: "entries_loop (Suc (length (staged_rem (n_in u)))) B k root verify
          parent_cache_default stats_default u = (r, s')"
        by (simp add: read_entries_def del: entries_loop.simps)
      from entries_loop_log [OF B l _ au cache_at_default] fx fy z lf pre show ?thesis by auto
    qed
  qed
qed

lemma read_entries_outgoing:
  "read_entries B k dest verify s = (r, s') \<Longrightarrow> same_out (n_in s) (n_in s')"
proof -
  have l: "spec net_eats P (entries_loop fuel B k root verify cache st) (\<lambda>_ _. True)" for P fuel root cache st
  proof (induction fuel arbitrary: P cache st)
    case 0
    show ?case unfolding entries_loop.simps by (rule net_eats.spec_throw)
  next
    case (Suc fuel)
    show ?case unfolding entries_loop.simps case_prod_beta
      by (intro eats_bind net_in_eats [OF entry_decode_eats] spec_case_option recv_entry_eats Suc still_eats)
        simp_all
  qed
  have l': "spec net_eats P (\<lambda>s. entries_loop (Suc (length (staged_rem (n_in s)))) B k root verify
            parent_cache_default stats_default s) (\<lambda>_ _. True)" for P root
  proof (rule specI)
    fix s r s' assume e: "entries_loop (Suc (length (staged_rem (n_in s)))) B k root verify
            parent_cache_default stats_default s = (r, s')"
    from specD [OF l [where P = "\<lambda>_. True"] _ e] show "net_eats s s' \<and> (\<forall>v. r = Inr v \<longrightarrow> True)" by simp
  qed
  have "spec net_eats (\<lambda>_. True) (read_entries B k dest verify) (\<lambda>_ _. True)"
    unfolding read_entries_def by (intro eats_bind l' still_eats) simp_all
  then show "read_entries B k dest verify s = (r, s') \<Longrightarrow> same_out (n_in s) (n_in s')"
    by (blast dest: specD)
qed

section \<open>The log of a pipeline\<close>

lemma received_nul_free: "received dest tr its fbs \<Longrightarrow> \<forall>(f, b) \<in> set fbs. nul_free f"
proof -
  assume "received dest tr its fbs"
  then have "list_all2 (carries dest tr) (only_files its) fbs" by (simp add: received_def)
  then have "\<forall>fb \<in> set fbs. nul_free (fst fb)"
    by (induction rule: list_all2_induct) (auto dest: carries_nul_free)
  then show ?thesis by auto
qed

text \<open>The network thread's part of the log.\<close>

definition network_log :: "(syscall \<times> reply) list \<Rightarrow> bool" where
  "network_log tr \<longleftrightarrow> (\<forall>e \<in> set tr. hands_off e) \<and> orderly tr"

lemma network_no_rename: "network_log tr \<Longrightarrow> no_rename tr"
  by (fastforce simp: network_log_def hands_off_def)

lemma read_entries_trace:
  assumes "read_entries B k dest verify s = (r, s')" and "trace (os_of s') = trace (os_of s) @ pre"
  shows "network_log pre"
proof -
  from specD [OF read_entries_keeps [of "\<lambda>_. True"] _ assms(1)] assms(2) have "\<forall>e \<in> set pre. hands_off e"
    by (auto simp: net_adds_def adds_def)
  moreover from specD [OF orders.read_entries_r [where A = "\<lambda>_. True"] _ assms(1)] assms(2) have "orderly pre"
    by (auto simp: net_orderly_def)
  ultimately show ?thesis by (simp add: network_log_def)
qed

text \<open>A pipeline is the network thread's run and then the writer's, on the messages of whole files and a part.\<close>

lemma run_pipeline_split:
  assumes e: "run_pipeline B k dest verify durable s = (r, s')" and B: "blake3_ok B absorbed"
  obtains its fbs rest part pre y sh sh' x where
    "received dest pre its fbs" "begins_part dest pre part" "network_log pre"
    "staged_rem (n_in s) = concat (map (frame B verify) its) @ rest" "same_out (n_in s) (n_in s')"
    "trace (sh_os sh) = trace (os_of s) @ pre" "write_loop k durable None (session_msgs fbs part) sh = (y, sh')"
    "n_sh s' = sh'" "r = (case y of Inl err \<Rightarrow> Inl err | Inr _ \<Rightarrow> x)"
    "\<forall>st. x = Inr st \<longrightarrow> part = None \<and> rest = write_terminator @ staged_rem (n_in s') \<and>
         st = foldl count_item stats_default its"
proof -
  obtain x t where x: "read_entries B k dest verify (s\<lparr>n_sent := []\<rparr>) = (x, t)"
    by (cases "read_entries B k dest verify (s\<lparr>n_sent := []\<rparr>)")
  obtain y sh where y: "write_loop k durable None (forwarded B verify (n_sent t)) (n_sh t) = (y, sh)"
    by (cases "write_loop k durable None (forwarded B verify (n_sent t)) (n_sh t)")
  have s': "n_sh s' = sh" "n_in s' = n_in t" and r: "r = (case y of Inl err \<Rightarrow> Inl err | Inr _ \<Rightarrow> x)"
    using e x y by (auto simp: run_pipeline_def split: sum.splits)
  from read_entries_log [OF x B] obtain its fbs rest part pre where
    log: "trace (os_of t) = trace (os_of s) @ pre" "received dest pre its fbs" "begins_part dest pre part"
      "staged_rem (n_in s) = concat (map (frame B verify) its) @ rest"
      "no_fin (n_sent t) = session_msgs fbs part"
      "\<forall>st. x = Inr st \<longrightarrow> part = None \<and> rest = write_terminator @ staged_rem (n_in t) \<and>
         st = foldl count_item stats_default its"
    by auto
  have nl: "network_log pre" using read_entries_trace [OF x, of pre] log(1) by simp
  from y log(5) have w: "write_loop k durable None (session_msgs fbs part) (n_sh t) = (y, sh)"
    by (simp add: write_forwarded)
  have "same_out (n_in s) (n_in s')" using read_entries_outgoing [OF x] s' by simp
  from that [OF log(2,3) nl log(4) this log(1) w s'(1) r] log(6) s'(2) show thesis by simp
qed

lemma run_pipeline_log:
  assumes e: "run_pipeline B k dest verify durable s = (r, s')" and B: "blake3_ok B absorbed"
  shows "\<exists>its fbs rest pre new. received dest pre its fbs \<and>
      staged_rem (n_in s) = concat (map (frame B verify) its) @ rest \<and>
      trace (os_of s') = trace (os_of s) @ pre @ new \<and> network_log pre \<and>
      same_out (n_in s) (n_in s') \<and>
      (case r of
         Inl _ \<Rightarrow> \<exists>ok. session_log durable fbs ok new
       | Inr st \<Rightarrow> session_log durable fbs True new \<and> st = foldl count_item stats_default its \<and>
           rest = write_terminator @ staged_rem (n_in s'))"
proof -
  from assms obtain its fbs rest part pre y sh sh' x where
    *: "received dest pre its fbs" "begins_part dest pre part" "network_log pre"
      "staged_rem (n_in s) = concat (map (frame B verify) its) @ rest" "same_out (n_in s) (n_in s')"
      "trace (sh_os sh) = trace (os_of s) @ pre" "write_loop k durable None (session_msgs fbs part) sh = (y, sh')"
      "n_sh s' = sh'" "r = (case y of Inl err \<Rightarrow> Inl err | Inr _ \<Rightarrow> x)"
      "\<forall>st. x = Inr st \<longrightarrow> part = None \<and> rest = write_terminator @ staged_rem (n_in s') \<and>
         st = foldl count_item stats_default its"
    by (rule run_pipeline_split)
  from writer_log [OF *(7) received_nul_free [OF *(1)]] obtain new where
    new: "trace (sh_os sh') = trace (sh_os sh) @ new" "session_log durable fbs (y = Inr ()) new" by auto
  have tr: "trace (os_of s') = trace (os_of s) @ pre @ new" using *(6,8) new(1) by simp
  have "case r of
         Inl _ \<Rightarrow> \<exists>ok. session_log durable fbs ok new
       | Inr st \<Rightarrow> session_log durable fbs True new \<and> st = foldl count_item stats_default its \<and>
           rest = write_terminator @ staged_rem (n_in s')"
    using *(9,10) new(2) by (auto split: sum.splits)
  with *(1,3-5) tr show ?thesis by blast
qed

text \<open>A log of all files is their logs one after the other.\<close>

lemma session_log_all:
  assumes "session_log durable fbs True new"
  shows "\<exists>logs rest. new = concat logs @ rest \<and> no_rename rest \<and>
    list_all2 (\<lambda>(f, b) l. file_log durable f b l True) fbs logs"
  using assms unfolding session_log_def by fastforce

end
