(* ===== verification/Durable.thy ===== *)
theory Durable
  imports Delivery
begin

text \<open>
  Durability: in a session with a registry every directory in which a name was made is
  registered under its identity, and every registered identity is flushed through one of
  the descriptors that carry it, before the acknowledgement.
\<close>

section \<open>What the writer does, for any effect\<close>

text \<open>
  The counterpart of \<open>net_effect\<close>: harmless calls, and for the files \<open>F\<close> that the messages put in
  flight the writes, the change of mode and the rename with the registration that follows it.
\<close>

locale writer_effect = effect R for R :: "'w shared \<Rightarrow> 'w shared \<Rightarrow> bool" +
  fixes k :: "'w kernel" and F :: "inflight set"
  assumes step: "adds harmless (sh_os s) (sh_os s') \<Longrightarrow> sh_regs s' = sh_regs s \<Longrightarrow> R s s'"
    and writes: "on_os (file_write_all k (if_file f) bs) s = (r, s') \<Longrightarrow> f \<in> F \<Longrightarrow> R s s'"
    and chmods: "on_os (set_mode_fd k (if_file f) (if_mode f)) s = (r, s') \<Longrightarrow> if_mode f AND 0x180 \<noteq> 0x180 \<Longrightarrow>
      f \<in> F \<Longrightarrow> R s s'"
    and publishes: "publish k f s = (r, s') \<Longrightarrow> f \<in> F \<Longrightarrow> R s s'"
begin

lemma w_os: "spec (adds harmless) (\<lambda>_. True) m (\<lambda>_ _. True) \<Longrightarrow> spec R P (on_os m) (\<lambda>_ _. True)"
  by (rule specI) (auto dest!: on_os_state specD intro!: step)

lemma w_ignore: "spec R P m (\<lambda>_ _. True) \<Longrightarrow> spec R P (io_ignore m) (\<lambda>_ _. True)"
  by (rule spec_ignore) auto

lemma w_bind:
  "spec R P m (\<lambda>_ _. True) \<Longrightarrow> (\<And>v. spec R (\<lambda>_. True) (f v) (\<lambda>_ _. True)) \<Longrightarrow>
   spec R P (io_bind m f) (\<lambda>_ _. True)"
  by (rule spec_bind)

lemma w_quiet:
  "(\<And>s. sh_os (snd (m s)) = sh_os s \<and> sh_regs (snd (m s)) = sh_regs s) \<Longrightarrow> spec R P m (\<lambda>_ _. True)"
  by (rule specI) (metis adds.refl snd_conv step)

lemma w_handle:
  assumes m: "spec R (\<lambda>_. True) m (\<lambda>_ _. True)"
    and h: "\<And>e. spec R (\<lambda>_. True) (h e) (\<lambda>_ _. True)" and g: "\<And>v. spec R (\<lambda>_. True) (g v) (\<lambda>_ _. True)"
  shows "spec R P (\<lambda>s. case m s of (Inl e, t) \<Rightarrow> h e t | (Inr v, t) \<Rightarrow> g v t) (\<lambda>_ _. True)"
proof (rule specI)
  fix s r s' assume e: "(case m s of (Inl e, t) \<Rightarrow> h e t | (Inr v, t) \<Rightarrow> g v t) = (r, s')"
  obtain x t where x: "m s = (x, t)" by (cases "m s")
  from specD [OF m _ x] have "R s t" by simp
  moreover have "R t s'"
  proof (cases x)
    case (Inl err)
    with x e have "h err t = (r, s')" by simp
    from specD [OF h TrueI this] show ?thesis by simp
  next
    case (Inr v)
    with x e have "g v t = (r, s')" by simp
    from specD [OF g TrueI this] show ?thesis by simp
  qed
  ultimately show "R s s' \<and> (\<forall>v. r = Inr v \<longrightarrow> True)" using trans by blast
qed

lemma w_drop: "spec R P (drop_inflight k f) (\<lambda>_ _. True)"
  unfolding drop_inflight_def by (intro spec_if w_ignore w_os unlink_at_harmless spec_return) auto

lemma w_drop_current: "spec R P (drop_current k cur) (\<lambda>_ _. True)"
  unfolding drop_current_def by (intro spec_case_option spec_return w_drop) simp

lemma w_drop_msgs: "spec R P (drop_msgs k ms) (\<lambda>_ _. True)"
proof (induction ms arbitrary: P)
  case Nil
  show ?case unfolding drop_msgs.simps by (rule spec_return) simp
next
  case (Cons m ms)
  show ?case by (cases m; simp only: drop_msgs.simps) (intro w_bind w_drop Cons)+
qed

lemma w_abandon: "spec R P (abandon k f ms err) (\<lambda>_ _. True)"
  unfolding abandon_def by (intro w_bind w_drop w_drop_msgs spec_throw)

lemma w_complete: "f \<in> F \<Longrightarrow> spec R P (complete k durable f) (\<lambda>_ _. True)"
proof -
  assume F: "f \<in> F"
  have p: "spec R P (publish k f) (\<lambda>_ _. True)" for P
    by (rule specI) (use publishes F in blast)
  have m: "spec R P (on_os (set_mode_fd k (if_file f) (if_mode f))) (\<lambda>_ _. True)"
    if "if_mode f AND 0x180 \<noteq> 0x180" for P
    by (rule specI) (use chmods F that in blast)
  have f: "spec (adds harmless) P (full_fsync k d) (\<lambda>_ _. True)" for P d
    unfolding full_fsync_def
    by (intro adds.spec_catch [where P' = "\<lambda>_. True"] call_unit_adds spec_if adds.spec_throw) simp_all
  have c: "complete k durable f =
     io_bind (if if_mode f AND 0x180 \<noteq> 0x180
              then io_ignore (on_os (set_mode_fd k (if_file f) (if_mode f)))
              else io_return ()) (\<lambda>_.
     io_bind (io_ignore (on_os (set_mtime_fd k (if_file f) (if_mtime f)))) (\<lambda>_.
     io_bind (if durable then on_os (full_fsync k (if_file f)) else io_return ()) (\<lambda>_. publish k f)))"
    by (simp add: complete_def publish_def)
  show ?thesis
    unfolding c set_mtime_fd_def
    by (intro w_bind p spec_if w_ignore m w_os f call_unit_adds spec_return) simp_all
qed

lemma w_write: "f \<in> F \<Longrightarrow> spec R P (on_os (file_write_all k (if_file f) bs)) (\<lambda>_ _. True)"
  by (rule specI) (use writes in blast)

lemma write_loop_r:
  "set_option cur \<union> set (begun ms) \<subseteq> F \<Longrightarrow> spec R P (write_loop k durable cur ms) (\<lambda>_ _. True)"
proof (induction ms arbitrary: P cur)
  case Nil
  show ?case unfolding write_loop.simps by (intro w_bind w_drop_current spec_return) simp
next
  case (Cons m ms)
  have d: "spec R P (with_diag g) (\<lambda>_ _. True)" for P g
    by (rule w_quiet) (simp add: with_diag_def)
  have mk: "spec R P (mark_finished f) (\<lambda>_ _. True)" for P f
    by (rule w_quiet) (simp add: mark_finished_def)
  have inF: "cur = Some f \<Longrightarrow> f \<in> F" for f using Cons.prems by auto
  show ?case
  proof (cases m)
    case (Begin f)
    with Cons.prems have "set_option (Some f) \<union> set (begun ms) \<subseteq> F" by auto
    from Cons.IH [OF this] show ?thesis
      unfolding Begin write_loop.simps by (intro w_bind w_drop_current)
  next
    case (Data b n)
    with Cons.prems have "set_option cur \<union> set (begun ms) \<subseteq> F" by auto
    note ih = Cons.IH [OF this]
    show ?thesis
      unfolding Data write_loop.simps
      by (intro w_bind spec_case_option w_handle w_drop_current w_drop w_abandon d ih
          Cons.IH w_write inF; (use \<open>set_option cur \<union> set (begun ms) \<subseteq> F\<close> in auto)?)
  next
    case EndFile
    with Cons.prems have "set_option None \<union> set (begun ms) \<subseteq> F" by auto
    note ih = Cons.IH [OF this]
    from EndFile Cons.prems have c: "set_option cur \<union> set (begun ms) \<subseteq> F" by auto
    show ?thesis
      unfolding EndFile write_loop.simps
      by (intro w_bind spec_case_option w_handle w_drop_current w_drop w_abandon w_complete inF mk ih Cons.IH; (use c in auto)?)
  next
    case Finish
    with Cons.prems have "set_option cur \<union> set (begun ms) \<subseteq> F" by auto
    from Cons.IH [OF this] show ?thesis unfolding Finish write_loop.simps by simp
  qed
qed

end

section \<open>Registrations\<close>

definition ident_of :: "reply \<Rightarrow> u64 \<times> u64" where
  "ident_of r = (st_dev (stat_of r), st_ino (stat_of r))"

text \<open>The identities that a log found out, each with the descriptor it was asked of.\<close>

definition identified :: "(syscall \<times> reply) list \<Rightarrow> fd \<Rightarrow> u64 \<times> u64 \<Rightarrow> bool" where
  "identified tr d i \<longleftrightarrow> (\<exists>r. (Fstat d, r) \<in> set tr \<and> succeeded (Fstat d, r) \<and> ident_of r = i)"

text \<open>The registry after a log: it knows what the log identified, and holds descriptors for it.\<close>

definition covers :: "(syscall \<times> reply) list \<Rightarrow> registry \<Rightarrow> registry \<Rightarrow> bool" where
  "covers tr R R' \<longleftrightarrow>
     set (seen R) \<subseteq> set (seen R') \<and> set (reg_dirs R) \<subseteq> set (reg_dirs R') \<and>
     (\<forall>d i. identified tr d i \<longrightarrow> i \<in> set (seen R')) \<and>
     (\<forall>i \<in> set (seen R') - set (seen R). \<exists>d \<in> set (reg_dirs R'). identified tr d i)"

lemma identified_append [simp]: "identified (a @ b) d i \<longleftrightarrow> identified a d i \<or> identified b d i"
  by (auto simp: identified_def)

lemma identified_basic: "\<forall>e \<in> set tr. basic e \<Longrightarrow> \<not> identified tr d i"
  by (force simp: identified_def basic_def)

lemma covers_refl: "\<forall>e \<in> set tr. basic e \<Longrightarrow> covers tr R R"
  by (simp add: covers_def identified_basic)

lemma covers_trans: "covers a R R' \<Longrightarrow> covers b R' R'' \<Longrightarrow> covers (a @ b) R R''"
  unfolding covers_def identified_append by (blast dest: subsetD)

text \<open>Every rename that succeeds is followed by the identification of its directory.\<close>

definition followed :: "(syscall \<times> reply) list \<Rightarrow> bool" where
  "followed tr \<longleftrightarrow>
     (\<forall>a d t d' n rep b. tr = a @ (RenameAt d t d' n, rep) # b \<longrightarrow> succeeded (RenameAt d t d' n, rep) \<longrightarrow>
        (\<exists>r b'. b = (Fstat d, r) # b'))"

lemma followed_append: "followed a \<Longrightarrow> followed b \<Longrightarrow> followed (a @ b)"
  unfolding followed_def
proof (intro allI impI)
  fix p d t d' n rep q
  assume a: "\<forall>p d t d' n rep q. a = p @ (RenameAt d t d' n, rep) # q \<longrightarrow>
        succeeded (RenameAt d t d' n, rep) \<longrightarrow> (\<exists>r b'. q = (Fstat d, r) # b')"
    and b: "\<forall>p d t d' n rep q. b = p @ (RenameAt d t d' n, rep) # q \<longrightarrow>
        succeeded (RenameAt d t d' n, rep) \<longrightarrow> (\<exists>r b'. q = (Fstat d, r) # b')"
    and e: "a @ b = p @ (RenameAt d t d' n, rep) # q" and s: "succeeded (RenameAt d t d' n, rep)"
  from split_at_Cons [OF e] show "\<exists>r b'. q = (Fstat d, r) # b'"
  proof (elim disjE exE conjE)
    fix us assume "a = p @ (RenameAt d t d' n, rep) # us" "q = us @ b"
    with a s show ?thesis by fastforce
  next
    fix us assume "b = us @ (RenameAt d t d' n, rep) # q"
    with b s show ?thesis by blast
  qed
qed

lemma followed_no_rename: "no_rename tr \<Longrightarrow> followed tr"
  unfolding followed_def using no_rename_notin by (metis in_set_conv_decomp)

definition tracks :: "'w shared \<Rightarrow> 'w shared \<Rightarrow> bool" where
  "tracks s s' \<longleftrightarrow>
     (\<exists>new. trace (sh_os s') = trace (sh_os s) @ new \<and>
        (case sh_regs s of
           None \<Rightarrow> sh_regs s' = None
         | Some R \<Rightarrow> \<exists>R'. sh_regs s' = Some R' \<and> covers new R R' \<and> followed new))"

lemma tracks_step:
  assumes "adds basic (sh_os s) (sh_os s')" "sh_regs s' = sh_regs s"
  shows "tracks s s'"
proof -
  from assms(1) obtain new where new: "trace (sh_os s') = trace (sh_os s) @ new" "\<forall>e \<in> set new. basic e"
    by (auto simp: adds_def)
  then have "no_rename new" by (auto simp: basic_def)
  with new covers_refl [OF new(2)] followed_no_rename assms(2) show ?thesis
    by (auto simp: tracks_def split: option.splits)
qed

interpretation tracks: effect tracks
proof
  fix s :: "'a shared" show "tracks s s" by (rule tracks_step) (auto simp: adds.refl)
next
  fix s t u :: "'a shared" assume "tracks s t" "tracks t u"
  then obtain a b where ab: "trace (sh_os t) = trace (sh_os s) @ a" "trace (sh_os u) = trace (sh_os t) @ b"
      "case sh_regs s of None \<Rightarrow> sh_regs t = None
         | Some R \<Rightarrow> \<exists>R'. sh_regs t = Some R' \<and> covers a R R' \<and> followed a"
      "case sh_regs t of None \<Rightarrow> sh_regs u = None
         | Some R \<Rightarrow> \<exists>R'. sh_regs u = Some R' \<and> covers b R R' \<and> followed b"
    unfolding tracks_def by blast
  show "tracks s u"
    unfolding tracks_def
    by (rule exI [of _ "a @ b"])
      (use ab in \<open>auto split: option.splits intro: covers_trans followed_append\<close>)
qed

lemma register_parent_detail:
  assumes "register_parent k d s = (r, s')" "sh_regs s = Some R"
  shows "\<exists>rep R'. trace (sh_os s') = trace (sh_os s) @ [(Fstat d, rep)] \<and> sh_regs s' = Some R' \<and>
    covers [(Fstat d, rep)] R R'"
proof -
  obtain rep w where c: "call_raw k (Fstat d) (sh_os s) = (rep, w)"
    by (cases "call_raw k (Fstat d) (sh_os s)")
  note tr = call_raw_log [OF c]
  show ?thesis
  proof (cases "succeeded (Fstat d, rep)")
    case False
    then obtain x where "rep = Failed x" by (auto simp: succeeded_def)
    with assms c tr have "sh_os s' = w" "sh_regs s' = Some R"
      by (auto simp: register_parent_def register_def fd_identity_def on_os_def zoom_def call_def io_bind_def)
    with tr False show ?thesis
      by (intro exI [of _ rep] exI [of _ R]) (auto simp: covers_def identified_def)
  next
    case True
    let ?R = "reg_insert (ident_of rep) d R"
    have "sh_os s' = w" "sh_regs s' = Some ?R"
      using True assms c
      by (cases rep; auto simp: register_parent_def register_def fd_identity_def on_os_def zoom_def
          call_def io_bind_def ident_of_def succeeded_def)+
    with tr True show ?thesis
      by (intro exI [of _ rep] exI [of _ ?R]) (auto simp: covers_def identified_def reg_insert_def)
  qed
qed

lemma register_parent_tracks: "register_parent k d s = (r, s') \<Longrightarrow> tracks s s'"
proof (cases "sh_regs s")
  case (Some R)
  assume "register_parent k d s = (r, s')"
  from register_parent_detail [OF this Some] Some show ?thesis
    by (auto simp: tracks_def intro!: followed_no_rename)
qed (simp add: register_parent_def tracks.refl)

lemma followed_rename:
  "\<not> succeeded (RenameAt d t d' n, rep) \<or> (\<exists>r g'. g = (Fstat d, r) # g') \<Longrightarrow> no_rename g \<Longrightarrow>
   followed ((RenameAt d t d' n, rep) # g)"
proof -
  assume h: "\<not> succeeded (RenameAt d t d' n, rep) \<or> (\<exists>r g'. g = (Fstat d, r) # g')" and g: "no_rename g"
  have "followed g" using g by (rule followed_no_rename)
  show ?thesis
    unfolding followed_def
  proof (intro allI impI)
    fix a d1 t1 d1' n1 rep1 b
    assume e: "(RenameAt d t d' n, rep) # g = a @ (RenameAt d1 t1 d1' n1, rep1) # b"
      and s: "succeeded (RenameAt d1 t1 d1' n1, rep1)"
    show "\<exists>r b'. b = (Fstat d1, r) # b'"
    proof (cases a)
      case Nil
      with e s h show ?thesis by auto
    next
      case (Cons x a')
      with e have "g = a' @ (RenameAt d1 t1 d1' n1, rep1) # b" by simp
      with no_rename_notin [OF g, of d1 t1 d1' n1 rep1] show ?thesis by simp
    qed
  qed
qed

lemma publish_tracks:
  assumes "publish k f s = (r, s')"
  shows "tracks s s'"
proof (cases "if_final f")
  case None
  with assms show ?thesis by (simp add: publish_def tracks.refl)
next
  case (Some n)
  let ?c = "RenameAt (if_parent f) (if_name f) (if_parent f) n"
  obtain x t where x: "on_os (rename_at k (if_parent f) (if_name f) n) s = (x, t)"
    by (cases "on_os (rename_at k (if_parent f) (if_name f) n) s")
  note o = on_os_state [OF x]
  show ?thesis
  proof (cases "0 \<in> set (if_name f) \<or> 0 \<in> set n")
    case True
    with o have "sh_os t = sh_os s" "sh_regs t = sh_regs s" "x = Inl (IoError InvalidInput NameContainsNul)"
      by (cases "0 \<in> set (if_name f)"; auto simp: rename_at_def cstr_def io_bind_def)+
    with assms Some x show ?thesis by (auto simp: publish_def intro!: tracks_step simp: adds.refl)
  next
    case False
    then have ren: "rename_at k (if_parent f) (if_name f) n = call_unit k ?c"
      by (auto simp: rename_at_def cstr_def io_bind_def)
    with o call_unit_log obtain rep where
      t: "trace (sh_os t) = trace (sh_os s) @ [(?c, rep)]" "x = Inr () \<longleftrightarrow> succeeded (?c, rep)"
        "sh_regs t = sh_regs s"
      by fastforce
    have single: "covers [(?c, rep)] R R" for R by (simp add: covers_def identified_def)
    show ?thesis
    proof (cases x)
      case (Inl e)
      with assms Some x have s': "s' = t" by (simp add: publish_def)
      have "followed [(?c, rep)]" using t(2) Inl by (intro followed_rename) auto
      with t single s' show ?thesis by (auto simp: tracks_def split: option.splits)
    next
      case (Inr v)
      with assms Some x have g: "register_parent k (if_parent f) t = (r, s')" by (simp add: publish_def)
      show ?thesis
      proof (cases "sh_regs t")
        case None
        with g t show ?thesis by (auto simp: tracks_def register_parent_def)
      next
        case R: (Some R)
        from register_parent_detail [OF g R] obtain q R' where
          q: "trace (sh_os s') = trace (sh_os t) @ [(Fstat (if_parent f), q)]" "sh_regs s' = Some R'"
            "covers [(Fstat (if_parent f), q)] R R'" by blast
        have "covers ([(?c, rep)] @ [(Fstat (if_parent f), q)]) R R'"
          by (rule covers_trans [OF single q(3)])
        moreover have "followed [(?c, rep), (Fstat (if_parent f), q)]" by (rule followed_rename) auto
        moreover have "sh_regs s = Some R" using R t(3) by simp
        ultimately show ?thesis using t(1) q by (auto simp: tracks_def)
      qed
    qed
  qed
qed

lemma harmless_basic: "adds harmless s s' \<Longrightarrow> adds basic s s'"
  by (erule adds_mono) (intro creating_basic harmless_creating)

lemma on_os_tracks:
  assumes "spec (adds basic) (\<lambda>_. True) m (\<lambda>_ _. True)" and "on_os m s = (r, s')"
  shows "tracks s s'"
  using on_os_state [OF assms(2)] specD [OF assms(1)] by (intro tracks_step) auto

interpretation writes: writer_effect tracks k UNIV for k
proof (unfold_locales)
  fix s s' :: "'a shared" assume "adds harmless (sh_os s) (sh_os s')" "sh_regs s' = sh_regs s"
  then show "tracks s s'" by (intro tracks_step harmless_basic)
next
  fix f bs s r s' assume "on_os (file_write_all k (if_file f) bs) s = (r, s')"
  then show "tracks s s'"
    by (rule on_os_tracks [rotated]) (simp add: file_write_all_def call_unit_adds)
next
  fix f s r s' assume "on_os (set_mode_fd k (if_file f) (if_mode f)) s = (r, s')"
  then show "tracks s s'"
    by (rule on_os_tracks [rotated]) (simp add: set_mode_fd_def call_unit_adds)
qed (rule publish_tracks)

definition net_tracks :: "'w net \<Rightarrow> 'w net \<Rightarrow> bool" where
  "net_tracks s s' \<longleftrightarrow> tracks (n_sh s) (n_sh s')"

interpretation reads: net_effect net_tracks k for k
proof
  fix s :: "'a net" show "net_tracks s s" by (simp add: net_tracks_def tracks.refl)
next
  fix s t u :: "'a net" assume "net_tracks s t" "net_tracks t u"
  then show "net_tracks s u" unfolding net_tracks_def by (rule tracks.trans)
next
  fix s s' :: "'a net" assume "adds harmless (os_of s) (os_of s')" "sh_regs (n_sh s') = sh_regs (n_sh s)"
  then show "net_tracks s s'" unfolding net_tracks_def by (intro tracks_step harmless_basic)
next
  fix d n m s x s' assume "net_os (create_payload_file k d n (m OR 0x180)) s = (x, s')"
  from net_os_state [OF this] obtain o' where
    o: "create_payload_file k d n (m OR 0x180) (os_of s) = (x, o')" "s' = s\<lparr>n_sh := (n_sh s)\<lparr>sh_os := o'\<rparr>\<rparr>" by auto
  from specD [OF create_payload_opens [where A = "\<lambda>_. True"] _ o(1)] have "adds basic (os_of s) (os_of s')"
    using o(2) by (auto intro: adds_mono creating_basic)
  with o(2) show "net_tracks s s'" unfolding net_tracks_def by (intro tracks_step) simp_all
next
  fix d s r s' assume "net_sh (register_parent k d) s = (r, s')"
  then show "net_tracks s s'"
    by (auto simp: net_sh_def zoom_eq net_tracks_def dest: register_parent_tracks)
qed

text \<open>So for a pipeline, whatever its outcome.\<close>

lemma run_pipeline_tracks:
  assumes "run_pipeline B k dest verify durable s = (r, s')"
  shows "net_tracks s s'"
proof -
  obtain x t where x: "read_entries B k dest verify (s\<lparr>n_sent := []\<rparr>) = (x, t)"
    by (cases "read_entries B k dest verify (s\<lparr>n_sent := []\<rparr>)")
  obtain y sh where y: "write_loop k durable None (forwarded B verify (n_sent t)) (n_sh t) = (y, sh)"
    by (cases "write_loop k durable None (forwarded B verify (n_sent t)) (n_sh t)")
  from specD [OF reads.read_entries_r [where A = "\<lambda>_. True"] _ x] have "net_tracks s t"
    by (simp add: net_tracks_def)
  moreover from specD [OF writes.write_loop_r [OF subset_UNIV, where P = "\<lambda>_. True"] _ y] have "tracks (n_sh t) sh" by simp
  moreover have "n_sh s' = sh" using assms x y by (auto simp: run_pipeline_def split: sum.splits)
  ultimately show ?thesis using tracks.trans by (auto simp: net_tracks_def)
qed

section \<open>Whose files the writer touches\<close>

text \<open>
  The writer creates nothing; it writes to the descriptors of the files put in flight, and
  changes the mode of those whose owner lacks a bit, to the nine bits that were sent.
\<close>

definition owned :: "inflight set \<Rightarrow> syscall \<times> reply \<Rightarrow> bool" where
  "owned F e \<longleftrightarrow>
     (\<forall>d n fl m. fst e = OpenAt d n fl m \<longrightarrow> O_CREAT \<notin> set fl) \<and>
     (\<forall>fd bs. fst e = WriteAll fd bs \<longrightarrow> (\<exists>f \<in> F. if_file f = fd)) \<and>
     (\<forall>fd m. fst e = Fchmod fd m \<longrightarrow>
        (\<exists>f \<in> F. if_file f = fd \<and> if_mode f AND 0x180 \<noteq> 0x180 \<and> m = ucast (if_mode f AND 0x1FF)))"

lemma owned_simps [simp]:
  "owned F (WriteAll fd bs, r) \<longleftrightarrow> (\<exists>f \<in> F. if_file f = fd)" "owned F (RenameAt d a d' b, r)"
  "owned F (Fchmod fd m, r) \<longleftrightarrow>
     (\<exists>f \<in> F. if_file f = fd \<and> if_mode f AND 0x180 \<noteq> 0x180 \<and> m = ucast (if_mode f AND 0x1FF))"
  by (auto simp: owned_def)

lemma harmless_owned: "harmless e \<Longrightarrow> owned F e"
  by (auto simp: harmless_def creating_def owned_def)

interpretation owns: writer_effect "adds_sh (owned F)" k F for k F
proof (unfold_locales)
  fix s s' :: "'a shared" assume "adds harmless (sh_os s) (sh_os s')"
  then show "adds_sh (owned F) s s'" unfolding adds_sh_def by (rule adds_mono) (rule harmless_owned)
next
  fix f bs s r s' assume e: "on_os (file_write_all k (if_file f) bs) s = (r, s')" and f: "f \<in> F"
  have "spec (adds (owned F)) (\<lambda>_. True) (file_write_all k (if_file f) bs) (\<lambda>_ _. True)"
    unfolding file_write_all_def using f by (intro call_unit_adds) auto
  from specD [OF on_os_adds [OF this] TrueI e] show "adds_sh (owned F) s s'" .
next
  fix f s r s' assume e: "on_os (set_mode_fd k (if_file f) (if_mode f)) s = (r, s')"
    and f: "if_mode f AND 0x180 \<noteq> 0x180" "f \<in> F"
  have "spec (adds (owned F)) (\<lambda>_. True) (set_mode_fd k (if_file f) (if_mode f)) (\<lambda>_ _. True)"
    unfolding set_mode_fd_def using f by (intro call_unit_adds) auto
  from specD [OF on_os_adds [OF this] TrueI e] show "adds_sh (owned F) s s'" .
next
  fix f s r s' assume e: "publish k f s = (r, s')"
  have g: "spec (adds_sh (owned F)) P (register_parent k d) (\<lambda>_ _. True)" for P d
  proof (rule specI)
    fix s r s' assume "register_parent k d s = (r, s')"
    from register_parent_log [OF this] obtain g where
      "trace (sh_os s') = trace (sh_os s) @ g" "\<forall>e \<in> set g. fst e = Fstat d" by auto
    then show "adds_sh (owned F) s s' \<and> (\<forall>v. r = Inr v \<longrightarrow> True)"
      by (auto simp: adds_sh_def adds_def owned_def)
  qed
  have n: "spec (adds (owned F)) (\<lambda>_. True) (rename_at k d a b) (\<lambda>_ _. True)" for d a b
    unfolding rename_at_def by (intro adds_cstr call_unit_adds) simp
  have "spec (adds_sh (owned F)) (\<lambda>_. True) (publish k f) (\<lambda>_ _. True)"
    unfolding publish_def
    by (intro spec_case_option adds_sh.spec_bind [OF on_os_adds [OF n] g] adds_sh.spec_return) simp
  from specD [OF this TrueI e] show "adds_sh (owned F) s s'" .
qed

lemma begun_messages:
  "set (begun (session_msgs fbs part)) = fst ` set fbs \<union> (case part of None \<Rightarrow> {} | Some fb \<Rightarrow> {fst fb})"
proof -
  have n: "begun (map data_msg b) = []" for b
    using data_msgs_no_begin [of b "[]"] by simp
  have "set (begun (partial_msgs part)) = (case part of None \<Rightarrow> {} | Some fb \<Rightarrow> {fst fb})"
    using n by (cases part rule: partial_msgs.cases) auto
  then show ?thesis
  proof (induction fbs)
    case (Cons fb fbs)
    then show ?case
      by (cases fb) (simp add: session_msgs_simps file_msgs_def n)
  qed (simp add: session_msgs_simps)
qed

text \<open>So of a pipeline, however it ends: each such file was created for an entry before.\<close>

lemma run_pipeline_owned:
  assumes "run_pipeline B k dest verify durable s = (r, s')" and "blake3_ok B absorbed"
  shows "\<exists>pre new F. trace (os_of s') = trace (os_of s) @ pre @ new \<and> network_log pre \<and>
    (\<forall>e \<in> set new. owned F e) \<and> (\<forall>f \<in> F. \<exists>e. begins dest pre e f)"
proof -
  from assms obtain its fbs rest part pre y sh sh' x where
    *: "received dest pre its fbs" "begins_part dest pre part" "network_log pre"
      "staged_rem (n_in s) = concat (map (frame B verify) its) @ rest" "same_out (n_in s) (n_in s')"
      "trace (sh_os sh) = trace (os_of s) @ pre" "write_loop k durable None (session_msgs fbs part) sh = (y, sh')"
      "n_sh s' = sh'" "r = (case y of Inl err \<Rightarrow> Inl err | Inr _ \<Rightarrow> x)"
      "\<forall>st. x = Inr st \<longrightarrow> part = None \<and> rest = write_terminator @ staged_rem (n_in s') \<and>
         st = foldl count_item stats_default its"
    by (rule run_pipeline_split)
  let ?F = "set (begun (session_msgs fbs part))"
  have "set_option None \<union> ?F \<subseteq> ?F" by simp
  from specD [OF owns.write_loop_r [OF this, where P = "\<lambda>_. True"] _ *(7)] obtain new where
    new: "trace (sh_os sh') = trace (sh_os sh) @ new" "\<forall>e \<in> set new. owned ?F e"
    by (auto simp: adds_sh_def adds_def)
  have "\<exists>e. begins dest pre e f" if f: "f \<in> ?F" for f
  proof (cases "f \<in> fst ` set fbs")
    case True
    then obtain b where b: "(f, b) \<in> set fbs" by auto
    from *(1) have "list_all2 (carries dest pre) (only_files its) fbs" by (simp add: received_def)
    with b obtain it where "carries dest pre it (f, b)"
      by (metis in_set_conv_nth list_all2_conv_all_nth)
    then show ?thesis by (auto simp: carries_def)
  next
    case False
    with f *(2) show ?thesis by (auto simp: begun_messages begins_part_def split: option.splits)
  qed
  with *(3,6,8) new show ?thesis by (intro exI [of _ pre] exI [of _ new] exI [of _ ?F]) simp
qed

lemma owned_orderly: "\<forall>e \<in> set tr. owned F e \<Longrightarrow> orderly tr"
  by (rule orderly_all) (auto simp: owned_def creation_ok_def)

lemma run_pipeline_orderly:
  assumes "run_pipeline B k dest verify durable s = (r, s')" and "blake3_ok B absorbed"
    and "trace (os_of s') = trace (os_of s) @ new"
  shows "orderly new"
proof -
  from run_pipeline_owned [OF assms(1,2)] assms(3) obtain pre tl F where
    "new = pre @ tl" "network_log pre" "\<forall>e \<in> set tl. owned F e" by auto
  then show ?thesis using orderly_trans owned_orderly by (auto simp: network_log_def)
qed

section \<open>The final flush\<close>

lemma flush_dirs_log:
  "flush_dirs k ds s = (Inr (), s') \<Longrightarrow>
   \<exists>fl. trace s' = trace s @ concat fl \<and> list_all2 (flush_ok True) ds fl"
proof (induction ds arbitrary: s)
  case (Cons d ds)
  then obtain t where t: "full_fsync k d s = (Inr (), t)" "flush_dirs k ds t = (Inr (), s')"
    by (auto simp: io_bind_Inr)
  from full_fsync_log [OF t(1)] obtain y where "trace t = trace s @ y" "flush_ok True d y" by auto
  moreover from Cons.IH [OF t(2)] obtain fl where
    "trace s' = trace t @ concat fl" "list_all2 (flush_ok True) ds fl" by blast
  ultimately show ?case by (intro exI [of _ "y # fl"]) simp
qed (auto intro: exI [of _ "[]"])

end
