(* ===== verification/Manifest.thy ===== *)
theory Manifest
  imports NetCalls
begin

text \<open>
  What the manifest answer says: one bit per file offered, in order, and a set bit only for
  a file that a \<open>fstatat\<close> of the answer found to be regular, of the announced size and time,
  under its name in the directory its path names.
\<close>

section \<open>One file\<close>

definition held :: "bytes \<Rightarrow> (syscall \<times> reply) list \<Rightarrow> entry \<Rightarrow> bool" where
  "held dest tr e \<longleftrightarrow>
     (\<exists>cs d st a b. sanitize (e_path e) = Inr cs \<and> tr = a @ (FstatAt d (last cs) True, Filled st) # b \<and>
        leads dest a (butlast cs) d \<and>
        st_mode st AND S_IFMT = S_IFREG \<and> st_size st = e_size e \<and> st_mtime st = e_mtime e)"

lemma held_mono: "held dest tr e \<Longrightarrow> held dest (p @ tr @ q) e"
  unfolding held_def
proof (elim exE conjE)
  fix cs d st a b
  assume "sanitize (e_path e) = Inr cs" "tr = a @ (FstatAt d (last cs) True, Filled st) # b"
    "leads dest a (butlast cs) d" "st_mode st AND S_IFMT = S_IFREG" "st_size st = e_size e" "st_mtime st = e_mtime e"
  moreover from this(3) have "leads dest (p @ a) (butlast cs) d" by (rule leads_mono) simp
  ultimately show "\<exists>cs d st a b. sanitize (e_path e) = Inr cs \<and>
      p @ tr @ q = a @ (FstatAt d (last cs) True, Filled st) # b \<and> leads dest a (butlast cs) d \<and>
      st_mode st AND S_IFMT = S_IFREG \<and> st_size st = e_size e \<and> st_mtime st = e_mtime e"
    by (intro exI [of _ cs] exI [of _ d] exI [of _ st] exI [of _ "p @ a"] exI [of _ "b @ q"]) simp
qed

lemma stat_file_log:
  assumes "stat_file_in_dir k d n s = (Inr (len, mtime), s')"
  shows "\<exists>st. trace s' = trace s @ [(FstatAt d n True, Filled st)] \<and> st_mode st AND S_IFMT = S_IFREG \<and>
    st_size st = len \<and> st_mtime st = mtime"
proof -
  from assms have n: "0 \<notin> set n" by (auto simp: stat_file_in_dir_def cstr_def io_bind_eq)
  obtain rep w where k: "k (FstatAt d n True) (kst s) = (rep, w)" by (cases "k (FstatAt d n True) (kst s)")
  have S: "S_IFREG \<noteq> 0" by (simp add: S_IFREG_def)
  show ?thesis
    using assms n k S
    by (cases rep) (auto simp: stat_file_in_dir_def cstr_def io_bind_eq call_def call_raw_def Let_def
        split: if_splits)
qed

lemma file_held_log:
  assumes "file_held k root cache e s = (r, s')"
  shows "\<exists>b cache' new. r = Inr (b, cache') \<and> trace s' = trace s @ new"
proof -
  from specD [OF file_held_reads [of "\<lambda>_. True"] _ assms] obtain new where
    "trace s' = trace s @ new" by (auto simp: adds_def)
  moreover have "\<exists>b cache'. r = Inr (b, cache')"
    using assms by (auto simp: file_held_def split: sum.splits prod.splits)
  ultimately show ?thesis by blast
qed

lemma file_held_at:
  assumes e: "file_held k root cache e s = (Inr (b, cache'), s')"
    and at: "stands dest n [] root s" and ca: "cache_at dest n cache s"
  shows "cache_at dest n cache' s' \<and> (b \<longrightarrow> held dest (log_from n s') e)"
proof (cases "sanitize (e_path e)")
  case (Inl err)
  with e ca show ?thesis by (auto simp: file_held_def)
next
  case (Inr cs)
  let ?get = "parent_get cache (butlast cs) (open_dir_chain k root (butlast cs))"
  obtain x t where x: "?get s = (x, t)" by (cases "?get s")
  have g: "spec grows (\<lambda>s. stands dest n [] root s \<and> cache_at dest n cache s) ?get
      (\<lambda>(d, cache') s. stands dest n (butlast cs) d s \<and> cache_at dest n cache' s)"
    by (rule parent_get_at [OF open_dir_chain_at])
  show ?thesis
  proof (cases x)
    case (Inl err)
    with e x Inr have "\<not> b" "cache' = cache" "s' = t" by (auto simp: file_held_def)
    with cache_at_grows [OF specD [OF g _ x] ca] at ca show ?thesis by simp
  next
    case x': (Inr v)
    obtain dir c where v: "v = (dir, c)" by (cases v)
    from specE [OF g _ x [unfolded x']] at ca v have
      d: "stands dest n (butlast cs) dir t" "cache_at dest n c t" by auto
    obtain y u where y: "stat_file_in_dir k dir (last cs) t = (y, u)"
      by (cases "stat_file_in_dir k dir (last cs) t")
    from e x x' v y Inr have c: "cache' = c" "s' = u" by (auto simp: file_held_def split: sum.splits)
    have "grows t u"
      by (rule specD [OF stat_file_in_dir_adds [where A = "\<lambda>_. True"] _ y]) simp_all
    from cache_at_grows [OF this d(2)] c have ca': "cache_at dest n cache' s'" by simp
    have "held dest (log_from n s') e" if b
    proof -
      from e x x' v y Inr that have "y = Inr (e_size e, e_mtime e)" by (cases y) (auto simp: file_held_def)
      with y stat_file_log [of k dir "last cs" t "e_size e" "e_mtime e" u] obtain st where
        st: "trace u = trace t @ [(FstatAt dir (last cs) True, Filled st)]"
          "st_mode st AND S_IFMT = S_IFREG" "st_size st = e_size e" "st_mtime st = e_mtime e" by auto
      from log_from_append [OF st(1)] d(1) c(2) have
        "log_from n s' = log_from n t @ (FstatAt dir (last cs) True, Filled st) # []" by simp
      with Inr d(1) st(2-) show ?thesis unfolding held_def by blast
    qed
    with ca' show ?thesis by blast
  qed
qed

section \<open>The loop\<close>

abbreviation offered :: "entry list \<Rightarrow> entry list" where
  "offered es \<equiv> filter (\<lambda>e. e_kind e = File) es"

text \<open>The files of \<open>es\<close> whose bit is set.\<close>

definition skipped :: "entry list \<Rightarrow> bool list \<Rightarrow> entry list" where
  "skipped es bits = map fst (filter snd (zip (offered es) bits))"

definition answers :: "bytes \<Rightarrow> (syscall \<times> reply) list \<Rightarrow> entry list \<Rightarrow> bool list \<Rightarrow> bool" where
  "answers dest tr es bits \<longleftrightarrow> list_all2 (\<lambda>e b. b \<longrightarrow> held dest tr e) (offered es) bits"

lemma answers_length: "answers dest tr es bits \<Longrightarrow> length bits = length (offered es)"
  by (auto simp: answers_def dest: list_all2_lengthD)

lemma answers_mono: "answers dest tr es bits \<Longrightarrow> answers dest (p @ tr @ q) es bits"
  unfolding answers_def by (erule list_all2_mono) (auto intro: held_mono)

lemma answers_cons:
  assumes "answers dest tr es bits"
  shows "e_kind e \<noteq> File \<Longrightarrow> answers dest tr (e # es) bits"
    and "e_kind e = File \<Longrightarrow> b \<longrightarrow> held dest tr e \<Longrightarrow> answers dest tr (e # es) (b # bits)"
  using assms by (simp_all add: answers_def)

definition manifest_bytes :: "entry list \<Rightarrow> bytes" where
  "manifest_bytes es = concat (map entry_encode es) @ write_terminator"

lemma manifest_loop_log:
  "manifest_loop fuel k root cache (bits, fs, bytes) s = (Inr (bits', fs', bytes'), s') \<Longrightarrow>
   stands dest n [] root (os_of s) \<Longrightarrow> cache_at dest n cache (os_of s) \<Longrightarrow>
   \<exists>es new more. (\<forall>e \<in> set es. wf_entry e) \<and> staged_rem (n_in s) = manifest_bytes es @ staged_rem (n_in s') \<and>
     trace (os_of s') = trace (os_of s) @ new \<and> outgoing (s_stream (n_in s')) = outgoing (s_stream (n_in s)) \<and>
     bits' = bits @ more \<and> answers dest (log_from n (os_of s')) es more \<and>
     fs' = fs + word_of_nat (length (skipped es more)) \<and>
     bytes' = bytes + sum_list (map e_size (skipped es more))"
proof (induction fuel arbitrary: cache bits fs bytes s)
  case (Suc fuel)
  obtain x t where x: "net_in (entry_decode staged_read_exact) s = (x, t)"
    by (cases "net_in (entry_decode staged_read_exact) s")
  have ot: "os_of t = os_of s" using x by (auto simp: net_in_def zoom_eq)
  note fx = net_in_frame [OF x]
  have d: "entry_decode staged_read_exact (n_in s) = (x, n_in t)" using fx by auto
  have o: "outgoing (s_stream (n_in t)) = outgoing (s_stream (n_in s))"
    using specD [OF entry_decode_eats [of "\<lambda>_. True"] _ d] by simp
  from Suc.prems x obtain oe where oe: "x = Inr oe" by (cases x) auto
  show ?case
  proof (cases oe)
    case None
    with Suc.prems x oe have "bits' = bits" "fs' = fs" "bytes' = bytes" "s' = t" by auto
    with d oe None staged.decode_None [of "n_in s" "n_in t"] fx o show ?thesis
      by (intro exI [of _ "[]"]) (auto simp: manifest_bytes_def answers_def skipped_def)
  next
    case (Some e)
    from d oe Some staged.decode_canonical have c: "staged_rem (n_in s) = entry_encode e @ staged_rem (n_in t)"
      and wf: "wf_entry e" by blast+
    show ?thesis
    proof (cases "e_kind e = File")
      case False
      with Suc.prems x oe Some have
        "manifest_loop fuel k root cache (bits, fs, bytes) t = (Inr (bits', fs', bytes'), s')" by simp
      from Suc.IH [OF this] Suc.prems(2,3) ot obtain es new more where
        *: "\<forall>e \<in> set es. wf_entry e" "staged_rem (n_in t) = manifest_bytes es @ staged_rem (n_in s')"
          "trace (os_of s') = trace (os_of t) @ new" "outgoing (s_stream (n_in s')) = outgoing (s_stream (n_in t))"
          "bits' = bits @ more" "answers dest (log_from n (os_of s')) es more" "fs' = fs + word_of_nat (length (skipped es more))"
          "bytes' = bytes + sum_list (map e_size (skipped es more))" by auto
      with False answers_cons(1) [OF *(6), of e] wf c fx o ot show ?thesis
        by (intro exI [of _ "e # es"] exI [of _ new] exI [of _ more])
          (simp add: manifest_bytes_def skipped_def)
    next
      case True
      obtain y u where y: "net_os (file_held k root cache e) t = (y, u)"
        by (cases "net_os (file_held k root cache e) t")
      from net_os_state [OF y] obtain o' where
        h: "file_held k root cache e (os_of t) = (y, o')" "os_of u = o'" by auto
      from file_held_log [OF h(1)] h(2) obtain b cache' pre where
        b: "y = Inr (b, cache')" "trace (os_of u) = trace (os_of t) @ pre" by auto
      from file_held_at [OF h(1) [unfolded b(1)]] Suc.prems(2,3) ot h(2) have
        hd: "cache_at dest n cache' (os_of u)" "b \<longrightarrow> held dest (log_from n (os_of u)) e" by auto
      have su: "stands dest n [] root (os_of u)"
        using stands_grows [of "os_of t" "os_of u" n dest "[]" root] b(2) Suc.prems(2) ot by (auto simp: adds_def)
      note fy = net_os_frame [OF y]
      let ?fs = "if b then fs + 1 else fs" and ?bytes = "if b then bytes + e_size e else bytes"
      have "manifest_loop fuel k root cache' (bits @ [b], ?fs, ?bytes) u = (Inr (bits', fs', bytes'), s')"
        using Suc.prems x oe Some True y b(1) by (cases b) simp_all
      from Suc.IH [OF this su hd(1)] obtain es new more where
        *: "\<forall>e \<in> set es. wf_entry e" "staged_rem (n_in u) = manifest_bytes es @ staged_rem (n_in s')"
          "trace (os_of s') = trace (os_of u) @ new" "outgoing (s_stream (n_in s')) = outgoing (s_stream (n_in u))"
          "bits' = (bits @ [b]) @ more" "answers dest (log_from n (os_of s')) es more" "fs' = ?fs + word_of_nat (length (skipped es more))"
          "bytes' = ?bytes + sum_list (map e_size (skipped es more))" by blast
      have "b \<longrightarrow> held dest (log_from n (os_of s')) e"
        using hd(2) held_mono [of dest _ e "[]"] log_from_append [OF *(3)] su by fastforce
      note ans = answers_cons(2) [OF *(6) True this]
      have "skipped (e # es) (b # more) = (if b then [e] else []) @ skipped es more"
        using True by (simp add: skipped_def)
      with * ans wf c fx fy o b(2) ot show ?thesis
        by (intro exI [of _ "e # es"] exI [of _ "pre @ new"] exI [of _ "b # more"])
          (simp add: manifest_bytes_def)
    qed
  qed
qed simp

end
