(* ===== verification/ReceiverSafe.thy ===== *)
theory ReceiverSafe
  imports Receiver NetLog
begin

text \<open>
  Escape prevention for a whole session, from the accept to the acknowledgement, with any
  number of flows: every system call \<open>accept_one\<close> makes is confined.
\<close>

section \<open>The manifest\<close>

lemma parent_get_chain_stays:
  assumes "\<forall>c \<in> set parents. good_component c"
  shows "spec (stays dest D F)
    (\<lambda>s. root \<in> has_dirs D s \<and> (\<forall>d. pc_dir cache = Some d \<longrightarrow> d \<in> has_dirs D s))
    (parent_get cache parents (open_dir_chain k root parents))
    (\<lambda>(d, cache') s. d \<in> has_dirs D s \<and> pc_dir cache' = Some d)"
proof -
  have w: "spec (stays dest D F)
      (\<lambda>s. root \<in> has_dirs D s \<and> (\<forall>d. pc_dir cache = Some d \<longrightarrow> d \<in> has_dirs D s))
      (io_bind (open_dir_chain k root parents) (\<lambda>d. io_return (d, \<lparr>pc_components = parents, pc_dir = Some d\<rparr>)))
      (\<lambda>(d, cache') s. d \<in> has_dirs D s \<and> pc_dir cache' = Some d)"
    by (rule stays.spec_bind [OF open_dir_chain_stays stays.spec_return]) (use assms in auto)
  show ?thesis
  proof (cases "pc_dir cache")
    case None
    with w show ?thesis by (simp add: parent_get_def)
  next
    case (Some d)
    show ?thesis
    proof (cases "pc_components cache = parents")
      case True
      show ?thesis
        unfolding parent_get_def Some option.case if_P [OF True]
        by (rule stays.spec_return) (simp add: Some)
    next
      case False
      from w [unfolded Some] show ?thesis unfolding parent_get_def Some option.case if_not_P [OF False] .
    qed
  qed
qed

lemma file_held_stays:
  "spec (stays dest D F)
    (\<lambda>s. root \<in> has_dirs D s \<and> (\<forall>d. pc_dir cache = Some d \<longrightarrow> d \<in> has_dirs D s))
    (file_held k root cache e)
    (\<lambda>(_, cache') s. \<forall>d. pc_dir cache' = Some d \<longrightarrow> d \<in> has_dirs D s)"
proof (rule specI)
  fix s r s' assume p: "root \<in> has_dirs D s \<and> (\<forall>d. pc_dir cache = Some d \<longrightarrow> d \<in> has_dirs D s)"
    and e: "file_held k root cache e s = (r, s')"
  let ?goal = "stays dest D F s s' \<and> (\<forall>v. r = Inr v \<longrightarrow>
      (case v of (_, cache') \<Rightarrow> \<lambda>s. \<forall>d. pc_dir cache' = Some d \<longrightarrow> d \<in> has_dirs D s) s')"
  show ?goal
  proof (cases "sanitize (e_path e)")
    case (Inl err)
    with e p show ?thesis by (auto simp: file_held_def stays.refl)
  next
    case (Inr cs)
    from sanitize_components [OF Inr] have g: "good_component (last cs)"
        "\<forall>c \<in> set (butlast cs). good_component c"
      by (auto dest: in_set_butlastD)
    let ?get = "parent_get cache (butlast cs) (open_dir_chain k root (butlast cs))"
    obtain x t where x: "?get s = (x, t)" by (cases "?get s")
    from specD [OF parent_get_chain_stays [OF g(2)] p x] have st: "stays dest D F s t" .
    show ?thesis
    proof (cases x)
      case (Inl err)
      with e x st p Inr show ?thesis by (auto simp: file_held_def dest: stays_dir)
    next
      case x': (Inr v)
      obtain dir cache' where v: "v = (dir, cache')" by (cases v)
      from specE [OF parent_get_chain_stays [OF g(2), where D = D and F = F and dest = dest] p x [unfolded x']] v
      have d: "dir \<in> has_dirs D t" "pc_dir cache' = Some dir" by auto
      obtain y u where y: "stat_file_in_dir k dir (last cs) t = (y, u)"
        by (cases "stat_file_in_dir k dir (last cs) t")
      have su: "stays dest D F t u"
        by (rule specD [OF stat_file_in_dir_stays [of "\<lambda>s. dir \<in> has_dirs D s"] d(1) y]) (use g in auto)
      from e x x' v y Inr have "s' = u \<and> (\<exists>b. r = Inr (b, cache'))"
        by (auto simp: file_held_def split: sum.splits)
      with st su stays.trans d stays_dir [OF su] show ?thesis by fastforce
    qed
  qed
qed

lemma manifest_loop_stays:
  fixes k :: "'w kernel"
  shows "spec (net_stays dest D F) (\<lambda>s. root \<in> has_dirs D (os_of s) \<and> cache_ok D cache s)
    (manifest_loop fuel k root cache acc) (\<lambda>_ _. True)"
proof (induction fuel arbitrary: cache acc)
  case 0
  show ?case unfolding manifest_loop.simps by (rule net_stays.spec_throw)
next
  case (Suc fuel)
  let ?P = "\<lambda>cache s. root \<in> has_dirs D (os_of s) \<and> cache_ok D cache s"
  have dec: "spec (net_stays dest D F) (?P cache) (net_in (entry_decode staged_read_exact)) (\<lambda>_ s. ?P cache s)"
    by (rule spec_weaken [OF net_stays.spec_stable [OF inert_stays [where P = "?P cache"], where P' = "?P cache"]])
      (auto simp: cache_ok_def dest: net_stays_os stays_dir)
  have held: "spec (net_stays dest D F) (?P cache) (net_os (file_held k root cache e)) (\<lambda>(_, c) s. ?P c s)" for e
    by (rule spec_weaken [OF net_stays.spec_stable [OF net_os_stays [OF file_held_stays], where P' = "\<lambda>s. root \<in> has_dirs D (os_of s)"]])
      (auto simp: cache_ok_def dest: net_stays_os stays_dir)
  have more: "spec (net_stays dest D F) (\<lambda>s. (case v of (_, c) \<Rightarrow> \<lambda>s. ?P c s) s) ((\<lambda>(have_it, cache').
           case acc of (bits, fs, bytes) \<Rightarrow>
             manifest_loop fuel k root cache'
               (if have_it then (bits @ [True], fs + 1, bytes + e_size e) else (bits @ [False], fs, bytes))) v)
      (\<lambda>_ _. True)" for v e
    by (cases v; cases acc) (simp add: Suc.IH)
  show ?case
    unfolding manifest_loop.simps
    by (rule net_stays.spec_bind [OF dec],
        intro spec_case_option spec_if Suc.IH net_stays.spec_bind [OF held more] net_stays.spec_return) simp
qed

lemma stream_write_inert: "inert (stream_write bs)"
  unfolding stream_write_def by simp

lemma answer_manifest_stays:
  "spec (net_stays dest D F) P (answer_manifest k dest) (\<lambda>_ _. True)"
proof -
  have root: "spec (net_stays dest D F) P (net_os (open_dir k dest)) (\<lambda>root s. root \<in> has_dirs D (os_of s))"
    by (rule net_os_stays' [OF open_dir_stays])
  have loop: "spec (net_stays dest D F) (\<lambda>s. root \<in> has_dirs D (os_of s))
      (\<lambda>s. manifest_loop (Suc (length (staged_rem (n_in s)))) k root
                parent_cache_default ([], 0, 0) s) (\<lambda>_ _. True)" for root
  proof (rule specI)
    fix s r s' assume "root \<in> has_dirs D (os_of s)"
      and e: "manifest_loop (Suc (length (staged_rem (n_in s)))) k root parent_cache_default ([], 0, 0) s = (r, s')"
    then have "root \<in> has_dirs D (os_of s) \<and> cache_ok D parent_cache_default s"
      by (simp add: cache_ok_def parent_cache_default_def)
    from specD [OF manifest_loop_stays this e]
    show "net_stays dest D F s s' \<and> (\<forall>v. r = Inr v \<longrightarrow> True)" by simp
  qed
  show ?thesis
    unfolding answer_manifest_def case_prod_beta
    by (rule net_stays.spec_bind [OF root true_stays [OF loop true_stays [OF inert_stays [OF stream_write_inert]
            net_stays.spec_return]]]) simp
qed

section \<open>The pipeline\<close>

lemma begun_no_fin [simp]: "begun (no_fin ms) = begun ms"
  by (induction ms rule: begun.induct) auto

lemma begun_forwarded [simp]: "begun (forwarded B verify ms) = begun ms"
  by (simp add: forwarded_def hash_loop_forward)

lemma run_pipeline_stays:
  assumes "run_pipeline B k dest verify durable s = (r, s')"
  shows "sh_stays dest D F (n_sh s) (n_sh s')"
proof -
  let ?s = "s\<lparr>n_sent := []\<rparr>"
  obtain x t where x: "read_entries B k dest verify ?s = (x, t)"
    by (cases "read_entries B k dest verify ?s")
  from specD [OF read_entries_stays [of dest D F "\<lambda>_. True"] _ x]
  have t: "sh_stays dest D F (n_sh s) (n_sh t)" "\<forall>f \<in> set (begun (n_sent t)). authorised D F (os_of t) f"
    by (auto simp: net_stays_def)
  obtain y sh where y: "write_loop k durable None (forwarded B verify (n_sent t)) (n_sh t) = (y, sh)"
    by (cases "write_loop k durable None (forwarded B verify (n_sent t)) (n_sh t)")
  have "all_auth D F (pending None (forwarded B verify (n_sent t))) (n_sh t)"
    using t(2) by (simp add: pending_def all_auth_def)
  from specD [OF write_loop_stays this y] have "sh_stays dest D F (n_sh t) sh" .
  moreover have "n_sh s' = sh"
    using assms x y by (cases y) (auto simp: run_pipeline_def)
  ultimately show ?thesis using t(1) sh_stays.trans by blast
qed

section \<open>The session\<close>

definition host_stays :: "bytes \<Rightarrow> fd set \<Rightarrow> fd set \<Rightarrow> 'w host \<Rightarrow> 'w host \<Rightarrow> bool" where
  "host_stays dest D F s s' \<longleftrightarrow> sh_stays dest D F (n_sh (h_net s)) (n_sh (h_net s'))"

interpretation host_stays: effect "host_stays dest D F" for dest D F
  by unfold_locales (auto simp: host_stays_def intro: sh_stays.refl sh_stays.trans)

abbreviation regs_host :: "fd set \<Rightarrow> 'w host \<Rightarrow> bool" where
  "regs_host D s \<equiv> regs_ok D (n_sh (h_net s))"

lemma host_bind:
  assumes "spec (host_stays dest D F) (regs_host D) m (\<lambda>_ _. True)"
    and "\<And>v. spec (host_stays dest D F) (regs_host D) (f v) (\<lambda>_ _. True)"
  shows "spec (host_stays dest D F) (regs_host D) (io_bind m f) (\<lambda>_ _. True)"
proof (rule host_stays.spec_bind)
  show "spec (host_stays dest D F) (regs_host D) m (\<lambda>_ s. regs_host D s \<and> True)"
    by (rule host_stays.spec_stable [OF assms(1)]) (simp add: host_stays_def sh_stays_def)
  show "spec (host_stays dest D F) (\<lambda>s. regs_host D s \<and> True) (f v) (\<lambda>_ _. True)" for v
    using assms(2) by simp
qed

lemma on_net_stays:
  assumes "\<And>s r s'. m s = (r, s') \<Longrightarrow> regs_ok D (n_sh s) \<Longrightarrow> sh_stays dest D F (n_sh s) (n_sh s')"
  shows "spec (host_stays dest D F) (regs_host D) (on_net m) (\<lambda>_ _. True)"
  by (rule specI) (auto simp: on_net_def zoom_eq host_stays_def intro: assms)

lemma host_same:
  "(\<And>s. n_sh (h_net (snd (m s))) = n_sh (h_net s)) \<Longrightarrow>
   spec (host_stays dest D F) P m (\<lambda>_ _. True)"
  by (rule specI) (metis host_stays_def sh_stays.refl snd_conv)

lemma flush_directories_stays:
  assumes "flush_directories k s = (r, s')" and "regs_ok D s"
  shows "sh_stays dest D F s s'"
proof (cases "sh_regs s")
  case None
  with assms show ?thesis by (simp add: flush_directories_def sh_stays.refl)
next
  case (Some g)
  with assms(1) have "on_os (flush_all k g) s = (r, s')" by (simp add: flush_directories_def)
  from on_os_state [OF this] obtain o' where o: "flush_all k g (sh_os s) = (r, o')" "s' = s\<lparr>sh_os := o'\<rparr>"
    by blast
  have "set (reg_dirs g) \<subseteq> has_dirs D (sh_os s)" using assms(2) Some by (simp add: regs_ok_def)
  from specD [OF flush_dirs_stays [OF subset_refl] this o(1) [unfolded flush_all_def]] o(2)
  show ?thesis by (simp add: sh_staysI)
qed

lemma new_registry_stays:
  "new_registry durable s = (r, s') \<Longrightarrow> sh_stays dest D F (n_sh s) (n_sh s')"
  by (auto simp: new_registry_def sh_stays_def stays.refl regs_ok_def registry_new_def split: if_splits)

lemma stream_write_stays: "stream_write bs s = (r, s') \<Longrightarrow> sh_stays dest D F (n_sh s) (n_sh s')"
  by (auto simp: stream_write_def net_in_def zoom_eq intro: sh_stays.refl)

lemma net_flush_stays:
  "net_sh (flush_directories k) s = (r, s') \<Longrightarrow> regs_ok D (n_sh s) \<Longrightarrow> sh_stays dest D F (n_sh s) (n_sh s')"
  by (auto simp: net_sh_def zoom_eq intro: flush_directories_stays)

lemma receive_entries_stays:
  fixes k :: "'w kernel"
  shows "spec (host_stays dest D F) (regs_host D) (on_net (receive_entries B k dest verify durable)) (\<lambda>_ _. True)"
proof (rule on_net_stays)
  fix s :: "'w net" and r s' assume e: "receive_entries B k dest verify durable s = (r, s')" and g: "regs_ok D (n_sh s)"
  have R: "effect (\<lambda>s s' :: 'w net. sh_stays dest D F (n_sh s) (n_sh s'))"
    by unfold_locales (auto intro: sh_stays.refl sh_stays.trans)
  let ?R = "\<lambda>s s' :: 'w net. sh_stays dest D F (n_sh s) (n_sh s')"
  let ?P = "\<lambda>s :: 'w net. regs_ok D (n_sh s)"
  have b: "spec ?R ?P (io_bind m f) (\<lambda>_ _. True)"
    if "\<And>s r s'. m s = (r, s') \<Longrightarrow> ?P s \<Longrightarrow> ?R s s'" and "\<And>v. spec ?R ?P (f v) (\<lambda>_ _. True)"
    for m :: "('w net, 'x) op" and f :: "'x \<Rightarrow> ('w net, 'y) op"
  proof (rule effect.spec_bind [OF R])
    show "spec ?R ?P m (\<lambda>_ s. ?P s)"
      by (rule specI) (use that(1) in \<open>auto simp: sh_stays_def\<close>)
  qed (rule that(2))
  have "spec ?R ?P (receive_entries B k dest verify durable) (\<lambda>_ _. True)"
    unfolding receive_entries_def
    by (intro b new_registry_stays run_pipeline_stays net_flush_stays stream_write_stays
        effect.spec_return [OF R]) auto
  from specD [OF this g e] show "?R s s'" .
qed

lemma run_band_stays:
  assumes "run_band B k dest verify durable b s = (r, s')"
  shows "host_stays dest D F s s'"
  using assms
  by (auto simp: run_band_def Let_def host_stays_def split: prod.splits dest!: run_pipeline_stays [where D = D and F = F])

lemma run_bands_stays:
  "run_bands B k dest verify durable bs s = (rs, s') \<Longrightarrow> host_stays dest D F s s'"
proof (induction bs arbitrary: s rs)
  case (Cons b bs)
  obtain x t where x: "run_band B k dest verify durable b s = (x, t)"
    by (cases "run_band B k dest verify durable b s")
  obtain y u where y: "run_bands B k dest verify durable bs t = (y, u)"
    by (cases "run_bands B k dest verify durable bs t")
  with x Cons.prems have "s' = u" by simp
  with y have "run_bands B k dest verify durable bs t = (y, s')" by simp
  from host_stays.trans [OF run_band_stays [OF x] Cons.IH [OF this]] show ?case .
qed (simp add: host_stays.refl)

lemma run_flows_stays:
  "spec (host_stays dest D F) P (run_flows B k dest verify durable bands) (\<lambda>_ _. True)"
proof (rule specI)
  fix s r s' assume e: "run_flows B k dest verify durable bands s = (r, s')"
  obtain x t where x: "on_net (run_pipeline B k dest verify durable) s = (x, t)"
    by (cases "on_net (run_pipeline B k dest verify durable) s")
  then have t: "host_stays dest D F s t"
    by (auto simp: on_net_def zoom_eq host_stays_def intro: run_pipeline_stays)
  obtain rs u where u: "run_bands B k dest verify durable bands t = (rs, u)"
    by (cases "run_bands B k dest verify durable bands t")
  from e x u have "s' = u" by (simp add: run_flows_def)
  with t run_bands_stays [OF u] host_stays.trans
  show "host_stays dest D F s s' \<and> (\<forall>v. r = Inr v \<longrightarrow> True)" by blast
qed

lemma accept_conn_same: "spec (host_stays dest D F) P accept_conn (\<lambda>_ _. True)"
  by (rule host_same) (simp add: accept_conn_def split: list.splits)

lemma sock_option_same: "spec (host_stays dest D F) P (sock_option e) (\<lambda>_ _. True)"
  by (rule host_same) (simp add: sock_option_def split: option.splits)

lemma on_sock_same: "spec (host_stays dest D F) P (on_sock m c) (\<lambda>_ _. True)"
  by (rule host_same) (simp add: on_sock_def split: prod.splits sum.splits)

lemma accept_bands_stays:
  "spec (host_stays dest D F) (regs_host D) (accept_bands n token cnt verify) (\<lambda>_ _. True)"
proof (induction n)
  case 0
  show ?case unfolding accept_bands.simps by (rule host_stays.spec_return) simp
next
  case (Suc n)
  show ?case
    unfolding accept_bands.simps case_prod_beta
    by (intro host_bind accept_conn_same sock_option_same on_sock_same Suc host_stays.spec_return) simp
qed

lemma accept_multi_stays:
  "spec (host_stays dest D F) (regs_host D) (accept_multi B k dest token durable cnt verify) (\<lambda>_ _. True)"
  unfolding accept_multi_def
  by (intro host_bind on_net_stays new_registry_stays accept_bands_stays run_flows_stays net_flush_stays
      stream_write_stays host_stays.spec_return) auto

lemma accept_one_stays:
  "spec (host_stays dest D F) (regs_host D) (accept_one B k dest token durable) (\<lambda>_ _. True)"
proof -
  have m: "spec (host_stays dest D F) (regs_host D) (on_net (answer_manifest k dest)) (\<lambda>_ _. True)"
    by (rule on_net_stays)
      (use specD [OF answer_manifest_stays [of dest D F "\<lambda>_. True"]] in \<open>auto simp: net_stays_def\<close>)
  have t: "spec (host_stays dest D F) (regs_host D) (take_stream c) (\<lambda>_ _. True)" for c
    by (rule host_same) (simp add: take_stream_def)
  show ?thesis
    unfolding accept_one_def case_prod_beta
    by (intro host_bind accept_conn_same sock_option_same on_sock_same t m spec_case_option
        receive_entries_stays accept_multi_stays host_stays.spec_return) auto
qed

end
