(* ===== verification/Protocol.thy ===== *)
theory Protocol
  imports Staged Sanitize
begin

text \<open>
  The properties of the wire format, stated for the readers the program really uses: the
  raw socket for the handshake and the bitmap, the staged socket for entry headers. Each
  is an instance of a lemma of the locale \<open>reader\<close> at one of its interpretations.
\<close>

section \<open>A sample connection for the witnesses\<close>

text \<open>Bytes that arrive in short reads, with a signal in between.\<close>

definition sample_sock :: "bytes \<Rightarrow> sock" where
  "sample_sock bs =
     \<lparr>incoming = bs, events = [Avail 3, Fail EINTR, Avail 1], outgoing = [], write_events = []\<rparr>"

lemma sample_sock_simps [simp]:
  "incoming (sample_sock bs) = bs" "sock_healthy (sample_sock bs)"
  "staged_healthy (staged_new (sample_sock bs))"
  by (simp_all add: sample_sock_def sock_healthy_def staged_new_healthy)

definition sample_entry :: entry where
  "sample_entry =
     \<lparr>e_kind = File, e_path = ascii ''a/b.bin'', e_size = 5, e_mode = 0x1A4, e_mtime = -86400\<rparr>"

lemma sample_entry_wf: "wf_entry sample_entry"
  by (simp add: wf_entry_def sample_entry_def ascii_def)

section \<open>Entry headers\<close>

text \<open>
  C24. Whatever way the bytes of a well-formed entry arrive, in short reads, interrupted,
  behind other staged bytes or straight from the socket, the receiver decodes exactly
  that entry and leaves exactly the rest of the stream.
\<close>

theorem entry_roundtrip:
  assumes "staged_healthy s" and "staged_rem s = entry_encode e @ rest" and "wf_entry e"
  shows "\<exists>s'. entry_decode staged_read_exact s = (Inr (Some e), s') \<and> staged_healthy s' \<and>
    staged_rem s' = rest"
  using assms by (rule staged.decode_encode)

theorem entry_roundtrip_witness:
  "\<exists>s'. entry_decode staged_read_exact (staged_new (sample_sock (entry_encode sample_entry @ [7])))
      = (Inr (Some sample_entry), s') \<and> staged_healthy s' \<and> staged_rem s' = [7]"
  by (rule entry_roundtrip) (simp_all add: sample_entry_wf)

text \<open>
  C25. A hostile sender gains nothing from odd encodings: an entry is accepted only when
  the bytes consumed were its one canonical encoding, its path is valid UTF-8 of at most
  65535 bytes, and a symlink's target length is within the path limit.
\<close>

theorem entry_canonical:
  assumes "entry_decode staged_read_exact s = (Inr (Some e), s')"
  shows "staged_rem s = entry_encode e @ staged_rem s' \<and> wf_entry e"
  using assms by (rule staged.decode_canonical)

theorem entry_canonical_witness:
  "\<exists>s'. staged_rem (staged_new (sample_sock (entry_encode sample_entry @ [7])))
      = entry_encode sample_entry @ staged_rem s' \<and> wf_entry sample_entry \<and> staged_rem s' = [7]"
proof -
  obtain s' where "entry_decode staged_read_exact
        (staged_new (sample_sock (entry_encode sample_entry @ [7]))) = (Inr (Some sample_entry), s')"
      "staged_rem s' = [7]"
    using staged.decode_encode [of "staged_new (sample_sock (entry_encode sample_entry @ [7]))"
        sample_entry "[7]"] sample_entry_wf by auto
  with entry_canonical show ?thesis by blast
qed

section \<open>Handshakes\<close>

text \<open>
  C26. Both handshakes survive the wire: what a sender writes for any token, known flags,
  flow count and index is what the receiver reads, and nothing more is consumed.
\<close>

theorem handshake_roundtrip:
  assumes "sock_healthy s" and "length token = TOKEN_LEN" and "flags_known flags"
  shows "(incoming s = encode_handshake flags token @ rest \<longrightarrow>
      (\<exists>s'. read_handshake sock_read_exact s =
        (Inr \<lparr>hs_version = VERSION, hs_flags = flags, hs_token = token, hs_streams = None\<rparr>, s')
        \<and> sock_healthy s' \<and> incoming s' = rest)) \<and>
    (incoming s = encode_handshake_multi flags token count index @ rest \<longrightarrow>
      (\<exists>s'. read_handshake sock_read_exact s =
        (Inr \<lparr>hs_version = VERSION_MULTI, hs_flags = flags, hs_token = token,
              hs_streams = Some (count, index)\<rparr>, s')
        \<and> sock_healthy s' \<and> incoming s' = rest))"
  using sock.read_handshake_v3 [OF assms] sock.read_handshake_v4 [OF assms] by blast

theorem handshake_roundtrip_witness:
  "\<exists>s'. read_handshake sock_read_exact
      (sample_sock (encode_handshake_multi FLAG_NO_VERIFY (replicate 32 0x1D) 4 1 @ [9])) =
    (Inr \<lparr>hs_version = VERSION_MULTI, hs_flags = FLAG_NO_VERIFY, hs_token = replicate 32 0x1D,
          hs_streams = Some (4, 1)\<rparr>, s') \<and> sock_healthy s' \<and> incoming s' = [9]"
  using handshake_roundtrip
    [of "sample_sock (encode_handshake_multi FLAG_NO_VERIFY (replicate 32 0x1D) 4 1 @ [9])"
      "replicate 32 0x1D" FLAG_NO_VERIFY "[9]" 4 1]
  by (simp add: TOKEN_LEN_def flags_known_iff del: replicate.simps)

text \<open>
  C27. The receiver accepts nothing but those two encodings: an accepted handshake names
  version 3 without a stream tail or version 4 with one, sets no unknown flag, and the
  bytes consumed are its canonical encoding.
\<close>

theorem handshake_canonical:
  assumes "read_handshake sock_read_exact s = (Inr hs, s')"
  shows "flags_known (hs_flags hs) \<and> length (hs_token hs) = TOKEN_LEN \<and>
    (case hs_streams hs of
       None \<Rightarrow> hs_version hs = VERSION
         \<and> incoming s = encode_handshake (hs_flags hs) (hs_token hs) @ incoming s'
     | Some (c, i) \<Rightarrow> hs_version hs = VERSION_MULTI
         \<and> incoming s = encode_handshake_multi (hs_flags hs) (hs_token hs) c i @ incoming s')"
  using assms by (rule sock.read_handshake_canonical)

theorem handshake_canonical_witness:
  "\<exists>s' hs. read_handshake sock_read_exact
        (sample_sock (encode_handshake 0 (replicate 32 0x2E) @ [9])) = (Inr hs, s') \<and>
      flags_known (hs_flags hs) \<and> hs_version hs = VERSION"
proof -
  let ?s = "sample_sock (encode_handshake 0 (replicate 32 0x2E) @ [9])"
  obtain s' where r: "read_handshake sock_read_exact ?s =
      (Inr \<lparr>hs_version = VERSION, hs_flags = 0, hs_token = replicate 32 0x2E, hs_streams = None\<rparr>, s')"
    using sock.read_handshake_v3 [of ?s "replicate 32 0x2E" 0 "[9]"]
    by (auto simp: TOKEN_LEN_def flags_known_iff)
  from handshake_canonical [OF r] r show ?thesis by auto
qed

text \<open>
  The token comparison, which must not stop at the first difference, still decides
  equality: its accumulated difference is zero exactly for identical byte strings.
\<close>

lemma ct_eq_decides: "ct_eq a b \<longleftrightarrow> a = b"
  by (rule ct_eq_iff)

section \<open>The manifest bitmap\<close>

text \<open>
  C28. The manifest answer is read back bit for bit: one byte per eight File entries,
  entry 0 in the lowest bit, the padding bits of the last byte clear, and the reader
  takes exactly those bytes whatever follows.
\<close>

theorem bitmap_roundtrip:
  "read_bitmap cursor_read (length bits) (encode_bitmap bits @ rest) = (Inr bits, rest) \<and>
   length (encode_bitmap bits) = (length bits + 7) div 8 \<and>
   (\<forall>j < 8 * length (encode_bitmap bits).
      bit (encode_bitmap bits ! (j div 8)) (j mod 8) = (j < length bits \<and> bits ! j))"
proof (intro conjI allI impI)
  show "read_bitmap cursor_read (length bits) (encode_bitmap bits @ rest) = (Inr bits, rest)"
    using cursor.read_bitmap_roundtrip [of "encode_bitmap bits @ rest" bits rest] by auto
  show "length (encode_bitmap bits) = (length bits + 7) div 8"
    by (simp add: encode_bitmap_length div_ceil8_def)
  fix j assume "j < 8 * length (encode_bitmap bits)"
  then have "j < 8 * div_ceil8 (length bits)" by (simp add: encode_bitmap_length)
  then show "bit (encode_bitmap bits ! (j div 8)) (j mod 8) = (j < length bits \<and> bits ! j)"
    using encode_bitmap_bit [of j bits] encode_bitmap_padding [of bits j]
    by (cases "j < length bits") (auto simp: bit_of_bit)
qed

lemma bitmap_roundtrip_witness:
  "let bits = [True, False, False, True, True, False, False, False, True, True]
   in read_bitmap cursor_read (length bits) (encode_bitmap bits @ [7]) = (Inr bits, [7]) \<and>
      length (encode_bitmap bits) = 2 \<and>
      bit (encode_bitmap bits ! (9 div 8)) (9 mod 8) = (9 < length bits \<and> bits ! 9)"
proof -
  let ?b = "[True, False, False, True, True, False, False, False, True, True]"
  note r = bitmap_roundtrip [of ?b "[7]"]
  have l: "length (encode_bitmap ?b) = 2" using r by simp
  have "bit (encode_bitmap ?b ! (9 div 8)) (9 mod 8) = (9 < length ?b \<and> ?b ! 9)"
    by (rule r [THEN conjunct2, THEN conjunct2, rule_format]) (simp add: l)
  with r [THEN conjunct1] l show ?thesis unfolding Let_def by blast
qed

section \<open>Paths\<close>

text \<open>
  C23. A path that passes the sanitiser is a non-empty list of components, none of them
  empty, a dot, a dot-dot, or holding a slash or NUL; and re-joining them gives a path
  that sanitises to the same components.
\<close>

theorem sanitize_safe:
  assumes "sanitize path = Inr cs"
  shows "cs \<noteq> [] \<and> (\<forall>c \<in> set cs. good_component c) \<and> length path \<le> MAX_PATH_LEN \<and>
    sanitize (join_with SLASH cs) = Inr cs"
  using sanitize_components [OF assms] sanitize_idempotent [OF assms] by blast

theorem sanitize_safe_witness:
  "sanitize (ascii ''a/./b//c'') = Inr [ascii ''a'', ascii ''b'', ascii ''c''] \<and>
   sanitize (join_with SLASH [ascii ''a'', ascii ''b'', ascii ''c''])
     = Inr [ascii ''a'', ascii ''b'', ascii ''c'']"
proof -
  have "sanitize (ascii ''a/./b//c'') = Inr [ascii ''a'', ascii ''b'', ascii ''c'']"
    by code_simp
  with sanitize_safe [OF this] show ?thesis by blast
qed

text \<open>
  C35. Each way a path is refused, and in which order: too long, then NUL, then absolute,
  then a dot-dot component anywhere, then nothing left.
\<close>

theorem sanitize_errors:
  "(sanitize path = Inl TooLong \<longleftrightarrow> MAX_PATH_LEN < length path) \<and>
   (sanitize path = Inl Nul \<longleftrightarrow> length path \<le> MAX_PATH_LEN \<and> 0 \<in> set path) \<and>
   (sanitize path = Inl Absolute \<longleftrightarrow>
      length path \<le> MAX_PATH_LEN \<and> 0 \<notin> set path \<and> (\<exists>r. path = SLASH # r)) \<and>
   (sanitize path = Inl ParentRef \<longleftrightarrow>
      length path \<le> MAX_PATH_LEN \<and> 0 \<notin> set path \<and> (\<nexists>r. path = SLASH # r) \<and>
      [DOT, DOT] \<in> set (split_on SLASH path)) \<and>
   (sanitize path = Inl Empty \<longleftrightarrow>
      length path \<le> MAX_PATH_LEN \<and> (\<nexists>r. path = SLASH # r) \<and>
      set (split_on SLASH path) \<subseteq> {[], [DOT]})"
proof -
  have sw: "starts_with [SLASH] path \<longleftrightarrow> (\<exists>r. path = SLASH # r)"
    by (cases path) auto
  have nul: "set (split_on SLASH path) \<subseteq> {[], [DOT]} \<Longrightarrow> 0 \<notin> set path"
  proof
    assume s: "set (split_on SLASH path) \<subseteq> {[], [DOT]}" and "0 \<in> set path"
    then have "0 \<in> set (join_with SLASH (split_on SLASH path))" by (simp add: join_split)
    then have "0 = SLASH \<or> (\<exists>p \<in> set (split_on SLASH path). 0 \<in> set p)"
      using set_join [of SLASH "split_on SLASH path"] by blast
    with s show False by (auto simp: SLASH_def DOT_def)
  qed
  have em: "filter (\<lambda>p. \<not> skipped p) (split_on SLASH path) = [] \<longleftrightarrow>
      set (split_on SLASH path) \<subseteq> {[], [DOT]}"
    by (auto simp: filter_empty_conv skipped_def)
  show ?thesis
    using nul by (auto simp: sanitize_def sanitize_parts_eq sw em)
qed

section \<open>Knobs\<close>

text \<open>
  No value of the environment variables takes the program outside its bounds: the
  queue depth is between 1 and 64 and 4 by default, the flow count between 1 and 16 and
  1 by default.
\<close>

lemma knobs_bounded:
  "1 \<le> queue_depth env \<and> queue_depth env \<le> 64 \<and> queue_depth None = 4 \<and>
   1 \<le> streams_count env \<and> streams_count env \<le> unat MAX_STREAMS \<and> streams_count None = 1"
  using clamp_depth_bounds [of env] streams_count_bounds [of env]
  by (simp add: queue_depth_def clamp_depth_def QUEUE_DEPTH_def streams_count_def MAX_STREAMS_def)

end
