(* ===== verification/Samples.thy ===== *)
theory Samples
  imports Receiver NetLog Protocol
begin

text \<open>
  Concrete values for the witnesses: a kernel that hands out fresh descriptors, and a
  receiver to which a short stream of two entries arrives.
\<close>

fun sample_kernel :: "nat kernel" where
  "sample_kernel (Open p fl) n = (Ret n, Suc n)"
| "sample_kernel (OpenAt d p fl m) n = (Ret n, Suc n)"
| "sample_kernel (DupFd f) n = (Ret n, Suc n)"
| "sample_kernel (FstatAt d p b) n =
     (Filled \<lparr>st_mode = 0x81A4, st_size = 5, st_mtime = 9, st_dev = 1, st_ino = 2\<rparr>, n)"
| "sample_kernel (Fstat f) n =
     (Filled \<lparr>st_mode = 0x41ED, st_size = 0, st_mtime = 0, st_dev = 1, st_ino = word_of_nat f\<rparr>, n)"
| "sample_kernel Arc4random n = (Ret (7919 * n), n)"
| "sample_kernel _ n = (Ret 0, n)"

definition sample_stream :: "bytes \<Rightarrow> staged" where
  "sample_stream bs =
     \<lparr>s_stream = \<lparr>incoming = bs, events = [Avail 3, Fail EINTR], outgoing = [], write_events = []\<rparr>,
      s_stage = replicate STAGE_CAP 0, s_off = 0, s_end = 0\<rparr>"

definition sample_shared :: "nat shared" where
  "sample_shared =
     \<lparr>sh_os = \<lparr>kst = 3, trace = []\<rparr>, sh_regs = None, sh_diag = None, sh_done = []\<rparr>"

definition sample_net :: "bytes \<Rightarrow> nat net" where
  "sample_net bs =
     \<lparr>n_sh = sample_shared, n_in = sample_stream bs, n_prog = progress_new (ascii ''Receiving''),
      n_sent = [], n_pool = replicate 5 (False, [0, 0, 0]), n_room = None\<rparr>"

definition sample_items :: "item list" where
  "sample_items =
     [(\<lparr>e_kind = Dir, e_path = ascii ''a'', e_size = 0, e_mode = 0x41ED, e_mtime = 7\<rparr>, []),
      (\<lparr>e_kind = File, e_path = ascii ''a/b'', e_size = 5, e_mode = 0x81A4, e_mtime = 9\<rparr>,
        [1, 2, 3, 4, 5])]"

definition sample_bytes :: bytes where
  "sample_bytes = concat (map (frame fold_hasher True) sample_items) @ write_terminator"

definition sample_token :: bytes where
  "sample_token = replicate 32 0x1D"

definition sample_host :: "bytes \<Rightarrow> nat host" where
  "sample_host bs =
     \<lparr>h_net = sample_net [], h_conns = [\<lparr>c_sock = sample_sock bs, c_setup = None, c_idle = None\<rparr>],
      h_flows = []\<rparr>"

end
