(* ===== verification/Live.thy ===== *)
theory Live
  imports Delivery Samples
begin

text \<open>
  The receiver does its work: on an honest stream, with a kernel that never fails a call and
  the threads behind it alive, a pipeline succeeds. What it then did is what the other
  theories say of a pipeline that succeeds.
\<close>

section \<open>Operations that succeed\<close>

text \<open>
  The failures the code is ready for: a directory that is there already, one that is not
  there yet when the manifest is answered, a name to be looked at or removed that does not
  exist, times and modes that cannot be set, and a file system without \<open>F_FULLFSYNC\<close>.
\<close>

fun forgivable :: "syscall \<Rightarrow> errno \<Rightarrow> bool" where
  "forgivable (MkdirAt d n m) x = (x = EEXIST)"
| "forgivable (OpenAt d n fl m) x = (O_DIRECTORY \<in> set fl)"
| "forgivable (FstatAt d n b) x = True"
| "forgivable (UnlinkAt d n) x = True"
| "forgivable (UtimensAt d n a m b) x = True"
| "forgivable (Futimens f a m) x = True"
| "forgivable (Fchmod f m) x = True"
| "forgivable (NoCache f) x = True"
| "forgivable (FullFsync f) x = (x = ENOTSUP \<or> x = EINVAL)"
| "forgivable _ x = False"

text \<open>
  A kernel that fails no call but in these ways, and opens a directory just after it was
  made or found to exist.
\<close>

definition willing :: "'w kernel \<Rightarrow> bool" where
  "willing k \<longleftrightarrow>
     (\<forall>c w x. fst (k c w) = Failed x \<longrightarrow> forgivable c x) \<and>
     (\<forall>d n m w fl x. fst (k (OpenAt d n fl 0) (snd (k (MkdirAt d n m) w))) \<noteq> Failed x)"

definition goes :: "('s, 'a) op \<Rightarrow> bool" where
  "goes m \<longleftrightarrow> (\<forall>s. \<exists>v s'. m s = (Inr v, s'))"

named_theorems goes_intros

lemma goes_return [goes_intros]: "goes (io_return v)"
  by (simp add: goes_def)

lemma goes_bind [goes_intros]: "goes m \<Longrightarrow> (\<And>v. goes (f v)) \<Longrightarrow> goes (io_bind m f)"
  unfolding goes_def
proof
  fix s assume m: "\<forall>s. \<exists>v s'. m s = (Inr v, s')" and f: "\<And>v. \<forall>s. \<exists>w s'. f v s = (Inr w, s')"
  from m obtain v t where "m s = (Inr v, t)" by blast
  moreover from f obtain w u where "f v t = (Inr w, u)" by blast
  ultimately show "\<exists>w s'. io_bind m f s = (Inr w, s')" by simp
qed

lemma goes_catch [goes_intros]: "goes m \<Longrightarrow> goes (io_catch m h)"
  unfolding goes_def io_catch_def by (metis (no_types, lifting) case_prod_conv old.sum.simps(6))

lemma goes_map_err [goes_intros]: "goes m \<Longrightarrow> goes (io_map_err f m)"
  unfolding goes_def io_map_err_def by (metis (no_types, lifting) case_prod_conv old.sum.simps(6))

lemma goes_if [goes_intros]: "(b \<Longrightarrow> goes m) \<Longrightarrow> (\<not> b \<Longrightarrow> goes n) \<Longrightarrow> goes (if b then m else n)"
  by simp

lemma goes_call [goes_intros]:
  fixes k :: "'w kernel"
  assumes k: "willing k" and c: "\<And>x. \<not> forgivable c x"
  shows "goes (call k c)"
  unfolding goes_def
proof
  fix s :: "'w os"
  obtain rep w where r: "k c (kst s) = (rep, w)" by (cases "k c (kst s)")
  with k c have "rep \<noteq> Failed x" for x unfolding willing_def by (metis fst_conv)
  then show "\<exists>v s'. call k c s = (Inr v, s')" using r by (cases rep) (auto simp: call_def call_raw_def)
qed

lemma goes_call_unit [goes_intros]: "willing k \<Longrightarrow> (\<And>x. \<not> forgivable c x) \<Longrightarrow> goes (call_unit k c)"
  unfolding call_unit_def by (intro goes_intros)

lemma goes_call_fd [goes_intros]: "willing k \<Longrightarrow> (\<And>x. \<not> forgivable c x) \<Longrightarrow> goes (call_fd k c)"
  unfolding call_fd_def by (intro goes_intros)

text \<open>A failure of one of the forgiven kinds is dealt with by the code around the call.\<close>

lemma call_unit_fails:
  "willing k \<Longrightarrow> call_unit k c s = (Inl e, t) \<Longrightarrow> \<exists>x. e = OsError x \<and> forgivable c x"
  by (cases "k c (kst s)")
    (auto simp: call_unit_def call_def call_raw_def io_bind_eq willing_def split: reply.splits,
     metis fst_conv)

lemma goes_full_fsync:
  assumes k: "willing k"
  shows "goes (full_fsync k f)"
  unfolding goes_def
proof
  fix s
  obtain r t where r: "call_unit k (FullFsync f) s = (r, t)" by (cases "call_unit k (FullFsync f) s")
  have "goes (call_unit k (Fsync f))" by (intro goes_intros k) simp
  then obtain v u where "call_unit k (Fsync f) t = (Inr v, u)" unfolding goes_def by blast
  with r call_unit_fails [OF k, of "FullFsync f" s] show "\<exists>v s'. full_fsync k f s = (Inr v, s')"
    by (cases r) (auto simp: full_fsync_def io_catch_def)
qed

lemma goes_cstr: "0 \<notin> set n \<Longrightarrow> goes (f n) \<Longrightarrow> goes (io_bind (cstr n) f)"
  by (simp add: goes_def cstr_def io_bind_def)

lemma goes_cstr_good: "good_component n \<Longrightarrow> goes (f n) \<Longrightarrow> goes (io_bind (cstr n) f)"
  by (rule goes_cstr) (simp add: good_component_def)

lemma goes_mkdir [goes_intros]:
  assumes k: "willing k" and n: "good_component n"
  shows "goes (mkdir_at k d n m)"
proof -
  have "goes (io_catch (call_unit k (MkdirAt d n (ucast m)))
      (\<lambda>err. if raw_os_error err \<noteq> Some EEXIST then io_throw err else io_return ()))"
    unfolding goes_def
  proof
    fix s
    obtain r t where r: "call_unit k (MkdirAt d n (ucast m)) s = (r, t)"
      by (cases "call_unit k (MkdirAt d n (ucast m)) s")
    then show "\<exists>v s'. io_catch (call_unit k (MkdirAt d n (ucast m)))
        (\<lambda>err. if raw_os_error err \<noteq> Some EEXIST then io_throw err else io_return ()) s = (Inr v, s')"
      using call_unit_fails [OF k, of "MkdirAt d n (ucast m)" s] by (cases r) (auto simp: io_catch_def)
  qed
  with n show ?thesis unfolding mkdir_at_def by (intro goes_cstr_good)
qed

text \<open>The directory just made or found is opened.\<close>

lemma mkdir_opens:
  assumes k: "willing k" and m: "mkdir_at k d n m s = (Inr (), t)" and n: "good_component n"
  shows "\<exists>v u. open_dir_at k d n t = (Inr v, u)"
proof -
  have z: "0 \<notin> set n" using n by (simp add: good_component_def)
  obtain rep w where r: "k (MkdirAt d n (ucast m)) (kst s) = (rep, w)"
    by (cases "k (MkdirAt d n (ucast m)) (kst s)")
  have t: "kst t = snd (k (MkdirAt d n (ucast m)) (kst s))"
    using m z r by (cases rep)
      (auto simp: mkdir_at_def cstr_def io_bind_def io_catch_def call_unit_def call_def call_raw_def
        split: if_splits)
  let ?c = "OpenAt d n [O_RDONLY, O_DIRECTORY, O_NOFOLLOW, O_CLOEXEC] 0"
  obtain rep' w' where r': "k ?c (kst t) = (rep', w')" by (cases "k ?c (kst t)")
  with k t have "rep' \<noteq> Failed x" for x unfolding willing_def by (metis fst_conv)
  then show ?thesis
    using r' z by (cases rep') (auto simp: open_dir_at_def cstr_def io_bind_def call_fd_def call_def call_raw_def)
qed

lemma goes_walk: "willing k \<Longrightarrow> \<forall>c \<in> set cs. good_component c \<Longrightarrow> goes (walk_dirs k root cs)"
proof -
  assume k: "willing k"
  have "\<forall>c \<in> set cs. good_component c \<Longrightarrow> goes (walk_dirs_loop k d cs)" for d
  proof (induction cs arbitrary: d)
    case Nil
    show ?case unfolding walk_dirs_loop.simps by (intro goes_intros)
  next
    case (Cons c cs)
    have c: "good_component c" using Cons.prems by simp
    have IH: "goes (walk_dirs_loop k d cs)" for d using Cons by simp
    show ?case
      unfolding goes_def
    proof
      fix s
      obtain t where t: "mkdir_at k d c 0x1ED s = (Inr (), t)"
        using goes_mkdir [OF k c, of d "0x1ED"] unfolding goes_def by fastforce
      from mkdir_opens [OF k t c] obtain v u where u: "open_dir_at k d c t = (Inr v, u)" by blast
      from IH [of v] obtain x y where "walk_dirs_loop k v cs u = (Inr x, y)" unfolding goes_def by blast
      with t u show "\<exists>v s'. walk_dirs_loop k d (c # cs) s = (Inr v, s')" by (simp add: io_map_err_def)
    qed
  qed
  then show "\<forall>c \<in> set cs. good_component c \<Longrightarrow> ?thesis"
    unfolding walk_dirs_def dup_fd_def by (intro goes_intros k) auto
qed

lemma goes_parent: "willing k \<Longrightarrow> \<forall>c \<in> set ps. good_component c \<Longrightarrow>
    goes (parent_get cache ps (walk_dirs k root ps))"
  unfolding parent_get_def by (cases "pc_dir cache") (auto intro!: goes_intros goes_walk)

lemma goes_create_temp: "willing k \<Longrightarrow> good_component n \<Longrightarrow> goes (create_temp_file_at k d n m)"
proof -
  assume k: "willing k" and n: "good_component n"
  have r: "goes (arc4random k)"
    unfolding goes_def arc4random_def by (simp split: prod.splits)
  show ?thesis
    unfolding create_temp_file_at_def numeral_eq_Suc create_temp_tries.simps Let_def
    by (intro goes_bind [OF r] goes_cstr_good temp_name_good n goes_catch goes_intros k) simp
qed

lemma goes_create: "willing k \<Longrightarrow> good_component n \<Longrightarrow> goes (create_payload_file k d n m)"
  using goes_create_temp [of k n d m] unfolding goes_def create_payload_file_def
  by (metis (no_types, lifting) case_prod_conv old.sum.simps(6) surj_pair)

text \<open>With such a kernel the scratch name is never too long, so the file is renamed later.\<close>

lemma create_renames:
  assumes "willing k" "good_component n" "create_payload_file k d n m s = (Inr (f, nm, fin), s')"
  shows "fin = Some n"
proof -
  from goes_create_temp [OF assms(1,2)] obtain v t where "create_temp_file_at k d n m s = (Inr v, t)"
    unfolding goes_def by blast
  with assms(3) show ?thesis by (cases v) (simp add: create_payload_file_def)
qed

lemma goes_symlink: "willing k \<Longrightarrow> 0 \<notin> set t \<Longrightarrow> good_component n \<Longrightarrow> goes (symlink_at k t d n)"
  unfolding symlink_at_def by (intro goes_cstr goes_intros) (simp_all add: good_component_def)

lemma goes_on_os: "goes m \<Longrightarrow> goes (on_os m)"
  unfolding goes_def
proof
  fix s :: "'a shared" assume "\<forall>s. \<exists>v s'. m s = (Inr v, s')"
  then obtain v o' where "m (sh_os s) = (Inr v, o')" by blast
  then show "\<exists>v s'. on_os m s = (Inr v, s')" by (simp add: on_os_def zoom_def)
qed

lemma goes_register: "willing k \<Longrightarrow> goes (register_parent k d)"
proof -
  assume k: "willing k"
  have "goes (register k d g)" for g
    unfolding register_def fd_identity_def by (intro goes_intros k) simp
  then have o: "\<exists>v s'. on_os (register k d g) s = (Inr v, s')" for g s
    using goes_on_os unfolding goes_def by blast
  show ?thesis
    unfolding goes_def
  proof
    fix s show "\<exists>v s'. register_parent k d s = (Inr v, s')"
    proof (cases "sh_regs s")
      case (Some g)
      from o [of g s] obtain v t where "on_os (register k d g) s = (Inr v, t)" by blast
      with Some show ?thesis by (simp add: register_parent_def)
    qed (simp add: register_parent_def)
  qed
qed

section \<open>Steps of the network thread that read nothing\<close>

text \<open>With the threads behind alive they succeed, and leave the socket and the pool alone.\<close>

definition calm :: "('w net, 'a) op \<Rightarrow> bool" where
  "calm m \<longleftrightarrow> (\<forall>s. n_room s = None \<longrightarrow> (\<exists>v s'. m s = (Inr v, s') \<and> n_room s' = None \<and>
     n_in s' = n_in s \<and> n_pool s' = n_pool s))"

lemma calmD:
  assumes "calm m" "n_room s = None"
  obtains v t where "m s = (Inr v, t)" "n_room t = None" "n_in t = n_in s" "n_pool t = n_pool s"
  using assms unfolding calm_def by blast

named_theorems calm_intros

lemma calm_return [calm_intros]: "calm (io_return v)"
  by (simp add: calm_def)

lemma calm_bind [calm_intros]: "calm m \<Longrightarrow> (\<And>v. calm (f v)) \<Longrightarrow> calm (io_bind m f)"
  unfolding calm_def
proof (intro allI impI)
  fix s :: "'a net"
  assume m: "\<forall>s. n_room s = None \<longrightarrow> (\<exists>v s'. m s = (Inr v, s') \<and> n_room s' = None \<and>
      n_in s' = n_in s \<and> n_pool s' = n_pool s)"
    and f: "\<And>v. \<forall>s. n_room s = None \<longrightarrow> (\<exists>w s'. f v s = (Inr w, s') \<and> n_room s' = None \<and>
      n_in s' = n_in s \<and> n_pool s' = n_pool s)"
    and s: "n_room s = None"
  from m s obtain v t where t: "m s = (Inr v, t)" "n_room t = None" "n_in t = n_in s" "n_pool t = n_pool s"
    by blast
  moreover from f t(2) obtain w u where "f v t = (Inr w, u)" "n_room u = None" "n_in u = n_in t" "n_pool u = n_pool t"
    by blast
  ultimately show "\<exists>w s'. io_bind m f s = (Inr w, s') \<and> n_room s' = None \<and>
      n_in s' = n_in s \<and> n_pool s' = n_pool s" by simp
qed

lemma calm_if [calm_intros]: "(b \<Longrightarrow> calm m) \<Longrightarrow> (\<not> b \<Longrightarrow> calm n) \<Longrightarrow> calm (if b then m else n)"
  by simp

lemma calm_sh [calm_intros]: "goes m \<Longrightarrow> calm (net_sh m)"
  unfolding calm_def goes_def net_sh_def zoom_def
  by (auto split: prod.splits) (metis fst_conv)+

lemma calm_os [calm_intros]: "goes m \<Longrightarrow> calm (net_os m)"
  unfolding net_os_def by (rule calm_sh [OF goes_on_os])

lemma calm_ignore [calm_intros]: "calm (io_ignore (net_os m))"
  by (auto simp: calm_def io_ignore_def net_os_def net_sh_def zoom_def split: prod.splits)

lemma calm_diag [calm_intros]: "calm (net_diag g)" and calm_prog [calm_intros]: "calm (net_prog f)"
  by (auto simp: calm_def net_diag_def net_sh_def zoom_def with_diag_def net_prog_def)

lemma calm_send [calm_intros]: "calm (send_msg k m)"
  by (auto simp: calm_def send_msg_def tick_def io_bind_def)

lemma calm_reply [calm_intros]: "calm (recv_reply B)"
  by (auto simp: calm_def recv_reply_def tick_def io_bind_def)

section \<open>Reading\<close>

text \<open>A thread that can go on: everything behind is alive, and so is the connection.\<close>

definition ready :: "'w net \<Rightarrow> bool" where
  "ready s \<longleftrightarrow> n_room s = None \<and> staged_healthy (n_in s) \<and> (\<forall>b \<in> set (n_pool s). snd b \<noteq> [])"

lemma calm_ready:
  assumes "calm m" "ready s"
  obtains v t where "m s = (Inr v, t)" "ready t" "n_in t = n_in s" "n_pool t = n_pool s"
  using assms calmD [OF assms(1)] unfolding ready_def by metis

lemma net_in_ready:
  assumes "m (n_in s) = (Inr v, i)" "staged_healthy i" "ready s"
  obtains t where "net_in m s = (Inr v, t)" "ready t" "n_in t = i" "n_pool t = n_pool s" "n_sent t = n_sent s"
  using assms by (auto simp: net_in_def zoom_def ready_def)

lemma staged_read_events:
  "staged_read n s = (Inl e, s') \<Longrightarrow> length (events (s_stream s')) < length (events (s_stream s))"
  by (auto simp: staged_read_def staged_copy_def Let_def split: if_splits prod.splits sum.splits
      dest!: sock_read_Inl)

lemma read_retry_live:
  assumes "staged_healthy s" "0 < want" "staged_rem s \<noteq> []"
  shows "\<exists>bs s'. read_retry want s = (Inr bs, s') \<and> bs \<noteq> [] \<and> staged_healthy s'"
proof -
  have "\<exists>bs s'. read_retry_fuel fuel want s = (Inr bs, s') \<and> bs \<noteq> [] \<and> staged_healthy s'"
    if "length (events (s_stream s)) < fuel" for fuel
    using assms(1,3) that
  proof (induction fuel arbitrary: s)
    case (Suc fuel)
    obtain x t where x: "staged_read want s = (x, t)" by (cases "staged_read want s")
    show ?case
    proof (cases x)
      case (Inl e)
      note h = staged.rd_healthy_err [OF Suc.prems(1) x [unfolded Inl]]
      have "staged_rem t \<noteq> []" using staged.rd_err [OF x [unfolded Inl]] Suc.prems(2) by simp
      moreover have "length (events (s_stream t)) < fuel"
        using staged_read_events [OF x [unfolded Inl]] Suc.prems(3) by simp
      ultimately show ?thesis using Suc.IH [of t] h x Inl by simp
    next
      case (Inr bs)
      with staged.rd_healthy [OF Suc.prems(1) x [unfolded Inr]] assms(2) Suc.prems(2) x show ?thesis by auto
    qed
  qed simp
  then show ?thesis unfolding read_retry_def by blast
qed

lemma pump_loop_live:
  fixes s :: "'w net"
  shows "ready s \<Longrightarrow> turns = length (n_pool s) \<Longrightarrow> unat remaining \<le> turns \<Longrightarrow>
   unat remaining \<le> length (staged_rem (n_in s)) \<Longrightarrow>
   \<exists>s'. pump_loop turns k e remaining s = (Inr (), s') \<and> ready s' \<and>
     length (n_pool s) \<le> length (n_pool s') + unat remaining"
proof (induction turns arbitrary: s remaining)
  case 0
  then have "remaining = 0" by (simp add: unat_eq_0)
  with 0 show ?case by (simp add: pump_loop.simps [of 0])
next
  case (Suc turns)
  show ?case
  proof (cases "remaining = 0")
    case True
    then have "pump_loop (Suc turns) k e remaining s = (Inr (), s)"
      by (subst pump_loop.simps) simp
    with Suc.prems(1) show ?thesis by auto
  next
    case False
    then have r0: "0 < unat remaining" by (simp add: unat_gt_0)
    from Suc.prems(2) obtain st buf pool where p: "n_pool s = (st, buf) # pool"
      by (cases "n_pool s") auto
    obtain t where t: "pooled_recv s = (Inr buf, t)" "n_pool t = pool" "n_in t = n_in s" "n_room t = n_room s"
      using p by (cases st) (auto simp: pooled_recv_def net_diag_def net_sh_def zoom_def with_diag_def io_bind_def)
    have rt: "ready t" "buf \<noteq> []" using Suc.prems(1) t p by (auto simp: ready_def)
    let ?want = "min (unat remaining) (length buf)"
    have "staged_rem (n_in t) \<noteq> []" using Suc.prems(4) r0 t by auto
    with read_retry_live [of "n_in t" ?want] rt r0 obtain bs i where
      bs: "read_retry ?want (n_in t) = (Inr bs, i)" "bs \<noteq> []" "staged_healthy i"
      by (auto simp: ready_def)
    note ok = read_retry_ok [OF bs(1)]
    obtain u where u: "net_in (read_retry ?want) t = (Inr bs, u)" "ready u" "n_in u = i" "n_pool u = n_pool t"
      by (rule net_in_ready [of "read_retry ?want" t bs i]) (use bs rt in auto)
    let ?n = "word_of_nat (length bs) :: u64"
    let ?msg = "Data (bs @ drop (length bs) buf) (length bs)"
    have calm: "calm (io_bind (net_diag (\<lambda>d. queued (d\<lparr>d_socket_bytes := d_socket_bytes d + ?n\<rparr>))) (\<lambda>_.
        io_bind (send_msg k ?msg) (\<lambda>_. net_prog (add_bytes ?n)) :: ('w net, unit) op))"
      by (intro calm_intros)
    obtain v where v: "io_bind (net_diag (\<lambda>d. queued (d\<lparr>d_socket_bytes := d_socket_bytes d + ?n\<rparr>))) (\<lambda>_.
        io_bind (send_msg k ?msg) (\<lambda>_. net_prog (add_bytes ?n))) u = (Inr (), v)"
        "ready v" "n_in v = n_in u" "n_pool v = n_pool u"
      by (rule calm_ready [OF calm u(2)]) auto
    have le: "length bs \<le> unat remaining" using ok by simp
    have "unat remaining < 2 ^ 64" using unsigned_less [of remaining, where ?'a = nat] by simp
    with le have "unat ?n = length bs" by (intro unat_u64_of_nat) simp
    with le have rem: "unat (remaining - ?n) = unat remaining - length bs"
      by (simp add: unat_sub word_le_nat_alt)
    have l0: "0 < length bs" using bs(2) by simp
    have "turns = length (n_pool v)" using Suc.prems(2) p t(2) u(4) v(4) by simp
    moreover have "unat (remaining - ?n) \<le> turns" using rem l0 Suc.prems(3) by linarith
    moreover have "unat (remaining - ?n) \<le> length (staged_rem (n_in v))"
      using Suc.prems(4) rem ok t(3) u(3) v(3) by simp
    ultimately have "turns = length (n_pool v)" "unat (remaining - ?n) \<le> turns"
      "unat (remaining - ?n) \<le> length (staged_rem (n_in v))" by simp_all
    from Suc.IH [OF v(2) this] obtain w where
      w: "pump_loop turns k e (remaining - ?n) v = (Inr (), w)" "ready w"
        "length (n_pool v) \<le> length (n_pool w) + unat (remaining - ?n)" by blast
    have "pump_loop (Suc turns) k e remaining s =
        io_bind (io_bind (net_diag (\<lambda>d. queued (d\<lparr>d_socket_bytes := d_socket_bytes d + ?n\<rparr>))) (\<lambda>_.
          io_bind (send_msg k ?msg) (\<lambda>_. net_prog (add_bytes ?n))))
          (\<lambda>_. pump_loop turns k e (remaining - ?n)) u"
      using False t u bs(2) by (simp add: pump_loop.simps [of "Suc turns"] Let_def io_bind_assoc)
    then have "pump_loop (Suc turns) k e remaining s = (Inr (), w)" using v(1) w(1) by simp
    have "length (n_pool s) = Suc (length (n_pool v))" using v(4) u(4) t(2) p by simp
    with w(3) rem le l0 have "length (n_pool s) \<le> length (n_pool w) + unat remaining" by linarith
    moreover have "pump_loop (Suc turns) k e remaining s = (Inr (), w)" by fact
    ultimately show ?thesis using w(2) by blast
  qed
qed

section \<open>Entries\<close>

text \<open>The target of a link has to be a name the kernel can take.\<close>

definition sendable :: "item \<Rightarrow> bool" where
  "sendable it \<longleftrightarrow> wf_item it \<and> safe_item it \<and>
     (e_kind (fst it) = Symlink \<longrightarrow> utf8_valid (snd it) \<and> 0 \<notin> set (snd it))"

lemma check_digest_live:
  assumes "ready s" "staged_rem (n_in s) = d @ rest" "length d = DIGEST_LEN"
  obtains t where "check_digest d p s = (Inr (), t)" "ready t" "n_pool t = n_pool s" "staged_rem (n_in t) = rest"
proof -
  have "staged_healthy (n_in s)" using assms(1) by (simp add: ready_def)
  from staged.re_exact [OF this assms(2,3)] obtain i where
    i: "staged_read_exact DIGEST_LEN (n_in s) = (Inr d, i)" "staged_healthy i" "staged_rem i = rest"
    by (auto simp: staged_read_exact_def)
  obtain u where u: "net_in (staged_read_exact DIGEST_LEN) s = (Inr d, u)" "ready u" "n_in u = i" "n_pool u = n_pool s"
    by (rule net_in_ready [of "staged_read_exact DIGEST_LEN" s d i]) (use i assms(1) in auto)
  let ?g = "\<lambda>d. d\<lparr>d_socket_bytes := d_socket_bytes d + word_of_nat DIGEST_LEN\<rparr>"
  obtain v where v: "net_diag ?g u = (Inr (), v)" "ready v" "n_in v = n_in u" "n_pool v = n_pool u"
    by (rule calm_ready [OF calm_diag u(2)]) auto
  have "check_digest d p s = (Inr (), v)" using u v by (simp add: check_digest_def)
  with u v i show ?thesis by (intro that [of v]) simp_all
qed

lemma length_trailer:
  "blake3_ok B absorbed \<Longrightarrow> length (trailer B verify (e, pay)) = length (trailer B verify (e, pay'))"
  by (simp add: trailer_def length_digest)

definition scratched :: "msg list \<Rightarrow> bool" where
  "scratched ms \<longleftrightarrow> (\<forall>f \<in> set (begun ms). if_final f \<noteq> None)"

lemma scratched_simps [simp]:
  "scratched []" "scratched (ms @ ms') \<longleftrightarrow> scratched ms \<and> scratched ms'"
  "scratched (Begin f # ms) \<longleftrightarrow> if_final f \<noteq> None \<and> scratched ms"
  "scratched (Data b l # ms) = scratched ms" "scratched (EndFile # ms) = scratched ms"
  "scratched (Finish # ms) = scratched ms" "scratched (map data_msg bufs)"
  using data_msgs_no_begin [of bufs "[]"] by (auto simp: scratched_def)

lemma pump_file_live:
  fixes s :: "'w net"
  assumes k: "willing k" and B: "blake3_ok B absorbed" and n: "good_component name"
    and s: "ready s" "staged_rem (n_in s) = pay @ trailer B verify (e, pay) @ rest" "length pay = unat (e_size e)"
      "unat (e_size e) \<le> length (n_pool s)" and z: "verify \<longrightarrow> since [] (n_sent s) = []" and e: "e_kind e = File"
  shows "\<exists>s'. pump_file B k dir name e verify s = (Inr (), s') \<and> ready s' \<and>
    length (n_pool s) \<le> length (n_pool s') + unat (e_size e) \<and> (scratched (n_sent s) \<longrightarrow> scratched (n_sent s'))"
proof -
  let ?create = "net_os (create_payload_file k dir name (e_mode e OR 0x180))"
  obtain v t where t: "?create s = (Inr v, t)" "ready t" "n_in t = n_in s" "n_pool t = n_pool s"
    by (rule calm_ready [OF calm_os [OF goes_create [OF k n]] s(1)])
  obtain f nm fin where v: "v = (f, nm, fin)" by (cases v) auto
  let ?fl = "\<lparr>if_file = f, if_parent = dir, if_name = nm, if_final = fin, if_mtime = e_mtime e,
      if_mode = e_mode e, if_finished = False\<rparr>"
  let ?nc = "if NOCACHE_MIN \<le> e_size e then io_ignore (net_os (set_nocache k f)) else io_return ()"
  have "calm (?nc :: ('w net, unit) op)" by (intro calm_intros)
  then obtain u where u: "?nc t = (Inr (), u)" "ready u" "n_in u = n_in t" "n_pool u = n_pool t"
    by (rule calm_ready [OF _ t(2)]) auto
  have su: "n_sent u = n_sent s"
    using net_os_frame [OF t(1)] u(1) by (auto dest: ignore_os_frame split: if_splits)
  obtain w where w: "send_msg k (Begin ?fl) u = (Inr (), w)" "ready w" "n_in w = n_in u" "n_pool w = n_pool u"
    by (rule calm_ready [OF calm_send u(2)]) auto
  from send_msg_frame [OF w(1)] su have sw: "n_sent w = n_sent s @ [Begin ?fl]" by simp
  from pump_loop_live [OF w(2) refl, of "e_size e" k e] s t u w obtain x where
    x: "pump_loop (length (n_pool w)) k e (e_size e) w = (Inr (), x)" "ready x"
      "length (n_pool w) \<le> length (n_pool x) + unat (e_size e)" by auto
  from pump_loop_log [OF x(1)] obtain bufs where
    bufs: "n_sent x = n_sent w @ map data_msg bufs"
      "staged_rem (n_in w) = concat (map live_part bufs) @ staged_rem (n_in x)"
      "length (concat (map live_part bufs)) = unat (e_size e)" by auto
  from bufs(2) s(2) t(3) u(3) w(3) have
    "concat (map live_part bufs) @ staged_rem (n_in x) = pay @ trailer B verify (e, pay) @ rest" by simp
  with bufs(3) s(3) have pay: "concat (map live_part bufs) = pay"
      "staged_rem (n_in x) = trailer B verify (e, pay) @ rest"
    by (metis append_eq_append_conv)+
  let ?vf = "if verify
              then io_bind (send_msg k Finish) (\<lambda>_. io_bind (recv_reply B) (\<lambda>actual.
                     check_digest actual (e_path e)))
              else io_return ()"
  have fin: "fin = Some name"
  proof -
    from net_os_state [OF t(1)] v obtain o' where
      "create_payload_file k dir name (e_mode e OR 0x180) (os_of s) = (Inr (f, nm, fin), o')" by auto
    from create_renames [OF k n this] show ?thesis .
  qed
  obtain y where y: "?vf x = (Inr (), y)" "ready y" "n_pool y = n_pool x"
      "scratched (n_sent x) \<longrightarrow> scratched (n_sent y)"
  proof (cases verify)
    case False
    with x that show ?thesis by auto
  next
    case True
    obtain a where a: "send_msg k Finish x = (Inr (), a)" "ready a" "n_in a = n_in x" "n_pool a = n_pool x"
      by (rule calm_ready [OF calm_send x(2)]) auto
    obtain d b where b: "recv_reply B a = (Inr d, b)" "ready b" "n_in b = n_in a" "n_pool b = n_pool a"
      by (rule calm_ready [OF calm_reply a(2)])
    from send_msg_frame [OF a(1)] have sa: "n_sent a = n_sent x @ [Finish]" by simp
    with recv_reply_frame [OF b(1)] have "d = digest B (since [] (n_sent x))"
      using last_reply [OF B] by simp
    with z True bufs(1) sw pay(1) have d: "d = digest B pay" by simp
    have st: "staged_rem (n_in b) = digest B pay @ rest"
      using a b pay(2) True e by (simp add: trailer_def)
    obtain c where c: "check_digest (digest B pay) (e_path e) b = (Inr (), c)" "ready c" "n_pool c = n_pool b"
      by (rule check_digest_live [OF b(2) st length_digest [OF B]]) auto
    have "?vf x = (Inr (), c)" using True a b c d by simp
    moreover have "n_sent c = n_sent x @ [Finish]"
      using check_digest_frame [OF c(1)] recv_reply_frame [OF b(1)] sa by simp
    ultimately show ?thesis using c b a by (intro that [of c]) simp_all
  qed
  obtain q where q: "send_msg k EndFile y = (Inr (), q)" "ready q" "n_pool q = n_pool y"
    by (rule calm_ready [OF calm_send y(2)]) auto
  have "pump_file B k dir name e verify s = (Inr (), q)"
    using t v u w x y q by (simp add: pump_file_def)
  moreover have "scratched (n_sent s) \<longrightarrow> scratched (n_sent q)"
    using send_msg_frame [OF q(1)] y(4) bufs(1) sw fin by simp
  ultimately show ?thesis using q x y w u t by auto
qed

text \<open>The buffers an item takes from the pool at most: one per byte of a file.\<close>

definition bufs_of :: "item \<Rightarrow> nat" where
  "bufs_of it = (if e_kind (fst it) = File then length (snd it) else 0)"

lemma recv_dir_live:
  fixes s :: "'w net"
  assumes k: "willing k" and n: "good_component name" and s: "ready s"
  shows "\<exists>v s'. recv_dir k dir name e s = (Inr v, s') \<and> ready s' \<and> n_pool s' = n_pool s"
proof -
  have "calm (recv_dir k dir name e :: ('w net, u64) op)"
    unfolding recv_dir_def by (intro calm_intros goes_intros goes_register k n)
  from calm_ready [OF this s] show ?thesis by metis
qed

lemma recv_symlink_live:
  fixes s :: "'w net"
  assumes k: "willing k" and B: "blake3_ok B absorbed" and n: "good_component name" and s: "ready s"
    and r: "staged_rem (n_in s) = pay @ trailer B verify (e, pay) @ rest" "length pay = unat (e_size e)"
    and t: "utf8_valid pay" "0 \<notin> set pay" and e: "e_kind e = Symlink"
  shows "\<exists>v s'. recv_symlink B k dir name e verify s = (Inr v, s') \<and> ready s' \<and> n_pool s' = n_pool s"
proof -
  have "staged_healthy (n_in s)" using s by (simp add: ready_def)
  from staged.re_exact [OF this r] obtain i where
    i: "staged_read_exact (unat (e_size e)) (n_in s) = (Inr pay, i)" "staged_healthy i"
      "staged_rem i = trailer B verify (e, pay) @ rest"
    by (auto simp: staged_read_exact_def)
  obtain u where u: "net_in (staged_read_exact (unat (e_size e))) s = (Inr pay, u)" "ready u" "n_in u = i"
      "n_pool u = n_pool s"
    by (rule net_in_ready [of "staged_read_exact (unat (e_size e))" s pay i]) (use i s in auto)
  obtain w where w: "(if verify then check_digest (digest B pay) (e_path e) else io_return ()) u = (Inr (), w)"
      "ready w" "n_pool w = n_pool u"
  proof (cases verify)
    case True
    then have st: "staged_rem (n_in u) = digest B pay @ rest" using i u e by (simp add: trailer_def)
    show ?thesis
      by (rule check_digest_live [OF u(2) st length_digest [OF B]]) (use True in \<open>auto intro: that\<close>)
  qed (use u that in auto)
  let ?m = "io_bind (io_ignore (net_os (unlink_at k dir name))) (\<lambda>_.
       io_bind (net_os (symlink_at k pay dir name)) (\<lambda>_.
       io_bind (io_ignore (net_os (set_mtime_at k dir name (e_mtime e)))) (\<lambda>_.
       io_bind (net_sh (register_parent k dir)) (\<lambda>_.
       io_bind (net_diag (\<lambda>d. d\<lparr>d_symlinks := d_symlinks d + 1,
                                d_socket_bytes := d_socket_bytes d + e_size e\<rparr>)) (\<lambda>_.
       io_return (e_size e))))))"
  have "calm (?m :: ('w net, u64) op)"
    by (intro calm_intros goes_symlink goes_register k n t)
  then obtain v q where q: "?m w = (Inr v, q)" "ready q" "n_pool q = n_pool w"
    by (rule calm_ready [OF _ w(2)]) auto
  have "recv_symlink B k dir name e verify s = (Inr v, q)"
    using u w q t by (simp add: recv_symlink_def)
  with q w u show ?thesis by auto
qed

lemma recv_entry_live:
  fixes s :: "'w net"
  assumes k: "willing k" and B: "blake3_ok B absorbed" and s: "ready s" and it: "sendable (e, pay)"
    and r: "staged_rem (n_in s) = pay @ trailer B verify (e, pay) @ rest"
    and p: "bufs_of (e, pay) \<le> length (n_pool s)" and z: "verify \<longrightarrow> since [] (n_sent s) = []"
  shows "\<exists>v s'. recv_entry B k root verify cache e s = (Inr v, s') \<and> ready s' \<and>
    length (n_pool s) \<le> length (n_pool s') + bufs_of (e, pay) \<and>
    (e_kind e = File \<longrightarrow> scratched (n_sent s) \<longrightarrow> scratched (n_sent s'))"
proof -
  from it obtain cs where cs: "sanitize (e_path e) = Inr cs" by (auto simp: sendable_def safe_item_def)
  note good = sanitize_components [OF cs]
  then have gl: "good_component (last cs)" by (metis last_in_set)
  have gb: "\<forall>c \<in> set (butlast cs). good_component c" using good by (auto dest: in_set_butlastD)
  obtain v t where t: "net_os (parent_get cache (butlast cs) (walk_dirs k root (butlast cs))) s = (Inr v, t)"
      "ready t" "n_in t = n_in s" "n_pool t = n_pool s"
    by (rule calm_ready [OF calm_os [OF goes_parent [OF k gb]] s])
  obtain dir cache' where v: "v = (dir, cache')" by (cases v)
  obtain u where u: "net_prog (set_current (e_path e)) t = (Inr (), u)" "ready u" "n_in u = n_in t"
      "n_pool u = n_pool t"
    by (rule calm_ready [OF calm_prog t(2)]) auto
  have su: "n_sent u = n_sent s" using net_os_frame [OF t(1)] net_prog_frame [OF u(1)] by simp
  have len: "length pay = payload_len e" and kind: "e_kind e \<noteq> End"
    using it by (auto simp: sendable_def wf_item_def wf_entry_def)
  let ?body = "case e_kind e of
                     Dir \<Rightarrow> recv_dir k dir (last cs) e
                   | Symlink \<Rightarrow> recv_symlink B k dir (last cs) e verify
                   | File \<Rightarrow> recv_file B k dir (last cs) e verify
                   | End \<Rightarrow> io_return 0"
  have "\<exists>m w. ?body u = (Inr m, w) \<and> ready w \<and> length (n_pool u) \<le> length (n_pool w) + bufs_of (e, pay) \<and>
      (e_kind e = File \<longrightarrow> scratched (n_sent u) \<longrightarrow> scratched (n_sent w))"
  proof (cases "e_kind e")
    case Dir
    with recv_dir_live [OF k gl u(2), of dir e] show ?thesis by (auto simp: bufs_of_def)
  next
    case Symlink
    with len it have "length pay = unat (e_size e)" "utf8_valid pay" "0 \<notin> set pay"
      by (auto simp: payload_len_def sendable_def)
    with recv_symlink_live [OF k B gl u(2), of pay verify e rest dir] r t u Symlink show ?thesis
      by (auto simp: bufs_of_def)
  next
    case File
    with len have l: "length pay = unat (e_size e)" by (simp add: payload_len_def)
    have r': "staged_rem (n_in u) = pay @ trailer B verify (e, pay) @ rest" using r t u by simp
    have p': "unat (e_size e) \<le> length (n_pool u)" using p File l t u by (simp add: bufs_of_def)
    have z': "verify \<longrightarrow> since [] (n_sent u) = []" using z su by simp
    from pump_file_live [OF k B gl u(2) r' l p' z' File, of dir] obtain w where
      w: "pump_file B k dir (last cs) e verify u = (Inr (), w)" "ready w"
        "length (n_pool u) \<le> length (n_pool w) + unat (e_size e)"
        "scratched (n_sent u) \<longrightarrow> scratched (n_sent w)" by blast
    obtain q where q: "net_diag (\<lambda>d. d\<lparr>d_files := d_files d + 1\<rparr>) w = (Inr (), q)" "ready q" "n_pool q = n_pool w"
      by (rule calm_ready [OF calm_diag w(2)]) auto
    have "?body u = (Inr (e_size e), q)" using File w q by (simp add: recv_file_def)
    with q w File l net_diag_frame [OF q(1)] show ?thesis by (auto simp: bufs_of_def)
  qed (use kind in simp)
  then obtain m w where w: "?body u = (Inr m, w)" "ready w"
      "length (n_pool u) \<le> length (n_pool w) + bufs_of (e, pay)"
      "e_kind e = File \<longrightarrow> scratched (n_sent u) \<longrightarrow> scratched (n_sent w)" by blast
  obtain q where q: "net_prog finish_file w = (Inr (), q)" "ready q" "n_pool q = n_pool w"
    by (rule calm_ready [OF calm_prog w(2)]) auto
  have "recv_entry B k root verify cache e s = (Inr (cache', m), q)"
    using cs t v u w q by (simp add: recv_entry_def Let_def)
  with q w u t su net_prog_frame [OF q(1)] show ?thesis by auto
qed

lemma entry_done_same:
  assumes d: "entry_done dest j B verify e pay' t u" and B: "blake3_ok B absorbed"
    and r: "staged_rem (n_in t) = pay @ trailer B verify (e, pay) @ rest" and l: "length pay = payload_len e"
  shows "pay' = pay \<and> staged_rem (n_in u) = rest"
proof -
  from d have d': "length pay' = payload_len e"
      "staged_rem (n_in t) = pay' @ trailer B verify (e, pay') @ staged_rem (n_in u)"
    by (auto simp: entry_done_def)
  with r l have "pay' = pay" "trailer B verify (e, pay') @ staged_rem (n_in u) = trailer B verify (e, pay) @ rest"
    by (metis append_eq_append_conv)+
  then show ?thesis by simp
qed

lemma entries_loop_live:
  fixes s :: "'w net"
  assumes k: "willing k" and B: "blake3_ok B absorbed"
  shows "ready s \<Longrightarrow> \<forall>it \<in> set its. sendable it \<Longrightarrow>
    staged_rem (n_in s) = concat (map (frame B verify) its) @ write_terminator @ rest \<Longrightarrow>
    sum_list (map bufs_of its) \<le> length (n_pool s) \<Longrightarrow> verify \<longrightarrow> since [] (n_sent s) = [] \<Longrightarrow>
    length its < fuel \<Longrightarrow> stands dest j [] root (os_of s) \<Longrightarrow> cache_at dest j cache (os_of s) \<Longrightarrow>
    \<exists>s'. entries_loop fuel B k root verify cache st s = (Inr (foldl count_item st its), s') \<and> ready s' \<and>
      staged_rem (n_in s') = rest \<and> (scratched (n_sent s) \<longrightarrow> scratched (n_sent s'))"
proof (induction its arbitrary: fuel cache st s)
  case Nil
  then obtain n where n: "fuel = Suc n" by (cases fuel) auto
  have h: "staged_healthy (n_in s)" and r: "staged_rem (n_in s) = write_terminator @ rest"
    using Nil by (simp_all add: ready_def)
  from staged.decode_terminator [OF h r] obtain i where
    i: "entry_decode staged_read_exact (n_in s) = (Inr None, i)" "staged_healthy i" "staged_rem i = rest" by auto
  obtain u where u: "net_in (entry_decode staged_read_exact) s = (Inr None, u)" "ready u" "n_in u = i"
      "n_sent u = n_sent s"
    by (rule net_in_ready [of "entry_decode staged_read_exact" s None i]) (use i Nil in auto)
  with n i show ?case by auto
next
  case (Cons it its)
  then obtain n where n: "fuel = Suc n" by (cases fuel) auto
  obtain e pay where it: "it = (e, pay)" by (cases it)
  have sd: "sendable (e, pay)" using Cons.prems(2) it by simp
  then have wf: "wf_entry e" and len: "length pay = payload_len e"
    by (auto simp: sendable_def wf_item_def)
  then have kd: "e_kind e \<noteq> End" by (simp add: wf_entry_def)
  let ?rest = "concat (map (frame B verify) its) @ write_terminator @ rest"
  have h: "staged_healthy (n_in s)" using Cons.prems(1) by (simp add: ready_def)
  have r: "staged_rem (n_in s) = entry_encode e @ pay @ trailer B verify (e, pay) @ ?rest"
    using Cons.prems(3) unfolding it by (simp add: frame_def [of B verify "(e, pay)"])
  from staged.decode_encode [OF h r wf] obtain i where
    i: "entry_decode staged_read_exact (n_in s) = (Inr (Some e), i)" "staged_healthy i"
      "staged_rem i = pay @ trailer B verify (e, pay) @ ?rest" by auto
  obtain t where t: "net_in (entry_decode staged_read_exact) s = (Inr (Some e), t)" "ready t" "n_in t = i"
      "n_pool t = n_pool s" "n_sent t = n_sent s"
    by (rule net_in_ready [of "entry_decode staged_read_exact" s "Some e" i]) (use i Cons.prems(1) in auto)
  have r': "staged_rem (n_in t) = pay @ trailer B verify (e, pay) @ ?rest" using t i by simp
  have p: "bufs_of (e, pay) \<le> length (n_pool t)" using Cons.prems(4) t it by simp
  have z: "verify \<longrightarrow> since [] (n_sent t) = []" using Cons.prems(5) t by simp
  from recv_entry_live [OF k B t(2) sd r' p z, of root cache] obtain v u where
    u: "recv_entry B k root verify cache e t = (Inr v, u)" "ready u"
      "length (n_pool t) \<le> length (n_pool u) + bufs_of (e, pay)"
      "e_kind e = File \<longrightarrow> scratched (n_sent t) \<longrightarrow> scratched (n_sent u)" by blast
  have ot: "os_of t = os_of s" using t(1) by (auto simp: net_in_def zoom_eq)
  from recv_entry_log [OF u(1) B z kd, of j dest] Cons.prems(7,8) ot obtain cache' pay' where
    c: "v = (cache', moved_bytes e)" "entry_done dest j B verify e pay' t u" "cache_at dest j cache' (os_of u)"
    by auto
  from specD [OF keeps.recv_entry_r [where A = "\<lambda>_. True"] _ u(1)] have "grows (os_of t) (os_of u)"
    by (auto simp: net_adds_def intro: adds_mono)
  from stands_grows [OF this, of j dest "[]" root] Cons.prems(7) ot have
    du: "stands dest j [] root (os_of u)" by simp
  from entry_done_same [OF c(2) B r' len] have d: "pay' = pay" "staged_rem (n_in u) = ?rest" by simp_all
  have z': "verify \<longrightarrow> since [] (n_sent u) = []"
    using c(2) z unfolding entry_done_def by (auto simp: since_complete split: if_splits)
  have pu: "sum_list (map bufs_of its) \<le> length (n_pool u)" using Cons.prems(4) it u(3) t(4) by simp
  have "length its < n" using Cons.prems(6) n by simp
  from Cons.IH [OF u(2) _ d(2) pu z' this du c(3), of "count_item st it"] Cons.prems(2) obtain s' where
    s': "entries_loop n B k root verify cache' (count_item st it) u =
      (Inr (foldl count_item (count_item st it) its), s')" "ready s'" "staged_rem (n_in s') = rest"
      "scratched (n_sent u) \<longrightarrow> scratched (n_sent s')" by auto
  have "scratched (n_sent t) \<longrightarrow> scratched (n_sent u)"
    using u(4) c(2) by (cases "e_kind e = File") (auto simp: entry_done_def)
  have "entries_loop fuel B k root verify cache st s = (Inr (foldl count_item st (it # its)), s')"
    using n t u c(1) s'(1) it by (simp add: count_item_def)
  with s' t(5) \<open>scratched (n_sent t) \<longrightarrow> scratched (n_sent u)\<close> show ?case by auto
qed

section \<open>A stream is read in one way only\<close>

lemma stream_unique:
  assumes B: "blake3_ok B absorbed"
  shows "concat (map (frame B verify) its) @ write_terminator @ x = concat (map (frame B verify) its') @ write_terminator @ y \<Longrightarrow>
    \<forall>it \<in> set its. wf_item it \<Longrightarrow> \<forall>it \<in> set its'. wf_item it \<Longrightarrow> its = its' \<and> x = y"
proof (induction its arbitrary: its')
  case Nil
  from Nil.prems(1) have d: "entry_decode cursor_read (concat (map (frame B verify) its') @ write_terminator @ y) = (Inr None, x)"
    using cursor.decode_terminator [of "write_terminator @ x" x] by auto
  show ?case
  proof (cases its')
    case Nil
    with Nil.prems d show ?thesis using cursor.decode_terminator [of "write_terminator @ y" y] by auto
  next
    case (Cons it more)
    obtain e pay where it: "it = (e, pay)" by (cases it)
    with Nil.prems(3) Cons have wf: "wf_entry e" by (simp add: wf_item_def)
    have "concat (map (frame B verify) its') @ write_terminator @ y =
        entry_encode e @ pay @ trailer B verify (e, pay) @ concat (map (frame B verify) more) @ write_terminator @ y"
      using Cons it by (simp add: frame_def [of B verify "(e, pay)"])
    with cursor.decode_encode [OF _ this wf] d show ?thesis by auto
  qed
next
  case (Cons it its)
  obtain e pay where it: "it = (e, pay)" by (cases it)
  with Cons.prems(2) have wf: "wf_entry e" and l: "length pay = payload_len e" by (simp_all add: wf_item_def)
  let ?s = "concat (map (frame B verify) (it # its)) @ write_terminator @ x"
  let ?r = "pay @ trailer B verify (e, pay) @ concat (map (frame B verify) its) @ write_terminator @ x"
  have s: "?s = entry_encode e @ ?r" using it by (simp add: frame_def [of B verify "(e, pay)"])
  from cursor.decode_encode [OF _ s wf] have d: "entry_decode cursor_read ?s = (Inr (Some e), ?r)" by auto
  show ?case
  proof (cases its')
    case Nil
    with Cons.prems(1) have "?s = write_terminator @ y" by simp
    with cursor.decode_terminator [of ?s y] d show ?thesis by auto
  next
    case C: (Cons it' more)
    obtain e' pay' where it': "it' = (e', pay')" by (cases it')
    with Cons.prems(3) C have wf': "wf_entry e'" and l': "length pay' = payload_len e'" by (simp_all add: wf_item_def)
    let ?r' = "pay' @ trailer B verify (e', pay') @ concat (map (frame B verify) more) @ write_terminator @ y"
    have "?s = entry_encode e' @ ?r'"
      using Cons.prems(1) C it' by (simp add: frame_def [of B verify "(e', pay')"])
    from cursor.decode_encode [OF _ this wf'] d have e: "e' = e" "?r' = ?r" by auto
    with l l' have p: "pay' = pay" by (metis append_eq_append_conv)
    with e have "concat (map (frame B verify) its) @ write_terminator @ x =
        concat (map (frame B verify) more) @ write_terminator @ y" by simp
    from Cons.IH [OF this] Cons.prems(2,3) C it it' e(1) p show ?thesis by simp
  qed
qed

section \<open>A pipeline\<close>

lemma drop_current_ok: "\<exists>t. drop_current k cur s = (Inr (), t)"
proof (cases cur)
  case (Some f)
  then show ?thesis
    by (cases "if_finished f") (simp_all add: drop_current_def drop_inflight_def io_ignore_def)
qed (simp add: drop_current_def)

lemma write_loop_live:
  fixes s :: "'w shared"
  assumes k: "willing k"
  shows "\<forall>f \<in> set (begun ms). nul_free f \<Longrightarrow> \<forall>f. cur = Some f \<longrightarrow> nul_free f \<Longrightarrow>
    \<exists>s'. write_loop k durable cur ms s = (Inr (), s')"
proof (induction ms arbitrary: cur s)
  case Nil
  from drop_current_ok [of k cur s] show ?case by auto
next
  case (Cons m ms)
  have wd: "with_diag g s = (Inr (), snd (with_diag g s))" for g and s :: "'w shared"
    by (simp add: with_diag_def)
  show ?case
  proof (cases m)
    case (Begin f)
    from drop_current_ok obtain t where t: "drop_current k cur s = (Inr (), t)" by blast
    from Cons.IH [of "Some f" t] Cons.prems Begin t show ?thesis by auto
  next
    case (Data buf len)
    let ?t = "snd (with_diag dequeued s)"
    show ?thesis
    proof (cases cur)
      case None
      with Cons.IH [of None ?t] Cons.prems Data wd [of dequeued s] show ?thesis by auto
    next
      case (Some f)
      have "goes (on_os (file_write_all k (if_file f) (take len buf)))"
        unfolding file_write_all_def by (intro goes_on_os goes_intros k) simp
      then obtain u where u: "on_os (file_write_all k (if_file f) (take len buf)) ?t = (Inr (), u)"
        unfolding goes_def by auto
      let ?g = "\<lambda>d. d\<lparr>d_disk_bytes := d_disk_bytes d + word_of_nat len\<rparr>"
      from Cons.IH [of "Some f" "snd (with_diag ?g u)"] Cons.prems Data Some wd [of dequeued s] wd [of ?g u] u
      show ?thesis by auto
    qed
  next
    case EndFile
    show ?thesis
    proof (cases cur)
      case None
      with Cons EndFile show ?thesis by auto
    next
      case (Some f)
      have nf: "nul_free f" using Cons.prems Some by simp
      have g: "goes (io_ignore m)" for m :: "('w shared, unit) op" by (simp add: goes_def io_ignore_def)
      have fs: "goes (on_os (full_fsync k (if_file f)))"
        by (intro goes_on_os goes_full_fsync k)
      have rn: "goes (on_os (rename_at k (if_parent f) (if_name f) n))" if "if_final f = Some n" for n
        unfolding rename_at_def
        by (intro goes_on_os goes_cstr goes_intros k) (use nf that in \<open>auto simp: nul_free_def\<close>)
      have "goes (complete k durable f)"
        unfolding complete_def
        by (cases "if_final f") (auto intro!: goes_intros g fs rn goes_register k simp del: io_return_simp)
      then obtain u where u: "complete k durable f s = (Inr (), u)" unfolding goes_def by auto
      obtain w where w: "mark_finished f u = (Inr (), w)" by (simp add: mark_finished_def)
      from Cons.IH [of None w] Cons.prems EndFile Some u w show ?thesis
        by (auto simp: drop_inflight_finished)
    qed
  next
    case Finish
    with Cons show ?thesis by auto
  qed
qed

text \<open>What the network thread sent puts only files with proper names in flight.\<close>

lemma begun_no_finish [simp]: "begun (no_fin ms) = begun ms"
proof (induction ms)
  case (Cons m ms)
  then show ?case by (cases m) simp_all
qed simp

lemma begun_session: "begun (session_msgs fbs None) = map fst fbs"
proof (induction fbs)
  case (Cons fb fbs)
  then show ?case
    using data_msgs_no_begin [of _ "[]"] by (cases fb) (simp add: session_msgs_simps file_msgs_def)
qed (simp add: session_msgs_simps)

lemma goes_open_dir: "willing k \<Longrightarrow> utf8_valid p \<Longrightarrow> 0 \<notin> set p \<Longrightarrow> goes (open_dir k p)"
  unfolding open_dir_def by (auto intro!: goes_cstr goes_call_fd)

lemma run_pipeline_live:
  fixes s :: "'w net"
  assumes k: "willing k" and B: "blake3_ok B absorbed" and s: "ready s"
    and dest: "utf8_valid dest" "0 \<notin> set dest" and its: "\<forall>it \<in> set its. sendable it"
    and r: "staged_rem (n_in s) = concat (map (frame B verify) its) @ write_terminator @ rest"
    and p: "sum_list (map bufs_of its) \<le> length (n_pool s)"
  shows "\<exists>s' fbs pre logs tl. run_pipeline B k dest verify durable s =
      (Inr (foldl count_item stats_default its), s') \<and> ready s' \<and> staged_rem (n_in s') = rest \<and>
    received dest pre its fbs \<and> (\<forall>fb \<in> set fbs. if_final (fst fb) \<noteq> None) \<and>
    trace (os_of s') = trace (os_of s) @ pre @ concat logs @ tl \<and>
    list_all2 (\<lambda>(f, b) l. file_log durable f b l True) fbs logs"
proof -
  let ?s = "s\<lparr>n_sent := []\<rparr>"
  have s0: "ready ?s" using s by (simp add: ready_def)
  obtain root t where t: "net_os (open_dir k dest) ?s = (Inr root, t)" "ready t" "n_in t = n_in s" "n_pool t = n_pool s"
    by (rule calm_ready [OF calm_os [OF goes_open_dir [OF k dest]] s0]) auto
  obtain u where u: "net_sh (register_parent k root) t = (Inr (), u)" "ready u" "n_in u = n_in t" "n_pool u = n_pool t"
    by (rule calm_ready [OF calm_sh [OF goes_register [OF k]] t(2)]) auto
  have su: "n_sent u = []" using net_os_frame [OF t(1)] net_sh_frame [OF u(1)] by simp
  have "length its < Suc (length (staged_rem (n_in u)))"
  proof -
    have "length its \<le> length (concat (map (frame B verify) its))"
    proof (induction its)
      case (Cons it its)
      then show ?case by (simp add: frame_def length_entry_encode)
    qed simp
    with r t u show ?thesis by simp
  qed
  let ?n = "length (trace (os_of ?s))"
  from net_os_state [OF t(1)] obtain o' where o': "open_dir k dest (os_of ?s) = (Inr root, o')" "os_of t = o'"
    by auto
  from specE [OF open_dir_at_root [of ?n] _ o'(1)] o'(2) have at: "stands dest ?n [] root (os_of t)" by simp
  from specD [OF keeps.r_registers [where P = "\<lambda>_. True"] _ u(1)] have "grows (os_of t) (os_of u)"
    by (auto simp: net_adds_def intro: adds_mono)
  from stands_grows [OF this at] have au: "stands dest ?n [] root (os_of u)" .
  from entries_loop_live [OF k B u(2) its _ _ _ \<open>length its < _\<close> au cache_at_default, of verify rest stats_default]
    r p t u su obtain w where
    w: "entries_loop (Suc (length (staged_rem (n_in u)))) B k root verify parent_cache_default stats_default u =
      (Inr (foldl count_item stats_default its), w)" "ready w" "staged_rem (n_in w) = rest"
      "scratched (n_sent w)"
    by auto
  have e: "read_entries B k dest verify ?s = (Inr (foldl count_item stats_default its), w)"
    using t u w(1) by (simp add: read_entries_def del: entries_loop.simps)
  from read_entries_log [OF e B] obtain its' fbs pre where
    log: "received dest pre its' fbs" "no_fin (n_sent w) = session_msgs fbs None"
      "staged_rem (n_in s) = concat (map (frame B verify) its') @ write_terminator @ staged_rem (n_in w)"
      and pre: "trace (os_of w) = trace (os_of s) @ pre" by auto
  have wf: "\<forall>it \<in> set its. wf_item it" "\<forall>it \<in> set its'. wf_item it"
    using its log(1) by (auto simp: sendable_def received_def)
  from log(3) r have "concat (map (frame B verify) its) @ write_terminator @ rest =
      concat (map (frame B verify) its') @ write_terminator @ staged_rem (n_in w)" by simp
  from stream_unique [OF B this wf] have same: "its' = its" by simp
  have "map fst fbs = begun (n_sent w)"
    using log(2) begun_session [of fbs] begun_no_finish [of "n_sent w"] by simp
  with w(4) have "\<forall>f \<in> set (map fst fbs). if_final f \<noteq> None" unfolding scratched_def by metis
  then have final: "\<forall>fb \<in> set fbs. if_final (fst fb) \<noteq> None" by simp
  have "\<forall>f \<in> set (begun (no_fin (n_sent w))). nul_free f"
    using received_nul_free [OF log(1)] unfolding log(2) begun_session by auto
  from write_loop_live [OF k this, of None durable "n_sh w"] obtain sh where
    sh: "write_loop k durable None (no_fin (n_sent w)) (n_sh w) = (Inr (), sh)" by auto
  then have run: "run_pipeline B k dest verify durable s = (Inr (foldl count_item stats_default its), w\<lparr>n_sh := sh\<rparr>)"
    using e by (simp add: run_pipeline_def write_forwarded)
  from writer_log [OF sh [unfolded log(2)] received_nul_free [OF log(1)]] obtain new where
    new: "trace (sh_os sh) = trace (os_of w) @ new" "session_log durable fbs True new" by auto
  from session_log_all [OF new(2)] obtain logs tl where
    l: "new = concat logs @ tl" "list_all2 (\<lambda>(f, b) l. file_log durable f b l True) fbs logs" by blast
  show ?thesis
    by (rule exI [of _ "w\<lparr>n_sh := sh\<rparr>"], rule exI [of _ fbs], rule exI [of _ pre], rule exI [of _ logs],
        rule exI [of _ tl])
      (use run w log(1) same final pre new l in \<open>simp add: ready_def\<close>)
qed

end
