(* ===== verification/Guarantees.thy ===== *)
theory Guarantees
  imports Durable Manifest ReceiverSafe Live
begin

text \<open>
  The properties of the receiver: where it may write, what becomes visible and when, what
  the acknowledgement promises, and what is left behind after a failure.
\<close>

section \<open>Confinement\<close>

text \<open>
  C3. Nothing a sender puts on the wire makes the receiver leave its destination. From a
  fresh log on, over a whole session of either version, every system call is allowed to a
  program that was given the destination and nothing else: the only path it opens is the
  destination, as a directory; every other call names one good component (not empty, no
  slash, no NUL, neither dot nor dot-dot) relative to a directory descriptor that an
  earlier call of the log handed out, does not follow a symbolic link, and changes only
  files it created. This holds for every kernel, so also while other processes swap
  directories for links underneath.
\<close>

theorem receiver_confined:
  assumes "accept_one B k dest token durable s = (r, s')"
    and "trace (os_of (h_net s)) = []" and "sh_regs (n_sh (h_net s)) = None"
  shows "confined dest {} {} (trace (os_of (h_net s')))"
proof -
  have "regs_host {} s" using assms(3) by (simp add: regs_ok_def)
  from specD [OF accept_one_stays this assms(1)]
  have "host_stays dest {} {} s s'" by simp
  then obtain tr where "trace (os_of (h_net s')) = trace (os_of (h_net s)) @ tr"
      "confined dest (has_dirs {} (os_of (h_net s))) (has_files {} (os_of (h_net s))) tr"
    by (auto simp: host_stays_def sh_stays_def stays_def)
  with assms(2) show ?thesis by (simp add: has_dirs_def has_files_def)
qed

theorem receiver_confined_witness:
  "case accept_one fold_hasher sample_kernel (ascii ''/in'') sample_token True
          (sample_host (encode_handshake 0 sample_token @ manifest_bytes (map fst sample_items) @ sample_bytes)) of
     (r, s') \<Rightarrow> confined (ascii ''/in'') {} {} (trace (os_of (h_net s')))"
  by (auto intro: receiver_confined simp: sample_host_def sample_net_def sample_shared_def split: prod.splits)

section \<open>The sample session\<close>

lemma sample_willing: "willing sample_kernel"
proof -
  have "fst (sample_kernel c w) \<noteq> Failed x" for c w x by (cases c) simp_all
  then show ?thesis by (simp add: willing_def)
qed

lemma sample_sendable: "\<forall>it \<in> set sample_items. sendable it"
proof -
  have "sanitize (ascii ''a'') = Inr [ascii ''a'']" "sanitize (ascii ''a/b'') = Inr [ascii ''a'', ascii ''b'']"
    by code_simp+
  then show ?thesis
    by (auto simp: sendable_def sample_items_def wf_item_def wf_entry_def payload_len_def safe_item_def ascii_def)
qed

lemma sample_ready: "ready (sample_net bs)" and sample_rem: "staged_rem (n_in (sample_net bs)) = bs"
  by (auto simp: ready_def sample_net_def sample_stream_def staged_healthy_def staged_inv_def sock_healthy_def
      staged_rem_def simp del: replicate.simps)

lemma sample_dest: "utf8_valid (ascii ''/in'')" "0 \<notin> set (ascii ''/in'')"
  by (simp_all add: ascii_def)

lemma sample_runs:
  obtains s' fbs pre logs tl where
    "run_pipeline fold_hasher sample_kernel (ascii ''/in'') True True (sample_net sample_bytes) =
       (Inr (foldl count_item stats_default sample_items), s')"
    "ready s'" "staged_rem (n_in s') = []" "received (ascii ''/in'') pre sample_items fbs"
    "\<forall>fb \<in> set fbs. if_final (fst fb) \<noteq> None" "trace (os_of s') = pre @ concat logs @ tl"
    "list_all2 (\<lambda>(f, b) l. file_log True f b l True) fbs logs"
proof -
  have p: "sum_list (map bufs_of sample_items) \<le> length (n_pool (sample_net sample_bytes))"
    by (simp add: sample_items_def bufs_of_def sample_net_def)
  have r: "staged_rem (n_in (sample_net sample_bytes)) =
      concat (map (frame fold_hasher True) sample_items) @ write_terminator @ []"
    by (simp add: sample_rem sample_bytes_def)
  have o: "trace (os_of (sample_net sample_bytes)) = []"
    by (simp add: sample_net_def sample_shared_def)
  from run_pipeline_live [OF sample_willing fold_hasher_ok sample_ready sample_dest sample_sendable r p,
      where durable = True] o that
  show ?thesis by (simp del: not_None_eq) blast
qed

section \<open>What a pipeline delivers\<close>

text \<open>
  C4. A file's real name appears by a rename, the network thread makes none, and whenever one
  is made, in whatever way the pipeline ends, the stream up to there held a complete frame of
  that file with, when the session verifies, the right digest; the renamed name is the
  scratch file that an earlier call created for this entry, in the directory that the
  entry's path names below the destination; every byte of the payload was written, in order
  and without an error, to the descriptor that this creation handed out; the mode and the
  time were set, and in a durable session the file was flushed, all before the rename. No
  call of the pipeline creates a file under another name than a scratch name, with one
  exception, which the code and its README accept: where an earlier call found the scratch
  name of this very file too long for the file system, it is created in place. So outside
  that case no reader of the destination ever sees a partial or unverified file under a real
  name.
\<close>

theorem visible_only_when_complete:
  assumes "run_pipeline B k dest verify durable s = (r, s')" and "blake3_ok B absorbed"
    and "trace (os_of s') = trace (os_of s) @ before @ e # after"
  shows "(\<forall>d t d' n. fst e = RenameAt d t d' n \<longrightarrow>
      (\<exists>its it f bufs rest. staged_rem (n_in s) = concat (map (frame B verify) its) @ rest \<and>
        it \<in> set its \<and> wf_item it \<and> e_kind (fst it) = File \<and> carries dest before it (f, bufs) \<and>
        committed durable (f, bufs) before \<and> d = if_parent f \<and> d' = d \<and> t = if_name f \<and> if_final f = Some n)) \<and>
    (\<forall>d n fl m. fst e = OpenAt d n fl m \<longrightarrow> O_CREAT \<in> set fl \<longrightarrow>
      (\<exists>nm r. n = temp_name nm r) \<and> O_EXCL \<in> set fl \<or>
      (\<exists>r. (OpenAt d (temp_name n r) [O_WRONLY, O_CREAT, O_EXCL, O_NOFOLLOW, O_CLOEXEC] m, Failed ENAMETOOLONG)
         \<in> set before))"
proof (intro conjI allI impI)
  fix d t d' n assume r: "fst e = RenameAt d t d' n"
  then obtain rep where e: "e = (RenameAt d t d' n, rep)" by (cases e) auto
  from run_pipeline_log [OF assms(1,2)] obtain its fbs rest pre new ok where
    *: "received dest pre its fbs" "staged_rem (n_in s) = concat (map (frame B verify) its) @ rest"
      "trace (os_of s') = trace (os_of s) @ pre @ new" "network_log pre" "session_log durable fbs ok new"
    by (cases r) auto
  from *(3) assms(3) e have "pre @ new = before @ (RenameAt d t d' n, rep) # after" by simp
  from split_at_Cons [OF this] no_rename_notin [OF network_no_rename [OF *(4)], of d t d' n rep] obtain us where
    us: "before = pre @ us" "new = us @ (RenameAt d t d' n, rep) # after" by auto
  from session_log_rename [OF *(5) us(2)] obtain fb where fb: "fb \<in> set fbs"
      "committed durable fb us" "d = if_parent (fst fb)" "d' = d" "t = if_name (fst fb)"
      "if_final (fst fb) = Some n" by blast
  from *(1) have "list_all2 (carries dest pre) (only_files its) fbs" by (simp add: received_def)
  with fb(1) obtain it where it: "it \<in> set (only_files its)" "carries dest pre it fb"
    by (metis in_set_conv_nth list_all2_conv_all_nth)
  then have "it \<in> set its" "e_kind (fst it) = File" by (auto simp: only_files_def)
  moreover from this *(1) have "wf_item it" by (simp add: received_def)
  moreover have "carries dest before it fb" using carries_mono [OF it(2), of "[]"] us(1) by simp
  ultimately show "\<exists>its it f bufs rest. staged_rem (n_in s) = concat (map (frame B verify) its) @ rest \<and>
        it \<in> set its \<and> wf_item it \<and> e_kind (fst it) = File \<and> carries dest before it (f, bufs) \<and>
        committed durable (f, bufs) before \<and> d = if_parent f \<and> d' = d \<and> t = if_name f \<and> if_final f = Some n"
    using *(2) fb(2-) committed_later [of durable fb us pre] us(1)
    by (cases fb) (metis (no_types, lifting) fst_conv)
next
  fix d n fl m assume c: "fst e = OpenAt d n fl m" "O_CREAT \<in> set fl"
  from run_pipeline_orderly [OF assms(1,2,3)] have "creation_ok before e" unfolding orderly_def by blast
  then have "(\<exists>nm r. n = temp_name nm r) \<and> fl = [O_WRONLY, O_CREAT, O_EXCL, O_NOFOLLOW, O_CLOEXEC] \<or>
      (\<exists>r. (OpenAt d (temp_name n r) [O_WRONLY, O_CREAT, O_EXCL, O_NOFOLLOW, O_CLOEXEC] m, Failed ENAMETOOLONG)
         \<in> set before)"
    using c unfolding creation_ok_def by blast
  then show "(\<exists>nm r. n = temp_name nm r) \<and> O_EXCL \<in> set fl \<or>
      (\<exists>r. (OpenAt d (temp_name n r) [O_WRONLY, O_CREAT, O_EXCL, O_NOFOLLOW, O_CLOEXEC] m, Failed ENAMETOOLONG)
         \<in> set before)"
    by auto
qed

lemma sample_rename:
  obtains s' before d t d' n rep after where
    "run_pipeline fold_hasher sample_kernel (ascii ''/in'') True True (sample_net sample_bytes) =
       (Inr (foldl count_item stats_default sample_items), s')"
    "trace (os_of s') = before @ (RenameAt d t d' n, rep) # after"
proof (rule sample_runs)
  fix s' :: "nat net" and fbs pre logs tl
  assume e: "run_pipeline fold_hasher sample_kernel (ascii ''/in'') True True (sample_net sample_bytes) =
       (Inr (foldl count_item stats_default sample_items), s')"
    and r: "received (ascii ''/in'') pre sample_items fbs" and f: "\<forall>fb \<in> set fbs. if_final (fst fb) \<noteq> None"
    and t: "trace (os_of s') = pre @ concat logs @ tl"
    and l: "list_all2 (\<lambda>(f, b) l. file_log True f b l True) fbs logs"
  have "length fbs = 1"
    using r by (auto simp: received_def only_files_def sample_items_def dest: list_all2_lengthD)
  then obtain fl b where fb: "fbs = [(fl, b)]" by (cases fbs) auto
  with l obtain log where log: "logs = [log]" "file_log True fl b log True"
    by (auto simp: list_all2_Cons1)
  from log(2) obtain h p where p: "log = h @ p" "publish_log fl p True"
    unfolding file_log_def by (metis append.assoc)
  from f fb obtain n where "if_final fl = Some n" by auto
  with p(2) obtain rep g where "p = (RenameAt (if_parent fl) (if_name fl) (if_parent fl) n, rep) # g"
    by (auto simp: publish_log_def)
  with t log p have "trace (os_of s') = (pre @ h) @ (RenameAt (if_parent fl) (if_name fl) (if_parent fl) n, rep) # (g @ tl)"
    by simp
  with e show ?thesis by (rule that)
qed

theorem visible_only_when_complete_witness:
  "\<exists>s' before d t d' n rep after f bufs.
     run_pipeline fold_hasher sample_kernel (ascii ''/in'') True True (sample_net sample_bytes) =
       (Inr (foldl count_item stats_default sample_items), s') \<and>
     trace (os_of s') = before @ (RenameAt d t d' n, rep) # after \<and>
     (\<exists>it. carries (ascii ''/in'') before it (f, bufs)) \<and> committed True (f, bufs) before \<and> t = if_name f \<and> if_final f = Some n"
proof (rule sample_rename)
  fix s' :: "nat net" and before d t d' n rep after
  assume e: "run_pipeline fold_hasher sample_kernel (ascii ''/in'') True True (sample_net sample_bytes) =
       (Inr (foldl count_item stats_default sample_items), s')"
    and t: "trace (os_of s') = before @ (RenameAt d t d' n, rep) # after"
  then have "trace (os_of s') = trace (os_of (sample_net sample_bytes)) @ before @ (RenameAt d t d' n, rep) # after"
    by (simp add: sample_net_def sample_shared_def)
  note v = visible_only_when_complete [OF e fold_hasher_ok this, THEN conjunct1, rule_format]
  have "fst (RenameAt d t d' n, rep) = RenameAt d t d' n" by simp
  from v [OF this] obtain it f bufs where "carries (ascii ''/in'') before it (f, bufs)"
      "committed True (f, bufs) before" "t = if_name f" "if_final f = Some n"
    by (elim exE conjE)
  with e t show ?thesis by blast
qed

lemma pipeline_filed:
  assumes "run_pipeline B k dest verify durable s = (Inr st, s')" and "blake3_ok B absorbed"
  shows "\<exists>its fbs pre logs rest.
    staged_rem (n_in s) = concat (map (frame B verify) its) @ write_terminator @ staged_rem (n_in s') \<and>
    (\<forall>it \<in> set its. wf_item it \<and> safe_item it) \<and> list_all2 (carries dest pre) (only_files its) fbs \<and>
    st = foldl count_item stats_default its \<and>
    trace (os_of s') = trace (os_of s) @ pre @ concat logs @ rest \<and> no_rename pre \<and> no_rename rest \<and>
    list_all2 (\<lambda>(f, b) l. file_log durable f b l True) fbs logs"
proof -
  from run_pipeline_log [OF assms] obtain its fbs rest pre new where
    *: "received dest pre its fbs" "staged_rem (n_in s) = concat (map (frame B verify) its) @ rest"
      "trace (os_of s') = trace (os_of s) @ pre @ new" "network_log pre" "session_log durable fbs True new"
      "st = foldl count_item stats_default its" "rest = write_terminator @ staged_rem (n_in s')"
    by auto
  from session_log_all [OF *(5)] obtain logs tl where
    l: "new = concat logs @ tl" "no_rename tl" "list_all2 (\<lambda>(f, b) l. file_log durable f b l True) fbs logs"
    by blast
  show ?thesis
    by (rule exI [of _ its], rule exI [of _ fbs], rule exI [of _ pre], rule exI [of _ logs], rule exI [of _ tl])
      (use * l network_no_rename [OF *(4)] in \<open>simp add: received_def\<close>)
qed

text \<open>
  C8. A pipeline that succeeds has delivered exactly what the stream says: the bytes it
  took are the frames of a list of items and the terminator, nothing skipped or read twice;
  its counters are those of that list; the network thread's part of the log opened for every
  file the directory its path names and created the file there; and the log after that part
  is one complete file log per file, in stream order, of the descriptor and the name that
  creation gave it, and no other rename.
\<close>

theorem pipeline_delivers:
  assumes "run_pipeline B k dest verify durable s = (Inr st, s')" and "blake3_ok B absorbed"
  shows "\<exists>its fbs pre logs rest.
    staged_rem (n_in s) = concat (map (frame B verify) its) @ write_terminator @ staged_rem (n_in s') \<and>
    (\<forall>it \<in> set its. wf_item it \<and> safe_item it) \<and> list_all2 (carries dest pre) (only_files its) fbs \<and>
    st = foldl count_item stats_default its \<and>
    trace (os_of s') = trace (os_of s) @ pre @ concat logs @ rest \<and> no_rename pre \<and> no_rename rest \<and>
    list_all2 (\<lambda>(f, b) l. file_log durable f b l True) fbs logs"
  by (rule pipeline_filed [OF assms])

theorem pipeline_delivers_witness:
  "\<exists>s' its. run_pipeline fold_hasher sample_kernel (ascii ''/in'') True True (sample_net sample_bytes) =
       (Inr (foldl count_item stats_default sample_items), s') \<and>
     sample_bytes = concat (map (frame fold_hasher True) its) @ write_terminator @ staged_rem (n_in s') \<and>
     foldl count_item stats_default sample_items = foldl count_item stats_default its"
proof (rule sample_runs)
  fix s' :: "nat net"
  assume e: "run_pipeline fold_hasher sample_kernel (ascii ''/in'') True True (sample_net sample_bytes) =
       (Inr (foldl count_item stats_default sample_items), s')"
  from pipeline_delivers [OF e fold_hasher_ok] e show ?thesis unfolding sample_rem by blast
qed

section \<open>What the acknowledgement promises\<close>

lemma stream_write_out:
  assumes "stream_write bs s = (r, s')"
  shows "n_sh s' = n_sh s \<and> staged_rem (n_in s') = staged_rem (n_in s) \<and>
    (\<exists>k. outgoing (s_stream (n_in s')) = outgoing (s_stream (n_in s)) @ take k bs) \<and>
    (r = Inr () \<longrightarrow> outgoing (s_stream (n_in s')) = outgoing (s_stream (n_in s)) @ bs)"
  using assms
  by (auto simp: stream_write_def net_in_def zoom_eq sock_write_all_def staged_rem_def
      split: list.splits write_event.splits intro: exI [of _ "length bs"])

lemma new_registry_frame:
  "new_registry durable s = (r, s') \<Longrightarrow> r = Inr () \<and> n_in s' = n_in s \<and> trace (os_of s') = trace (os_of s) \<and>
     sh_regs (n_sh s') = (if durable then Some registry_new else None)"
  by (auto simp: new_registry_def)

lemma flush_directories_log:
  assumes "flush_directories k s = (Inr (), s')"
  shows "case sh_regs s of
      None \<Rightarrow> s' = s
    | Some R \<Rightarrow> \<exists>fl. trace (sh_os s') = trace (sh_os s) @ concat fl \<and> list_all2 (flush_ok True) (reg_dirs R) fl"
  using assms flush_dirs_log
  by (fastforce simp: flush_directories_def flush_all_def on_os_def zoom_eq split: option.splits)

text \<open>
  Every directory the log identified has a descriptor with that identity among \<open>dirs\<close>.
\<close>

definition all_covered :: "(syscall \<times> reply) list \<Rightarrow> fd list \<Rightarrow> bool" where
  "all_covered tr dirs \<longleftrightarrow> (\<forall>d i. identified tr d i \<longrightarrow> (\<exists>d' \<in> set dirs. identified tr d' i))"

lemma tracks_covered:
  assumes "tracks s s'" "sh_regs s = Some registry_new" "trace (sh_os s') = trace (sh_os s) @ new"
  shows "\<exists>R. sh_regs s' = Some R \<and> all_covered new (reg_dirs R) \<and> followed new"
proof -
  from assms obtain R where "sh_regs s' = Some R" "covers new registry_new R" "followed new"
    by (auto simp: tracks_def)
  moreover from this(2) have "all_covered new (reg_dirs R)"
    by (fastforce simp: covers_def all_covered_def registry_new_def)
  ultimately show ?thesis by blast
qed

text \<open>
  One complete file log per file among the items, each carrying that file's payload to its
  real name in the directory its path names, in order.
\<close>

definition filed :: "bytes \<Rightarrow> bool \<Rightarrow> item list \<Rightarrow> (syscall \<times> reply) list \<Rightarrow> bool" where
  "filed dest durable its tr \<longleftrightarrow>
     (\<exists>fbs pre logs tl. list_all2 (carries dest pre) (only_files its) fbs \<and> (\<forall>fb \<in> set fbs. if_final (fst fb) \<noteq> None) \<and>
        tr = pre @ concat logs @ tl \<and> list_all2 (\<lambda>(f, b) l. file_log durable f b l True) fbs logs)"

lemma filed_append: "filed dest durable its tr \<Longrightarrow> filed dest durable its (tr @ tr')"
  unfolding filed_def by (metis append.assoc)

lemma filed_prepend:
  assumes "filed dest durable its tr"
  shows "filed dest durable its (tr' @ tr)"
proof -
  from assms obtain fbs pre logs tl where
    *: "list_all2 (carries dest pre) (only_files its) fbs" "\<forall>fb \<in> set fbs. if_final (fst fb) \<noteq> None"
      "tr = pre @ concat logs @ tl" "list_all2 (\<lambda>(f, b) l. file_log durable f b l True) fbs logs"
    unfolding filed_def by blast
  have "list_all2 (carries dest (tr' @ pre)) (only_files its) fbs"
    using *(1) by (rule list_all2_mono) (use carries_mono [where b = "[]"] in simp)
  with *(2-) show ?thesis
    unfolding filed_def
    by (intro exI [of _ fbs] exI [of _ "tr' @ pre"] exI [of _ logs] exI [of _ tl]) simp
qed

lemma run_pipeline_files:
  assumes "willing k" and "blake3_ok B absorbed" and "ready s" and "utf8_valid dest" and "0 \<notin> set dest"
    and "\<forall>it \<in> set its. sendable it"
    and "staged_rem (n_in s) = concat (map (frame B verify) its) @ write_terminator @ rest"
    and "sum_list (map bufs_of its) \<le> length (n_pool s)"
  shows "\<exists>s' new. run_pipeline B k dest verify durable s = (Inr (foldl count_item stats_default its), s') \<and>
    ready s' \<and> staged_rem (n_in s') = rest \<and> same_out (n_in s) (n_in s') \<and>
    trace (os_of s') = trace (os_of s) @ new \<and> filed dest durable its new"
proof -
  from run_pipeline_live [OF assms, of durable] obtain u fbs pre logs tl
    where u: "run_pipeline B k dest verify durable s = (Inr (foldl count_item stats_default its), u)" "ready u"
      "staged_rem (n_in u) = rest" "received dest pre its fbs" "\<forall>fb \<in> set fbs. if_final (fst fb) \<noteq> None"
      "trace (os_of u) = trace (os_of s) @ pre @ concat logs @ tl"
      "list_all2 (\<lambda>(f, b) l. file_log durable f b l True) fbs logs"
    by (simp del: not_None_eq) blast
  have "filed dest durable its (pre @ concat logs @ tl)"
    using u(4,5,7) unfolding filed_def received_def by blast
  moreover have "same_out (n_in s) (n_in u)" using run_pipeline_log [OF u(1) assms(2)] by auto
  ultimately show ?thesis using u(1-3,6) by blast
qed

lemma flush_directories_live:
  assumes "willing k"
  shows "\<exists>sh fx. flush_directories k s = (Inr (), sh) \<and> trace (sh_os sh) = trace (sh_os s) @ fx"
proof -
  have "goes (flush_dirs k ds)" for ds
  proof (induction ds)
    case (Cons d ds)
    then show ?case unfolding flush_dirs.simps by (intro goes_intros goes_full_fsync assms)
  qed (simp add: goes_def)
  then have g: "goes (on_os (flush_dirs k ds))" for ds by (rule goes_on_os)
  obtain sh where f: "flush_directories k s = (Inr (), sh)"
  proof (cases "sh_regs s")
    case (Some R)
    with g [of "reg_dirs R"] that show ?thesis
      unfolding goes_def by (auto simp: flush_directories_def flush_all_def)
  qed (use that in \<open>simp add: flush_directories_def\<close>)
  from flush_directories_log [OF f] have "\<exists>fx. trace (sh_os sh) = trace (sh_os s) @ fx"
    by (cases "sh_regs s") auto
  with f show ?thesis by blast
qed

lemma receive_entries_delivers:
  assumes "willing k" and "blake3_ok B absorbed" and "ready s" and "write_events (s_stream (n_in s)) = []"
    and "utf8_valid dest" and "0 \<notin> set dest" and "\<forall>it \<in> set its. sendable it"
    and "staged_rem (n_in s) = concat (map (frame B verify) its) @ write_terminator @ rest"
    and "sum_list (map bufs_of its) \<le> length (n_pool s)"
  shows "\<exists>s'. receive_entries B k dest verify durable s = (Inr (foldl count_item stats_default its), s') \<and>
    outgoing (s_stream (n_in s')) = outgoing (s_stream (n_in s)) @ [ACK] \<and> staged_rem (n_in s') = rest \<and>
    (\<exists>new. trace (os_of s') = trace (os_of s) @ new \<and> filed dest durable its new)"
proof -
  obtain t where t: "new_registry durable s = (Inr (), t)" "n_in t = n_in s" "n_pool t = n_pool s" "n_room t = n_room s"
    by (simp add: new_registry_def)
  have rt: "ready t" using assms(3) t by (simp add: ready_def)
  have ot: "trace (os_of t) = trace (os_of s)" using new_registry_frame [OF t(1)] by simp
  from run_pipeline_files [OF assms(1,2) rt assms(5-7), of verify rest durable] assms(8,9) t obtain u new
    where u: "run_pipeline B k dest verify durable t = (Inr (foldl count_item stats_default its), u)"
      "staged_rem (n_in u) = rest" "same_out (n_in s) (n_in u)" "trace (os_of u) = trace (os_of s) @ new"
      "filed dest durable its new"
    using ot by auto
  obtain sh fx where f: "flush_directories k (n_sh u) = (Inr (), sh)" "trace (sh_os sh) = trace (os_of u) @ fx"
    using flush_directories_live [OF assms(1)] by blast
  then have n: "net_sh (flush_directories k) u = (Inr (), u\<lparr>n_sh := sh\<rparr>)"
    by (simp add: net_sh_def zoom_def)
  obtain v where v: "stream_write [ACK] (u\<lparr>n_sh := sh\<rparr>) = (Inr (), v)"
    using u(3) assms(4) by (simp add: stream_write_def net_in_def zoom_def sock_write_all_def)
  from stream_write_out [OF v] u(2,3) have
    "outgoing (s_stream (n_in v)) = outgoing (s_stream (n_in s)) @ [ACK]" "staged_rem (n_in v) = rest" by simp_all
  moreover have "receive_entries B k dest verify durable s = (Inr (foldl count_item stats_default its), v)"
    using t u n v by (simp add: receive_entries_def)
  moreover have "trace (os_of v) = trace (os_of s) @ new @ fx"
    using stream_write_out [OF v] f(2) u(4) by simp
  ultimately show ?thesis using filed_append [OF u(5)] by blast
qed

lemma receive_entries_live:
  assumes "willing k" and "blake3_ok B absorbed" and "ready s" and "write_events (s_stream (n_in s)) = []"
    and "utf8_valid dest" and "0 \<notin> set dest" and "\<forall>it \<in> set its. sendable it"
    and "staged_rem (n_in s) = concat (map (frame B verify) its) @ write_terminator @ rest"
    and "sum_list (map bufs_of its) \<le> length (n_pool s)"
  shows "\<exists>s'. receive_entries B k dest verify durable s = (Inr (foldl count_item stats_default its), s') \<and>
    outgoing (s_stream (n_in s')) = outgoing (s_stream (n_in s)) @ [ACK] \<and> staged_rem (n_in s') = rest"
  using receive_entries_delivers [OF assms] by blast

lemma sample_pool: "sum_list (map bufs_of sample_items) \<le> length (n_pool (sample_net bs))"
  by (simp add: sample_items_def bufs_of_def sample_net_def)

lemma sample_stream_bytes: "staged_rem (n_in (sample_net sample_bytes)) =
    concat (map (frame fold_hasher True) sample_items) @ write_terminator @ []"
  by (simp add: sample_rem sample_bytes_def)

text \<open>A session that wrote something went through all its stages.\<close>

lemma receive_entries_acked:
  assumes "receive_entries B k dest verify durable s = (r, s')" and "blake3_ok B absorbed"
    and "outgoing (s_stream (n_in s')) \<noteq> outgoing (s_stream (n_in s))"
  obtains x t st u v w where "new_registry durable s = (x, t)" "run_pipeline B k dest verify durable t = (Inr st, u)"
    "net_sh (flush_directories k) u = (Inr (), v)" "stream_write [ACK] v = (w, s')"
    "outgoing (s_stream (n_in s')) = outgoing (s_stream (n_in s)) @ [ACK]"
proof -
  obtain x t where x: "new_registry durable s = (x, t)" by (cases "new_registry durable s")
  note fx = new_registry_frame [OF x]
  obtain y u where y: "run_pipeline B k dest verify durable t = (y, u)"
    by (cases "run_pipeline B k dest verify durable t")
  obtain z v where z: "net_sh (flush_directories k) u = (z, v)" by (cases "net_sh (flush_directories k) u")
  obtain w q where w: "stream_write [ACK] v = (w, q)" by (cases "stream_write [ACK] v")
  have e: "receive_entries B k dest verify durable s =
      io_bind (run_pipeline B k dest verify durable) (\<lambda>st. io_bind (net_sh (flush_directories k)) (\<lambda>_.
        io_bind (stream_write [ACK]) (\<lambda>_. io_return st))) t"
    using x fx by (simp add: receive_entries_def)
  from run_pipeline_log [OF y assms(2)] have out: "outgoing (s_stream (n_in u)) = outgoing (s_stream (n_in t))" by blast
  note nz = net_sh_frame [OF z]
  have "\<exists>st. y = Inr st"
  proof (cases y)
    case (Inl err)
    with e y assms(1) have "s' = u" by simp
    with out fx assms(3) show ?thesis by simp
  qed simp
  then obtain st where st: "y = Inr st" by blast
  have "z = Inr ()"
  proof (cases z)
    case (Inl err)
    with e y z st assms(1) have "s' = v" by simp
    with nz out fx assms(3) show ?thesis by simp
  qed simp
  with e y z st w assms(1) have s': "s' = q" by (cases w) auto
  from stream_write_out [OF w] obtain j where
    "outgoing (s_stream (n_in q)) = outgoing (s_stream (n_in v)) @ take j [ACK]" by blast
  with nz out fx s' assms(3) have "outgoing (s_stream (n_in s')) = outgoing (s_stream (n_in s)) @ [ACK]"
    by (cases j) simp_all
  with that x y z w st s' \<open>z = Inr ()\<close> show ?thesis by blast
qed

text \<open>What the flushes at the end cover.\<close>

lemma tracked_flushes:
  assumes "sh_regs s = (if durable then Some registry_new else None)" and "tracks s s'"
    and "trace (sh_os s') = trace (sh_os s) @ tr" and "flush_directories k s' = (Inr (), s'')"
  obtains dirs flushes where "trace (sh_os s'') = trace (sh_os s') @ concat flushes"
    "list_all2 (flush_ok True) dirs flushes"
    "if durable then all_covered tr dirs \<and> followed tr else dirs = []"
proof (cases durable)
  case True
  with assms(1) have "sh_regs s = Some registry_new" by simp
  from tracks_covered [OF assms(2) this assms(3)] obtain R where
    R: "sh_regs s' = Some R" "all_covered tr (reg_dirs R)" "followed tr" by blast
  with flush_directories_log [OF assms(4)] True show ?thesis by (auto intro: that)
next
  case False
  with assms(1,2) have "sh_regs s' = None" by (auto simp: tracks_def)
  with flush_directories_log [OF assms(4)] False show ?thesis by (intro that [of "[]" "[]"]) auto
qed

lemma flushes_cover:
  assumes "new_registry durable s = (x, t)" and "run_pipeline B k dest verify durable t = (y, u)"
    and "trace (os_of u) = trace (os_of t) @ tr" and "net_sh (flush_directories k) u = (Inr (), v)"
  obtains dirs flushes where "trace (os_of v) = trace (os_of u) @ concat flushes"
    "list_all2 (flush_ok True) dirs flushes"
    "if durable then all_covered tr dirs \<and> followed tr else dirs = []"
proof -
  from assms(4) have fl: "flush_directories k (n_sh u) = (Inr (), n_sh v)" by (auto simp: net_sh_def zoom_eq)
  have "sh_regs (n_sh t) = (if durable then Some registry_new else None)"
    using new_registry_frame [OF assms(1)] by simp
  from tracked_flushes [OF this run_pipeline_tracks [OF assms(2), unfolded net_tracks_def] assms(3) fl] that
  show ?thesis by blast
qed

text \<open>
  C5. If the sender gets the byte it takes for success, then everything it sent is in
  place: the stream held complete frames up to the terminator, the log holds one complete
  file log per file in stream order, and in a durable session every file was flushed before
  its rename, every rename is followed by the identification of its directory, and last of
  all before the byte a directory of each identity was flushed without an error. If
  anything at all failed, not one byte was written.
\<close>

theorem ack_means_committed:
  assumes "receive_entries B k dest verify durable s = (r, s')" and "blake3_ok B absorbed"
    and "outgoing (s_stream (n_in s')) \<noteq> outgoing (s_stream (n_in s))"
  shows "outgoing (s_stream (n_in s')) = outgoing (s_stream (n_in s)) @ [ACK] \<and>
    (\<exists>its fbs pre logs rest dirs flushes.
      staged_rem (n_in s) = concat (map (frame B verify) its) @ write_terminator @ staged_rem (n_in s') \<and>
      (\<forall>it \<in> set its. wf_item it \<and> safe_item it) \<and> list_all2 (carries dest pre) (only_files its) fbs \<and>
      trace (os_of s') = trace (os_of s) @ pre @ concat logs @ rest @ concat flushes \<and>
      no_rename pre \<and> no_rename rest \<and> list_all2 (\<lambda>(f, b) l. file_log durable f b l True) fbs logs \<and>
      list_all2 (flush_ok True) dirs flushes \<and>
      (if durable then all_covered (pre @ concat logs @ rest) dirs \<and> followed (pre @ concat logs @ rest)
       else dirs = []))"
proof -
  from assms obtain x t st u v w where
    e: "new_registry durable s = (x, t)" "run_pipeline B k dest verify durable t = (Inr st, u)"
      "net_sh (flush_directories k) u = (Inr (), v)" "stream_write [ACK] v = (w, s')" and
    ack: "outgoing (s_stream (n_in s')) = outgoing (s_stream (n_in s)) @ [ACK]"
    by (rule receive_entries_acked)
  note fx = new_registry_frame [OF e(1)] and fz = net_sh_frame [OF e(3)] and fw = stream_write_out [OF e(4)]
  from pipeline_filed [OF e(2) assms(2)] obtain its fbs pre logs rest where
    p: "staged_rem (n_in t) = concat (map (frame B verify) its) @ write_terminator @ staged_rem (n_in u)"
      "\<forall>it \<in> set its. wf_item it \<and> safe_item it" "list_all2 (carries dest pre) (only_files its) fbs"
      "trace (os_of u) = trace (os_of t) @ pre @ concat logs @ rest" "no_rename pre" "no_rename rest"
      "list_all2 (\<lambda>(f, b) l. file_log durable f b l True) fbs logs"
    by blast
  from e(1,2) p(4) e(3) obtain dirs flushes where d: "trace (os_of v) = trace (os_of u) @ concat flushes"
      "list_all2 (flush_ok True) dirs flushes"
      "if durable then all_covered (pre @ concat logs @ rest) dirs \<and> followed (pre @ concat logs @ rest)
       else dirs = []"
    by (rule flushes_cover)
  have "trace (os_of s') = trace (os_of s) @ pre @ concat logs @ rest @ concat flushes"
    using fw d(1) p(4) fx by simp
  moreover have "staged_rem (n_in s) = concat (map (frame B verify) its) @ write_terminator @ staged_rem (n_in s')"
    using p(1) fx fw fz by simp
  ultimately show ?thesis
    using ack p(2,3,5-) d(2,3)
    by (intro conjI exI [of _ its] exI [of _ fbs] exI [of _ pre] exI [of _ logs] exI [of _ rest]
        exI [of _ dirs] exI [of _ flushes]) simp_all
qed

lemma sample_acked:
  obtains s' where
    "receive_entries fold_hasher sample_kernel (ascii ''/in'') True True (sample_net sample_bytes) =
       (Inr (foldl count_item stats_default sample_items), s')"
    "outgoing (s_stream (n_in s')) = [ACK]" "staged_rem (n_in s') = []"
proof -
  have w: "write_events (s_stream (n_in (sample_net sample_bytes))) = []"
    and o: "outgoing (s_stream (n_in (sample_net sample_bytes))) = []"
    by (simp_all add: sample_net_def sample_stream_def)
  from receive_entries_live [OF sample_willing fold_hasher_ok sample_ready w sample_dest sample_sendable
      sample_stream_bytes sample_pool, of True] o that show ?thesis by auto
qed

theorem ack_means_committed_witness:
  "\<exists>s' its dirs flushes tr.
     receive_entries fold_hasher sample_kernel (ascii ''/in'') True True (sample_net sample_bytes) =
       (Inr (foldl count_item stats_default sample_items), s') \<and>
     sample_bytes = concat (map (frame fold_hasher True) its) @ write_terminator @ staged_rem (n_in s') \<and>
     trace (os_of s') = tr @ concat flushes \<and> list_all2 (flush_ok True) dirs flushes \<and>
     all_covered tr dirs \<and> followed tr"
proof (rule sample_acked)
  fix s' :: "nat net"
  assume e: "receive_entries fold_hasher sample_kernel (ascii ''/in'') True True (sample_net sample_bytes) =
       (Inr (foldl count_item stats_default sample_items), s')" and a: "outgoing (s_stream (n_in s')) = [ACK]"
  have o: "outgoing (s_stream (n_in (sample_net sample_bytes))) = []" "trace (os_of (sample_net sample_bytes)) = []"
    by (simp_all add: sample_net_def sample_stream_def sample_shared_def)
  with a have "outgoing (s_stream (n_in s')) \<noteq> outgoing (s_stream (n_in (sample_net sample_bytes)))" by simp
  from ack_means_committed [OF e fold_hasher_ok this] obtain its pre logs rest dirs flushes where
    "sample_bytes = concat (map (frame fold_hasher True) its) @ write_terminator @ staged_rem (n_in s')"
    "trace (os_of s') = (pre @ concat logs @ rest) @ concat flushes" "list_all2 (flush_ok True) dirs flushes"
    "all_covered (pre @ concat logs @ rest) dirs" "followed (pre @ concat logs @ rest)"
    by (auto simp: o sample_rem)
  with e show ?thesis by blast
qed

text \<open>
  C6. The receiver does its part: given a stream of well-formed entries with safe paths,
  their payloads and, when the session verifies, their digests, up to the terminator, on a
  kernel that fails no call but in the ways the code is ready for (\<open>willing\<close>: a directory that
  exists already, an attribute that cannot be set and the like), a pool with enough buffers and a connection that may deliver
  its bytes in any pieces and be interrupted, it takes exactly that stream, counts exactly
  its items, sends the acknowledgement, and its log holds, file by file, a complete file log
  that brought the file's payload under its real name.
\<close>

theorem honest_stream_acknowledged:
  assumes "willing k" and "blake3_ok B absorbed" and "ready s" and "write_events (s_stream (n_in s)) = []"
    and "utf8_valid dest" and "0 \<notin> set dest" and "\<forall>it \<in> set its. sendable it"
    and "staged_rem (n_in s) = concat (map (frame B verify) its) @ write_terminator @ rest"
    and "sum_list (map bufs_of its) \<le> length (n_pool s)"
  shows "\<exists>s'. receive_entries B k dest verify durable s = (Inr (foldl count_item stats_default its), s') \<and>
    outgoing (s_stream (n_in s')) = outgoing (s_stream (n_in s)) @ [ACK] \<and> staged_rem (n_in s') = rest \<and>
    (\<exists>new. trace (os_of s') = trace (os_of s) @ new \<and> filed dest durable its new)"
  using assms by (rule receive_entries_delivers)

theorem honest_stream_acknowledged_witness:
  "\<exists>s'. receive_entries fold_hasher sample_kernel (ascii ''/in'') True True (sample_net sample_bytes) =
       (Inr (stats_default\<lparr>st_files := 2, st_bytes := 5\<rparr>), s') \<and>
     outgoing (s_stream (n_in s')) = [ACK] \<and> staged_rem (n_in s') = []"
proof -
  have w: "write_events (s_stream (n_in (sample_net sample_bytes))) = []"
    and o: "outgoing (s_stream (n_in (sample_net sample_bytes))) = []"
    by (simp_all add: sample_net_def sample_stream_def)
  have "foldl count_item stats_default sample_items = stats_default\<lparr>st_files := 2, st_bytes := 5\<rparr>"
    by (simp add: sample_items_def count_item_def stats_default_def moved_bytes_def)
  with honest_stream_acknowledged [OF sample_willing fold_hasher_ok sample_ready w sample_dest sample_sendable
      sample_stream_bytes sample_pool, of True] o show ?thesis by auto
qed

end
