(* ===== verification/Session.thy ===== *)
theory Session
  imports Guarantees
begin

text \<open>
  The session around the pipelines: who is let in, what the manifest answer says, and what
  the acknowledgement of a session of several flows promises.
\<close>

section \<open>Admission\<close>

lemma check_streams_ok:
  "check_streams st s = (r, s') \<Longrightarrow> s' = s \<and>
   (r = Inr () \<longrightarrow> (\<forall>cnt i. st = Some (cnt, i) \<longrightarrow> i = 0 \<and> 2 \<le> cnt \<and> cnt \<le> MAX_STREAMS))"
  by (auto simp: check_streams_def not_less split: option.splits prod.splits if_splits)

text \<open>
  C11. A first connection is admitted only if it began with one of the two canonical
  handshakes carrying this session's token, no unknown flag and, in version 4, index 0 and
  between 2 and 16 flows; exactly the handshake is consumed, and whether digests follow is
  what its flags say. Everything else is an error before a single file is touched.
\<close>

theorem admission:
  assumes "verify_handshake token s = (Inr (verify, streams), s')"
  shows "\<exists>flags. flags_known flags \<and> verify = (flags AND FLAG_NO_VERIFY = 0) \<and>
    (case streams of
       None \<Rightarrow> incoming s = encode_handshake flags token @ incoming s'
     | Some (cnt, index) \<Rightarrow> index = 0 \<and> 2 \<le> cnt \<and> cnt \<le> MAX_STREAMS \<and>
         incoming s = encode_handshake_multi flags token cnt 0 @ incoming s')"
proof -
  obtain x t where x: "read_handshake sock_read_exact s = (x, t)"
    by (cases "read_handshake sock_read_exact s")
  with assms obtain hs where hs: "x = Inr hs" "hs_token hs = token"
    by (cases x) (auto simp: verify_handshake_def ct_eq_iff split: if_splits)
  obtain y u where y: "check_streams (hs_streams hs) t = (y, u)" by (cases "check_streams (hs_streams hs) t")
  from assms x hs y have "y = Inr ()" "verify = (hs_flags hs AND FLAG_NO_VERIFY = 0)"
      "streams = hs_streams hs" "s' = u"
    by (cases y; auto simp: verify_handshake_def ct_eq_iff)+
  with check_streams_ok [OF y] sock.read_handshake_canonical [OF x [unfolded hs(1)]] hs(2) show ?thesis
    by (intro exI [of _ "hs_flags hs"]) (auto split: option.splits)
qed

theorem admission_witness:
  "\<exists>s'. verify_handshake sample_token (sample_sock (encode_handshake 0 sample_token @ [9])) = (Inr (True, None), s') \<and>
     incoming s' = [9] \<and>
     (\<exists>flags. flags_known flags \<and> True = (flags AND FLAG_NO_VERIFY = 0) \<and>
        incoming (sample_sock (encode_handshake 0 sample_token @ [9])) = encode_handshake flags sample_token @ incoming s')"
proof -
  let ?s = "sample_sock (encode_handshake 0 sample_token @ [9])"
  have l: "length sample_token = TOKEN_LEN" by (simp add: sample_token_def TOKEN_LEN_def del: replicate.simps)
  have f: "flags_known 0" by (simp add: flags_known_iff)
  have i: "incoming ?s = encode_handshake 0 sample_token @ [9]" by simp
  from sock.read_handshake_v3 [OF _ l f i] obtain s' where
    s': "read_handshake sock_read_exact ?s =
      (Inr \<lparr>hs_version = VERSION, hs_flags = 0, hs_token = sample_token, hs_streams = None\<rparr>, s')"
      "incoming s' = [9]" by auto
  then have v: "verify_handshake sample_token ?s = (Inr (True, None), s')"
    by (simp add: verify_handshake_def check_streams_def ct_eq_iff)
  with admission [OF v] s'(2) show ?thesis by auto
qed

text \<open>One further connection.\<close>

definition admits :: "bytes \<Rightarrow> u32 \<Rightarrow> bool \<Rightarrow> conn \<Rightarrow> u32 \<times> sock \<Rightarrow> bool" where
  "admits token cnt verify c band \<longleftrightarrow>
     0 < fst band \<and> fst band < cnt \<and>
     (\<exists>flags. flags_known flags \<and> verify = (flags AND FLAG_NO_VERIFY = 0) \<and>
        incoming (c_sock c) = encode_handshake_multi flags token cnt (fst band) @ incoming (snd band))"

lemma check_band_ok:
  assumes "check_band token cnt verify (c_sock c) = (Inr i, s')"
  shows "admits token cnt verify c (i, s')"
proof -
  obtain x t where x: "read_handshake sock_read_exact (c_sock c) = (x, t)"
    by (cases "read_handshake sock_read_exact (c_sock c)")
  with assms obtain hs where hs: "x = Inr hs" "hs_token hs = token" "hs_version hs = VERSION_MULTI"
    by (cases x) (auto simp: check_band_def ct_eq_iff split: if_splits)
  note c = sock.read_handshake_canonical [OF x [unfolded hs(1)]]
  from assms x hs obtain j where j: "hs_streams hs = Some (cnt, j)" "j \<noteq> 0" "\<not> cnt \<le> j"
      "(hs_flags hs AND FLAG_NO_VERIFY = 0) = verify" "i = j" "s' = t"
    by (auto simp: check_band_def ct_eq_iff split: option.splits prod.splits if_splits)
  with c hs show ?thesis by (auto simp: admits_def word_neq_0_conv intro!: exI [of _ "hs_flags hs"])
qed

lemma accept_bands_ok:
  "accept_bands n token cnt verify s = (Inr bands, s') \<Longrightarrow>
   length bands = n \<and> h_net s' = h_net s \<and>
   (\<exists>used. h_conns s = used @ h_conns s' \<and> list_all2 (admits token cnt verify) used bands)"
proof (induction n arbitrary: s bands)
  case (Suc n)
  from Suc.prems obtain c cs where c: "h_conns s = c # cs"
    by (cases "h_conns s") (auto simp: accept_conn_def io_bind_eq)
  let ?t = "s\<lparr>h_conns := cs\<rparr>"
  have "accept_conn s = (Inr c, ?t)" using c by (simp add: accept_conn_def)
  with Suc.prems obtain i stream rest where
    b: "check_band token cnt verify (c_sock c) = (Inr i, stream)" "bands = (i, stream) # rest"
      "accept_bands n token cnt verify ?t = (Inr rest, s')"
    by (auto simp: io_bind_Inr on_sock_def sock_option_def split: option.splits prod.splits sum.splits)
  from Suc.IH [OF b(3)] obtain used where
    "length rest = n" "h_net s' = h_net s" "cs = used @ h_conns s'"
      "list_all2 (admits token cnt verify) used rest" by auto
  with b c check_band_ok [OF b(1)] show ?case by (auto intro!: exI [of _ "c # used"])
qed simp

text \<open>
  C12. Every further connection of a session of several flows passes the same gate: the
  receiver takes exactly one less than the flow count, each with the token, a version 4
  handshake that names this flow count and an index from 1 below it, and the same choice
  about digests as the first.
\<close>

theorem bands_admission:
  assumes "accept_bands n token cnt verify s = (Inr bands, s')"
  shows "length bands = n \<and> h_net s' = h_net s \<and>
    (\<exists>used. h_conns s = used @ h_conns s' \<and> list_all2 (admits token cnt verify) used bands)"
  using assms by (rule accept_bands_ok)

definition band_sock :: "bytes \<Rightarrow> conn" where
  "band_sock bs =
     \<lparr>c_sock = sample_sock (encode_handshake_multi 0 sample_token 2 1 @ bs), c_setup = None, c_idle = None\<rparr>"

lemma sample_bands:
  assumes "h_conns s = [band_sock bs]"
  obtains t where "accept_bands 1 sample_token 2 True s = (Inr [(1, t)], s\<lparr>h_conns := []\<rparr>)"
    "sock_healthy t" "incoming t = bs"
proof -
  let ?s = "c_sock (band_sock bs)"
  have l: "length sample_token = TOKEN_LEN" by (simp add: sample_token_def TOKEN_LEN_def del: replicate.simps)
  have f: "flags_known 0" by (simp add: flags_known_iff)
  have i: "incoming ?s = encode_handshake_multi 0 sample_token 2 1 @ bs" by (simp add: band_sock_def)
  have "sock_healthy ?s" by (simp add: band_sock_def)
  from sock.read_handshake_v4 [OF this l f i] obtain t where t:
    "read_handshake sock_read_exact ?s =
      (Inr \<lparr>hs_version = VERSION_MULTI, hs_flags = 0, hs_token = sample_token, hs_streams = Some (2, 1)\<rparr>, t)"
    "sock_healthy t" "incoming t = bs"
    by auto
  then have "check_band sample_token 2 True ?s = (Inr 1, t)"
    by (simp add: check_band_def ct_eq_iff word_le_nat_alt)
  moreover have "c_setup (band_sock bs) = None" "c_idle (band_sock bs) = None" by (simp_all add: band_sock_def)
  ultimately have "accept_bands 1 sample_token 2 True s = (Inr [(1, t)], s\<lparr>h_conns := []\<rparr>)"
    using assms by (simp add: accept_conn_def sock_option_def on_sock_def io_bind_def)
  with t(2,3) show ?thesis by (rule that [rotated])
qed

theorem bands_admission_witness:
  "\<exists>bands s'. accept_bands 1 sample_token 2 True ((sample_host [])\<lparr>h_conns := [band_sock [9]]\<rparr>) = (Inr bands, s') \<and>
     length bands = 1 \<and> list_all2 (admits sample_token 2 True) [band_sock [9]] bands"
proof (rule sample_bands)
  let ?h = "(sample_host [])\<lparr>h_conns := [band_sock [9]]\<rparr>"
  show "h_conns ?h = [band_sock [9]]" by simp
  fix t assume a: "accept_bands 1 sample_token 2 True ?h = (Inr [(1, t)], ?h\<lparr>h_conns := []\<rparr>)"
  from bands_admission [OF a] have "list_all2 (admits sample_token 2 True) [band_sock [9]] [(1, t)]" by simp
  with a show ?thesis by (intro exI [of _ "[(1, t)]"]) simp
qed

section \<open>Several flows\<close>

text \<open>
  A flow that succeeded: what it took off its connection, what it counted, and the part \<open>seg\<close>
  of the log in which it filed every file it took, in the directory its path names.
\<close>

definition flow_delivers ::
  "bytes \<Rightarrow> bool \<Rightarrow> 'h blake3 \<Rightarrow> bool \<Rightarrow> bytes \<Rightarrow> (syscall \<times> reply) list \<Rightarrow> stats \<Rightarrow> bool" where
  "flow_delivers dest durable B verify stream seg st \<longleftrightarrow>
     (\<exists>its tl fbs pre logs rest. stream = concat (map (frame B verify) its) @ write_terminator @ tl \<and>
        (\<forall>it \<in> set its. wf_item it \<and> safe_item it) \<and> st = foldl count_item stats_default its \<and>
        list_all2 (carries dest pre) (only_files its) fbs \<and> seg = pre @ concat logs @ rest \<and>
        no_rename pre \<and> no_rename rest \<and> list_all2 (\<lambda>(f, b) l. file_log durable f b l True) fbs logs)"

lemma pipeline_flow:
  assumes "run_pipeline B k dest verify durable s = (Inr st, s')" and "blake3_ok B absorbed"
    and "trace (os_of s') = trace (os_of s) @ seg"
  shows "flow_delivers dest durable B verify (staged_rem (n_in s)) seg st"
  using pipeline_filed [OF assms(1,2)] assms(3) unfolding flow_delivers_def by fastforce

lemma pipeline_outgoing:
  "run_pipeline B k dest verify durable s = (r, s') \<Longrightarrow> blake3_ok B absorbed \<Longrightarrow>
   outgoing (s_stream (n_in s')) = outgoing (s_stream (n_in s))"
  using run_pipeline_log [of B k dest verify durable s r s'] by blast

lemma tracks_grows: "tracks s s' \<Longrightarrow> \<exists>new. trace (sh_os s') = trace (sh_os s) @ new"
  by (auto simp: tracks_def)

text \<open>What a further flow leaves alone, and what it may have delivered.\<close>

lemma run_band_ok:
  assumes "run_band B k dest verify durable band s = (r, s')" and "blake3_ok B absorbed"
  shows "n_in (h_net s') = n_in (h_net s) \<and> h_conns s' = h_conns s \<and> tracks (n_sh (h_net s)) (n_sh (h_net s')) \<and>
    (\<exists>seg. trace (os_of (h_net s')) = trace (os_of (h_net s)) @ seg \<and>
       (\<forall>st. r = Inr st \<longrightarrow> flow_delivers dest durable B verify (incoming (snd band)) seg st))"
proof -
  let ?flow = "case h_flows s of [] \<Rightarrow> ([], None) | x # _ \<Rightarrow> x"
  let ?n = "(h_net s)\<lparr>n_in := staged_new (snd band), n_pool := fst ?flow, n_room := snd ?flow\<rparr>"
  obtain x n' where x: "run_pipeline B k dest verify durable ?n = (x, n')"
    by (cases "run_pipeline B k dest verify durable ?n")
  with assms(1) have r: "r = (case x of Inl e \<Rightarrow> Inl (StreamError (unat (fst band)) e) | Inr st \<Rightarrow> Inr st)"
      "n_in (h_net s') = n_in (h_net s)" "h_conns s' = h_conns s" "n_sh (h_net s') = n_sh n'"
    by (auto simp: run_band_def Let_def)
  from run_pipeline_tracks [OF x] r(4) have tk: "tracks (n_sh (h_net s)) (n_sh (h_net s'))"
    by (simp add: net_tracks_def)
  from tracks_grows [OF this] obtain seg where seg: "trace (os_of (h_net s')) = trace (os_of (h_net s)) @ seg" ..
  have "flow_delivers dest durable B verify (incoming (snd band)) seg st" if "r = Inr st" for st
  proof -
    from r(1) that have "x = Inr st" by (cases x) auto
    from pipeline_flow [OF x [unfolded this] assms(2)] seg r(4) show ?thesis by simp
  qed
  with r(2,3) tk seg show ?thesis by blast
qed

lemma run_bands_ok:
  "run_bands B k dest verify durable bands s = (rs, s') \<Longrightarrow> blake3_ok B absorbed \<Longrightarrow>
   n_in (h_net s') = n_in (h_net s) \<and> h_conns s' = h_conns s \<and> tracks (n_sh (h_net s)) (n_sh (h_net s')) \<and>
   (\<exists>segs. trace (os_of (h_net s')) = trace (os_of (h_net s)) @ concat segs \<and> length segs = length bands \<and>
      list_all2 (\<lambda>(band, seg) r. \<forall>st. r = Inr st \<longrightarrow>
        flow_delivers dest durable B verify (incoming (snd band)) seg st) (zip bands segs) rs)"
proof (induction bands arbitrary: s rs s')
  case (Cons b bs)
  obtain r t where r: "run_band B k dest verify durable b s = (r, t)"
    by (cases "run_band B k dest verify durable b s")
  obtain qs u where q: "run_bands B k dest verify durable bs t = (qs, u)"
    by (cases "run_bands B k dest verify durable bs t")
  from Cons.prems(1) r q have rs: "rs = r # qs" "s' = u" by auto
  from run_band_ok [OF r Cons.prems(2)] obtain seg where
    b: "n_in (h_net t) = n_in (h_net s)" "h_conns t = h_conns s" "tracks (n_sh (h_net s)) (n_sh (h_net t))"
      "trace (os_of (h_net t)) = trace (os_of (h_net s)) @ seg"
      "\<forall>st. r = Inr st \<longrightarrow> flow_delivers dest durable B verify (incoming (snd b)) seg st" by blast
  from Cons.IH [OF q Cons.prems(2)] obtain segs where
    q: "n_in (h_net u) = n_in (h_net t)" "h_conns u = h_conns t" "tracks (n_sh (h_net t)) (n_sh (h_net u))"
      "trace (os_of (h_net u)) = trace (os_of (h_net t)) @ concat segs" "length segs = length bs"
      "list_all2 (\<lambda>(band, seg) r. \<forall>st. r = Inr st \<longrightarrow>
        flow_delivers dest durable B verify (incoming (snd band)) seg st) (zip bs segs) qs" by blast
  from b(4,5) q(4-6) rs have "trace (os_of (h_net s')) = trace (os_of (h_net s)) @ concat (seg # segs) \<and>
      length (seg # segs) = length (b # bs) \<and>
      list_all2 (\<lambda>(band, seg) r. \<forall>st. r = Inr st \<longrightarrow>
        flow_delivers dest durable B verify (incoming (snd band)) seg st) (zip (b # bs) (seg # segs)) rs" by simp
  moreover have "tracks (n_sh (h_net s)) (n_sh (h_net s'))" using b(3) q(3) rs(2) tracks.trans by blast
  moreover have "n_in (h_net s') = n_in (h_net s)" "h_conns s' = h_conns s" using b(1,2) q(1,2) rs(2) by simp_all
  ultimately show ?case by blast
qed (simp add: tracks.refl)

lemma total_stats_ok:
  "total_stats tot rs = Inr res \<Longrightarrow>
   \<exists>sts. rs = map Inr sts \<and> st_files res = st_files tot + sum_list (map st_files sts) \<and>
     st_bytes res = st_bytes tot + sum_list (map st_bytes sts)"
proof (induction tot rs rule: total_stats.induct)
  case (3 tot st rs)
  then obtain sts where "rs = map Inr sts"
      "st_files res = st_files tot + st_files st + sum_list (map st_files sts)"
      "st_bytes res = st_bytes tot + st_bytes st + sum_list (map st_bytes sts)" by auto
  then show ?case by (intro exI [of _ "st # sts"]) simp
qed simp_all

abbreviation host_out :: "'w host \<Rightarrow> bytes" where
  "host_out s \<equiv> outgoing (s_stream (n_in (h_net s)))"

lemma run_flows_ok:
  assumes "run_flows B k dest verify durable bands s = (r, s')" and "blake3_ok B absorbed"
  shows "host_out s' = host_out s \<and> h_conns s' = h_conns s \<and> tracks (n_sh (h_net s)) (n_sh (h_net s')) \<and>
    (\<forall>res. r = Inr res \<longrightarrow> (\<exists>st sts seg segs.
       trace (os_of (h_net s')) = trace (os_of (h_net s)) @ seg @ concat segs \<and>
       flow_delivers dest durable B verify (staged_rem (n_in (h_net s))) seg st \<and> length segs = length bands \<and>
       list_all2 (\<lambda>(band, seg) st. flow_delivers dest durable B verify (incoming (snd band)) seg st) (zip bands segs) sts \<and>
       st_files res = st_files st + sum_list (map st_files sts) \<and>
       st_bytes res = st_bytes st + sum_list (map st_bytes sts)))"
proof -
  obtain x t where x: "on_net (run_pipeline B k dest verify durable) s = (x, t)"
    by (cases "on_net (run_pipeline B k dest verify durable) s")
  then have p: "run_pipeline B k dest verify durable (h_net s) = (x, h_net t)" and ct: "h_conns t = h_conns s"
    by (auto simp: on_net_def zoom_eq)
  from run_pipeline_tracks [OF p] have tk: "tracks (n_sh (h_net s)) (n_sh (h_net t))" by (simp add: net_tracks_def)
  from tracks_grows [OF this] obtain seg where seg: "trace (os_of (h_net t)) = trace (os_of (h_net s)) @ seg" ..
  obtain rs u where u: "run_bands B k dest verify durable bands t = (rs, u)"
    by (cases "run_bands B k dest verify durable bands t")
  from run_bands_ok [OF u assms(2)] obtain segs where
    fu: "n_in (h_net u) = n_in (h_net t)" "h_conns u = h_conns t" "tracks (n_sh (h_net t)) (n_sh (h_net u))"
      "trace (os_of (h_net u)) = trace (os_of (h_net t)) @ concat segs" "length segs = length bands"
      "list_all2 (\<lambda>(band, seg) r. \<forall>st. r = Inr st \<longrightarrow>
        flow_delivers dest durable B verify (incoming (snd band)) seg st) (zip bands segs) rs" by blast
  from assms(1) x u have r: "r = (case x of Inl e \<Rightarrow> Inl e | Inr st \<Rightarrow> total_stats st rs)" "s' = u"
    by (auto simp: run_flows_def)
  have "\<exists>st sts. flow_delivers dest durable B verify (staged_rem (n_in (h_net s))) seg st \<and>
       list_all2 (\<lambda>(band, seg) st. flow_delivers dest durable B verify (incoming (snd band)) seg st) (zip bands segs) sts \<and>
       st_files res = st_files st + sum_list (map st_files sts) \<and>
       st_bytes res = st_bytes st + sum_list (map st_bytes sts)" if "r = Inr res" for res
  proof -
    from that r(1) obtain st where st: "x = Inr st" "total_stats st rs = Inr res" by (cases x) auto
    from total_stats_ok [OF st(2)] obtain sts where
      sts: "rs = map Inr sts" "st_files res = st_files st + sum_list (map st_files sts)"
        "st_bytes res = st_bytes st + sum_list (map st_bytes sts)" by blast
    have "list_all2 (\<lambda>(band, seg) st. flow_delivers dest durable B verify (incoming (snd band)) seg st) (zip bands segs) sts"
      using fu(6) sts(1) by (auto simp: list_all2_map2 elim!: list_all2_mono)
    with sts pipeline_flow [OF p [unfolded st(1)] assms(2) seg] show ?thesis by blast
  qed
  moreover have "tracks (n_sh (h_net s)) (n_sh (h_net s'))" using tk fu(3) r(2) tracks.trans by blast
  ultimately show ?thesis
    using pipeline_outgoing [OF p assms(2)] fu(1,2,4,5) ct seg r(2) by - (intro conjI, simp_all, blast)
qed

lemma accept_bands_net: "accept_bands n token cnt verify s = (r, s') \<Longrightarrow> h_net s' = h_net s"
proof (induction n arbitrary: s r s')
  case (Suc n)
  show ?case
  proof (cases "h_conns s")
    case Nil
    with Suc.prems show ?thesis by (auto simp: accept_conn_def io_bind_def)
  next
    case (Cons c cs)
    let ?t = "s\<lparr>h_conns := cs\<rparr>"
    obtain q u where q: "accept_bands n token cnt verify ?t = (q, u)"
      by (cases "accept_bands n token cnt verify ?t")
    have "accept_conn s = (Inr c, ?t)" using Cons by (simp add: accept_conn_def)
    with Suc.prems q Suc.IH [OF q] show ?thesis
      by (auto simp: io_bind_def on_sock_def sock_option_def split: option.splits prod.splits sum.splits)
  qed
qed simp

text \<open>A session of several flows that wrote something went through all its stages.\<close>

lemma accept_multi_acked:
  assumes "accept_multi B k dest token durable cnt verify s = (r, s')" and "blake3_ok B absorbed"
    and "host_out s' \<noteq> host_out s"
  obtains t bands u tot v n a where "on_net (new_registry durable) s = (Inr (), t)" "n_in (h_net t) = n_in (h_net s)"
    "accept_bands (unat (cnt - 1)) token cnt verify t = (Inr bands, u)"
    "run_flows B k dest verify durable bands u = (Inr tot, v)"
    "flush_directories k (n_sh (h_net v)) = (Inr (), n_sh n)"
    "stream_write [ACK] n = (a, h_net s')" "\<forall>res. r = Inr res \<longrightarrow> res = tot"
    "host_out s' = host_out s @ [ACK]" "h_conns s' = h_conns v"
proof -
  obtain t where x: "on_net (new_registry durable) s = (Inr (), t)" and ft: "n_in (h_net t) = n_in (h_net s)"
    by (auto simp: on_net_def zoom_def new_registry_def)
  obtain y u where y: "accept_bands (unat (cnt - 1)) token cnt verify t = (y, u)"
    by (cases "accept_bands (unat (cnt - 1)) token cnt verify t")
  note fy = accept_bands_net [OF y]
  have "\<exists>bands. y = Inr bands"
  proof (cases y)
    case (Inl e)
    with x y assms(1) have "s' = u" by (simp add: accept_multi_def)
    with fy ft assms(3) show ?thesis by simp
  qed simp
  then obtain bands where bands: "y = Inr bands" by blast
  obtain z v where z: "run_flows B k dest verify durable bands u = (z, v)"
    by (cases "run_flows B k dest verify durable bands u")
  note fz = run_flows_ok [OF z assms(2)]
  have "\<exists>tot. z = Inr tot"
  proof (cases z)
    case (Inl e)
    with x y bands z assms(1) have "s' = v" by (simp add: accept_multi_def)
    with fy ft fz assms(3) show ?thesis by simp
  qed simp
  then obtain tot where tot: "z = Inr tot" by blast
  obtain f w where f: "on_net (net_sh (flush_directories k)) v = (f, w)"
    by (cases "on_net (net_sh (flush_directories k)) v")
  then have fw: "flush_directories k (n_sh (h_net v)) = (f, n_sh (h_net w))" "n_in (h_net w) = n_in (h_net v)"
    by (auto simp: on_net_def net_sh_def zoom_eq)
  have fok: "f = Inr ()"
  proof (cases f)
    case (Inl e)
    with x y bands z tot f assms(1) have "s' = w" by (simp add: accept_multi_def)
    with fy ft fz fw assms(3) show ?thesis by simp
  qed simp
  obtain a q where a: "on_net (stream_write [ACK]) w = (a, q)" by (cases "on_net (stream_write [ACK]) w")
  then have sw: "stream_write [ACK] (h_net w) = (a, h_net q)" by (auto simp: on_net_def zoom_eq)
  note fa = stream_write_out [OF sw]
  have s': "s' = q" "\<forall>res. r = Inr res \<longrightarrow> res = tot"
    using x y bands z tot f fok a assms(1) by (cases a; auto simp: accept_multi_def)+
  from fa obtain j where "host_out q = host_out w @ take j [ACK]" by blast
  with fy ft fz fw s' assms(3) have "host_out s' = host_out s @ [ACK]" by (cases j) simp_all
  moreover have "h_conns s' = h_conns v" using f a s'(1) by (auto simp: on_net_def zoom_eq)
  ultimately show ?thesis
    using x ft y bands z tot fw(1) fok sw s' that [of t bands u tot v "h_net w" a] by simp
qed

text \<open>
  C9. The single acknowledgement of a session of several flows is written only after all
  of it: the connections taken from the listener are exactly one less than the flow count and
  each was admitted; every flow (the first and each further one) delivered a complete stream
  of frames with its terminator, and its part of the log holds one complete file log per
  file, in the directory its path names; and after all the flows, last of all before the
  byte, in a durable session a directory of every identity that any flow registered was
  flushed without an error, every rename being followed by the identification of its
  directory. The log is these parts and nothing else. The totals reported are the sums over
  the flows. If one flow fails, no byte is written, although the others run to their end.
\<close>

theorem multi_ack:
  assumes "accept_multi B k dest token durable cnt verify s = (r, s')" and "blake3_ok B absorbed"
    and "outgoing (s_stream (n_in (h_net s'))) \<noteq> outgoing (s_stream (n_in (h_net s)))"
  shows "outgoing (s_stream (n_in (h_net s'))) = outgoing (s_stream (n_in (h_net s))) @ [ACK] \<and>
    (\<exists>used bands st sts seg segs dirs flushes.
      h_conns s = used @ h_conns s' \<and> list_all2 (admits token cnt verify) used bands \<and>
      length bands = unat (cnt - 1) \<and>
      flow_delivers dest durable B verify (staged_rem (n_in (h_net s))) seg st \<and> length segs = length bands \<and>
      list_all2 (\<lambda>(band, seg) st. flow_delivers dest durable B verify (incoming (snd band)) seg st)
        (zip bands segs) sts \<and>
      trace (os_of (h_net s')) = trace (os_of (h_net s)) @ seg @ concat segs @ concat flushes \<and>
      list_all2 (flush_ok True) dirs flushes \<and>
      (if durable then all_covered (seg @ concat segs) dirs \<and> followed (seg @ concat segs) else dirs = []) \<and>
      (\<forall>res. r = Inr res \<longrightarrow> st_files res = st_files st + sum_list (map st_files sts) \<and>
         st_bytes res = st_bytes st + sum_list (map st_bytes sts)))"
proof -
  from assms obtain t bands u tot v n a where
    e: "on_net (new_registry durable) s = (Inr (), t)" "n_in (h_net t) = n_in (h_net s)"
      "accept_bands (unat (cnt - 1)) token cnt verify t = (Inr bands, u)"
      "run_flows B k dest verify durable bands u = (Inr tot, v)"
      "flush_directories k (n_sh (h_net v)) = (Inr (), n_sh n)"
      "stream_write [ACK] n = (a, h_net s')" "\<forall>res. r = Inr res \<longrightarrow> res = tot" and
    ack: "host_out s' = host_out s @ [ACK]" and cs: "h_conns s' = h_conns v"
    by (rule accept_multi_acked)
  from e(1) have "new_registry durable (h_net s) = (Inr (), h_net t)" and ct: "h_conns t = h_conns s"
    by (auto simp: on_net_def zoom_eq)
  note fx = new_registry_frame [OF this(1)]
  from accept_bands_ok [OF e(3)] obtain used where
    used: "list_all2 (admits token cnt verify) used bands" "length bands = unat (cnt - 1)"
      "h_conns t = used @ h_conns u" "h_net u = h_net t" by blast
  from run_flows_ok [OF e(4) assms(2)] obtain st sts seg segs where
    st: "h_conns v = h_conns u" "tracks (n_sh (h_net u)) (n_sh (h_net v))"
      "trace (os_of (h_net v)) = trace (os_of (h_net u)) @ seg @ concat segs"
      "flow_delivers dest durable B verify (staged_rem (n_in (h_net u))) seg st" "length segs = length bands"
      "list_all2 (\<lambda>(band, seg) st. flow_delivers dest durable B verify (incoming (snd band)) seg st) (zip bands segs) sts"
      "st_files tot = st_files st + sum_list (map st_files sts)"
      "st_bytes tot = st_bytes st + sum_list (map st_bytes sts)"
    by blast
  have "sh_regs (n_sh (h_net u)) = (if durable then Some registry_new else None)" using fx used(4) by simp
  from this st(2,3) e(5) obtain dirs flushes where
    d: "trace (os_of n) = trace (os_of (h_net v)) @ concat flushes" "list_all2 (flush_ok True) dirs flushes"
      "if durable then all_covered (seg @ concat segs) dirs \<and> followed (seg @ concat segs) else dirs = []"
    by (rule tracked_flushes)
  have "trace (os_of (h_net s')) = trace (os_of (h_net s)) @ seg @ concat segs @ concat flushes"
    using stream_write_out [OF e(6)] d(1) st(3) fx used(4) by simp
  moreover have "h_conns s = used @ h_conns s'" using ct used(3) st(1) cs by simp
  moreover have "flow_delivers dest durable B verify (staged_rem (n_in (h_net s))) seg st"
    using st(4) used(4) e(2) by simp
  ultimately show ?thesis
    using ack used(1,2) st(5-) d(2,3) e(7)
    by - (rule conjI [OF ack], rule exI [of _ used], rule exI [of _ bands], rule exI [of _ st], rule exI [of _ sts],
        rule exI [of _ seg], rule exI [of _ segs], rule exI [of _ dirs], rule exI [of _ flushes], auto)
qed

text \<open>A session of two flows, each with the sample stream.\<close>

definition sample_multi :: "nat host" where
  "sample_multi =
     \<lparr>h_net = sample_net sample_bytes, h_conns = [band_sock sample_bytes],
      h_flows = [(replicate 5 (False, [0, 0, 0]), None)]\<rparr>"

lemma sample_multi_acked:
  obtains s' res where
    "accept_multi fold_hasher sample_kernel (ascii ''/in'') sample_token True 2 True sample_multi = (Inr res, s')"
    "host_out s' = [ACK]"
proof -
  let ?st = "foldl count_item stats_default sample_items"
  obtain a where a: "on_net (new_registry True) sample_multi = (Inr (), a)"
      "h_conns a = [band_sock sample_bytes]" "n_in (h_net a) = n_in (sample_net sample_bytes)"
      "n_pool (h_net a) = n_pool (sample_net sample_bytes)" "n_room (h_net a) = None"
      "h_flows a = [(replicate 5 (False, [0, 0, 0]), None)]"
    by (simp add: on_net_def zoom_def new_registry_def sample_multi_def sample_net_def)
  obtain t where t: "accept_bands 1 sample_token 2 True a = (Inr [(1, t)], a\<lparr>h_conns := []\<rparr>)"
      "sock_healthy t" "incoming t = sample_bytes"
    by (rule sample_bands [OF a(2)])
  let ?b = "a\<lparr>h_conns := []\<rparr>"
  have ra: "ready (h_net ?b)" using sample_ready [of sample_bytes] a by (simp add: ready_def)
  have sb: "staged_rem (n_in (h_net ?b)) =
      concat (map (frame fold_hasher True) sample_items) @ write_terminator @ []"
    using sample_stream_bytes a by simp
  have pb: "sum_list (map bufs_of sample_items) \<le> length (n_pool (h_net ?b))"
    using sample_pool [of sample_bytes] a by simp
  from run_pipeline_live [OF sample_willing fold_hasher_ok ra sample_dest sample_sendable sb pb, of True]
  obtain n where n: "run_pipeline fold_hasher sample_kernel (ascii ''/in'') True True (h_net ?b) = (Inr ?st, n)"
    by blast
  note fn = run_pipeline_log [OF n fold_hasher_ok]
  let ?c = "?b\<lparr>h_net := n\<rparr>"
  have c: "on_net (run_pipeline fold_hasher sample_kernel (ascii ''/in'') True True) ?b = (Inr ?st, ?c)"
    using n by (simp add: on_net_def zoom_def)
  let ?m = "n\<lparr>n_in := staged_new t, n_pool := replicate 5 (False, [0, 0, 0]), n_room := None\<rparr>"
  have rm: "ready ?m" using staged_new_healthy [OF t(2)] by (simp add: ready_def)
  have sm: "staged_rem (n_in ?m) =
      concat (map (frame fold_hasher True) sample_items) @ write_terminator @ []"
    using t(3) by (simp add: sample_bytes_def)
  have pm: "sum_list (map bufs_of sample_items) \<le> length (n_pool ?m)"
    by (simp add: sample_items_def bufs_of_def)
  from run_pipeline_live [OF sample_willing fold_hasher_ok rm sample_dest sample_sendable sm pm, of True]
  obtain q where q: "run_pipeline fold_hasher sample_kernel (ascii ''/in'') True True ?m = (Inr ?st, q)"
    by blast
  let ?d = "?c\<lparr>h_net := n\<lparr>n_sh := n_sh q, n_prog := n_prog q\<rparr>, h_flows := []\<rparr>"
  have "run_band fold_hasher sample_kernel (ascii ''/in'') True True (1, t) ?c = (Inr ?st, ?d)"
    using q a(6) by (simp add: run_band_def del: replicate.simps)
  then have d: "run_flows fold_hasher sample_kernel (ascii ''/in'') True True [(1, t)] ?b =
      (total_stats ?st [Inr ?st], ?d)"
    using c by (simp add: run_flows_def)
  from flush_directories_live [OF sample_willing, of "n_sh q"] obtain sh where
    "flush_directories sample_kernel (n_sh q) = (Inr (), sh)" by blast
  let ?f = "?d\<lparr>h_net := (h_net ?d)\<lparr>n_sh := sh\<rparr>\<rparr>"
  have f: "on_net (net_sh (flush_directories sample_kernel)) ?d = (Inr (), ?f)"
    using \<open>flush_directories sample_kernel (n_sh q) = (Inr (), sh)\<close> by (simp add: on_net_def net_sh_def zoom_def)
  have w: "write_events (s_stream (n_in n)) = []" "outgoing (s_stream (n_in n)) = []"
    using fn a(3) by (auto simp: sample_net_def sample_stream_def)
  obtain e where e: "on_net (stream_write [ACK]) ?f = (Inr (), e)" "host_out e = [ACK]"
    using w by (simp add: on_net_def stream_write_def net_in_def zoom_def sock_write_all_def)
  have "accept_multi fold_hasher sample_kernel (ascii ''/in'') sample_token True 2 True sample_multi =
      (total_stats ?st [Inr ?st], e)"
    using a(1) t(1) d f e(1) by (simp add: accept_multi_def)
  with e(2) show ?thesis by (intro that) auto
qed

theorem multi_ack_witness:
  "\<exists>s' res used bands seg segs st sts dirs flushes.
     accept_multi fold_hasher sample_kernel (ascii ''/in'') sample_token True 2 True sample_multi = (Inr res, s') \<and>
     host_out s' = [ACK] \<and> h_conns sample_multi = used @ h_conns s' \<and>
     list_all2 (admits sample_token 2 True) used bands \<and> length bands = 1 \<and>
     flow_delivers (ascii ''/in'') True fold_hasher True sample_bytes seg st \<and>
     list_all2 (\<lambda>(band, seg) st. flow_delivers (ascii ''/in'') True fold_hasher True (incoming (snd band)) seg st)
       (zip bands segs) sts \<and>
     trace (os_of (h_net s')) = seg @ concat segs @ concat flushes \<and> list_all2 (flush_ok True) dirs flushes \<and>
     all_covered (seg @ concat segs) dirs \<and> st_files res = st_files st + sum_list (map st_files sts)"
proof (rule sample_multi_acked)
  fix s' :: "nat host" and res
  assume e: "accept_multi fold_hasher sample_kernel (ascii ''/in'') sample_token True 2 True sample_multi = (Inr res, s')"
    and o: "host_out s' = [ACK]"
  have z: "host_out sample_multi = []" "staged_rem (n_in (h_net sample_multi)) = sample_bytes"
      "trace (os_of (h_net sample_multi)) = []"
    by (simp_all add: sample_multi_def sample_rem) (simp_all add: sample_net_def sample_stream_def sample_shared_def)
  with o have "host_out s' \<noteq> host_out sample_multi" by simp
  from multi_ack [OF e fold_hasher_ok this, THEN conjunct2] obtain used bands st sts seg segs dirs flushes where
    "h_conns sample_multi = used @ h_conns s'" "list_all2 (admits sample_token 2 True) used bands"
    "length bands = unat ((2 :: u32) - 1)"
    "flow_delivers (ascii ''/in'') True fold_hasher True (staged_rem (n_in (h_net sample_multi))) seg st"
    "length segs = length bands"
    "list_all2 (\<lambda>(band, seg) st. flow_delivers (ascii ''/in'') True fold_hasher True (incoming (snd band)) seg st)
       (zip bands segs) sts"
    "trace (os_of (h_net s')) = trace (os_of (h_net sample_multi)) @ seg @ concat segs @ concat flushes"
    "list_all2 (flush_ok True) dirs flushes"
    "if True then all_covered (seg @ concat segs) dirs \<and> followed (seg @ concat segs) else dirs = []"
    "\<forall>r. (Inr res :: stats result) = Inr r \<longrightarrow> st_files r = st_files st + sum_list (map st_files sts) \<and>
       st_bytes r = st_bytes st + sum_list (map st_bytes sts)"
    by (elim exE conjE)
  with e o z show ?thesis
    by - (rule exI [of _ s'], rule exI [of _ res], rule exI [of _ used], rule exI [of _ bands], rule exI [of _ seg],
        rule exI [of _ segs], rule exI [of _ st], rule exI [of _ sts], rule exI [of _ dirs], rule exI [of _ flushes], simp)
qed

end
