(* ===== verification/Hygiene.thy ===== *)
theory Hygiene
  imports Guarantees
begin

text \<open>
  What a receiver leaves behind: scratch files and their names, the directory registry, and
  the bounds of the loops over the stream.
\<close>

section \<open>Scratch files\<close>

text \<open>
  C7. The writer is the only party that settles a file, and settles each exactly once: for
  the files a list of messages puts in flight, however the loop ends (end of stream, a
  write, a flush or a rename that fails, a new file that overtakes an unfinished one), the
  number of times a name was marked finished plus the number of times the kernel was asked
  to remove it grows by exactly the number of files in flight under that name. So no
  finished file is removed, no unfinished one is left and none is removed twice.
\<close>

theorem cleanup_exactly_once:
  assumes "\<forall>f \<in> set (begun ms). fresh f" and "write_loop k durable None ms s = (r, s')"
  shows "settled s' = settled s + mset (map key (begun ms))"
  using write_loop_settled [of None ms k durable s r s'] assms by (simp add: pending_def)

definition sample_flight :: "nat \<Rightarrow> bytes \<Rightarrow> inflight" where
  "sample_flight f name =
     \<lparr>if_file = f, if_parent = 4, if_name = name, if_final = Some (ascii ''b''), if_mtime = 9,
      if_mode = 0x180, if_finished = False\<rparr>"

definition sample_msgs :: "msg list" where
  "sample_msgs =
     [Begin (sample_flight 7 [1]), Data [1, 2, 3] 2, EndFile, Begin (sample_flight 8 [2]), Data [4] 1]"

theorem cleanup_exactly_once_witness:
  "case write_loop sample_kernel False None sample_msgs sample_shared of (r, s') \<Rightarrow>
     map key (sh_done s') = [(4, [1])] \<and> unlinks (trace (sh_os s')) = [(4, [2])] \<and>
     settled s' = settled sample_shared + mset (map key (begun sample_msgs))"
proof -
  obtain r s' where w: "write_loop sample_kernel False None sample_msgs sample_shared = (r, s')"
    by (cases "write_loop sample_kernel False None sample_msgs sample_shared")
  have "case write_loop sample_kernel False None sample_msgs sample_shared of (r, s') \<Rightarrow>
      map key (sh_done s') = [(4, [1])] \<and> unlinks (trace (sh_os s')) = [(4, [2])]"
    by code_simp
  moreover have "\<forall>f \<in> set (begun sample_msgs). fresh f"
    by (simp add: sample_msgs_def sample_flight_def fresh_def)
  ultimately show ?thesis using cleanup_exactly_once [OF _ w] w by simp
qed




section \<open>The registry\<close>

lemma registry_fold:
  "distinct (seen R) \<Longrightarrow> list_all2 (\<lambda>i d. map_of ys i = Some d) (rev (seen R)) (reg_dirs R) \<Longrightarrow>
   set (seen R) = fst ` set ys \<Longrightarrow> R' = fold (\<lambda>(i, d). reg_insert i d) xs R \<Longrightarrow>
   distinct (seen R') \<and> set (seen R') = fst ` set (ys @ xs) \<and>
   list_all2 (\<lambda>i d. map_of (ys @ xs) i = Some d) (rev (seen R')) (reg_dirs R')"
proof (induction xs arbitrary: R ys)
  case (Cons x xs)
  obtain i d where x: "x = (i, d)" by (cases x)
  have mono: "list_all2 (\<lambda>i d. map_of (ys @ [x]) i = Some d) (rev (seen R)) (reg_dirs R)"
    using Cons.prems(2) by (rule list_all2_mono) (simp add: map_add_Some_iff)
  have "distinct (seen (reg_insert i d R)) \<and>
      list_all2 (\<lambda>i d. map_of (ys @ [x]) i = Some d) (rev (seen (reg_insert i d R))) (reg_dirs (reg_insert i d R)) \<and>
      set (seen (reg_insert i d R)) = fst ` set (ys @ [x])"
  proof (cases "i \<in> set (seen R)")
    case True
    with Cons.prems mono x show ?thesis by (auto simp: reg_insert_def)
  next
    case False
    with Cons.prems(3) have "map_of ys i = None" by (simp add: map_of_eq_None_iff)
    with False Cons.prems mono x show ?thesis
      by (auto simp: reg_insert_def map_add_Some_iff intro!: list_all2_appendI)
  qed
  with Cons.IH [of "reg_insert i d R" "ys @ [x]"] Cons.prems(4) x show ?case by simp
qed simp

text \<open>
  C21. The registry keeps each directory once: whatever registrations were made, in whatever
  order by whichever threads, its identities are exactly the registered ones without
  repetition, and it holds one descriptor for each, the first that was registered under
  it. The final flush is therefore one barrier per directory, however many files it got.
\<close>

theorem registry_once:
  "let R = fold (\<lambda>(i, d). reg_insert i d) regs registry_new
   in distinct (seen R) \<and> set (seen R) = fst ` set regs \<and>
      list_all2 (\<lambda>i d. map_of regs i = Some d) (rev (seen R)) (reg_dirs R)"
  using registry_fold [of registry_new "[]" _ regs] by (simp add: registry_new_def Let_def)

section \<open>The loops over the stream end\<close>

lemma manifest_loop_fuel:
  "length (staged_rem (n_in s)) < fuel \<Longrightarrow> length (staged_rem (n_in s)) < fuel' \<Longrightarrow>
   manifest_loop fuel k root cache acc s = manifest_loop fuel' k root cache acc s"
proof (induction fuel arbitrary: fuel' cache acc s)
  case (Suc fuel)
  then obtain n where n: "fuel' = Suc n" by (cases fuel') auto
  obtain x t where x: "net_in (entry_decode staged_read_exact) s = (x, t)"
    by (cases "net_in (entry_decode staged_read_exact) s")
  show ?case
  proof (cases "\<exists>e. x = Inr (Some e)")
    case False
    with x n show ?thesis by (cases x) (auto split: option.splits)
  next
    case True
    then obtain e where e: "x = Inr (Some e)" by blast
    with x decode_shrinks have lt: "length (staged_rem (n_in t)) < length (staged_rem (n_in s))" by blast
    obtain y u where y: "net_os (file_held k root cache e) t = (y, u)"
      by (cases "net_os (file_held k root cache e) t")
    from net_os_frame [OF y] have "n_in u = n_in t" by simp
    with lt Suc.prems n have "length (staged_rem (n_in t)) < fuel" "length (staged_rem (n_in t)) < n"
        "length (staged_rem (n_in u)) < fuel" "length (staged_rem (n_in u)) < n" by auto
    with Suc.IH [of t n] Suc.IH [of u n] x e y n show ?thesis
      by (cases y; cases acc) (auto simp: split_beta)
  qed
qed simp

text \<open>
  C22. The loops over the stream always return: every entry that is accepted takes at least
  one byte, so the fuel the model starts them with, one more than the bytes left to
  arrive, is never what stops them, and any larger amount gives the same result.
\<close>

theorem stream_loops_end:
  assumes "length (staged_rem (n_in s)) < fuel"
  shows "entries_loop fuel B k root verify cache st s =
      entries_loop (Suc (length (staged_rem (n_in s)))) B k root verify cache st s \<and>
    manifest_loop fuel k root cache' acc s =
      manifest_loop (Suc (length (staged_rem (n_in s)))) k root cache' acc s"
  by (rule conjI; rule entries_loop_fuel manifest_loop_fuel) (use assms in simp_all)

theorem stream_loops_end_witness:
  "let s = sample_net [1, 0] in
   entries_loop 9 fold_hasher sample_kernel 3 True parent_cache_default stats_default s =
     entries_loop (Suc (length (staged_rem (n_in s)))) fold_hasher sample_kernel 3 True parent_cache_default
       stats_default s"
  unfolding Let_def
  by (rule stream_loops_end [THEN conjunct1])
    (simp add: sample_net_def sample_stream_def staged_rem_def del: replicate.simps)

end
