(* ===== verification/Modes.thy ===== *)
theory Modes
  imports Hygiene
begin

text \<open>
  The permission bits of a received file: the mode it is created with, and the change of mode
  the writer makes at the end.
\<close>

section \<open>The change of mode\<close>











end
