(* ===== verification/Walk.thy ===== *)
theory Walk
  imports Sanitize "HOL-Library.List_Lexorder" "HOL-Library.Multiset"
begin

text \<open>
  The sender's walk (\<open>walk\<close>, \<open>visit\<close> and \<open>make_item\<close> of \<open>src/send.rs\<close>): from the paths on
  the command line to the list of entries to offer. What the walk finds at a path is a
  \<open>node\<close>: nothing that can be looked at, or an inode with its metadata, what \<open>read_link\<close>
  says of it and what \<open>read_dir\<close> finds in it. A symbolic link is a node of its own and
  what it points at is not part of the tree.
\<close>

section \<open>What the file system shows\<close>

datatype (plugins only: code size) file_type = RegularType | DirType | SymlinkType | SpecialType

text \<open>A time stamp as \<open>duration_since(UNIX_EPOCH)\<close> tells it, in whole seconds.\<close>

datatype (plugins only: code size) timestamp = Since u64 | Before u64 | NoTime

record meta =
  m_type :: file_type
  m_mode :: u32
  m_len :: u64
  m_modified :: timestamp

text \<open>
  The directory listing comes in any order; the error is the one \<open>read_dir\<close> or one of its
  entries reports, if any.
\<close>

datatype (plugins only: code size) node =
    Missing io_error
  | Inode meta "bytes result" "io_error option" "(bytes \<times> node) list"

section \<open>Items\<close>

record source_item =
  i_abs :: bytes
  i_entry :: entry
  i_header :: bytes

definition make_item :: "bytes \<Rightarrow> bytes \<Rightarrow> kind \<Rightarrow> u64 \<Rightarrow> u32 \<Rightarrow> u64 \<Rightarrow> source_item" where
  "make_item here rel kd sz mode mtime =
     (let e = \<lparr>e_kind = kd, e_path = rel, e_size = sz, e_mode = mode, e_mtime = mtime\<rparr>
      in \<lparr>i_abs = here, i_entry = e, i_header = entry_encode e\<rparr>)"

text \<open>An \<open>i64\<close> is the word of its two's complement.\<close>

definition mtime_of :: "meta \<Rightarrow> u64" where
  "mtime_of m =
     (case m_modified m of
        Since secs \<Rightarrow> secs
      | Before secs \<Rightarrow> - secs
      | NoTime \<Rightarrow> 0)"

section \<open>The walk\<close>

text \<open>The items found so far, and the names of what was skipped with a warning.\<close>

record walk =
  w_items :: "source_item list"
  w_warned :: "bytes list"

definition push_item :: "source_item \<Rightarrow> (walk, unit) op" where
  "push_item i s = (Inr (), s\<lparr>w_items := w_items s @ [i]\<rparr>)"

definition warn :: "bytes \<Rightarrow> (walk, unit) op" where
  "warn rel s = (Inr (), s\<lparr>w_warned := w_warned s @ [rel]\<rparr>)"

text \<open>\<open>Path::join\<close> with a relative name, and \<open>Path::file_name\<close>.\<close>

definition path_join :: "bytes \<Rightarrow> bytes \<Rightarrow> bytes" where
  "path_join p name = (if p = [] \<or> last p = SLASH then p @ name else p @ SLASH # name)"

definition file_name :: "bytes \<Rightarrow> bytes option" where
  "file_name p =
     (case filter (\<lambda>c. c \<noteq> [] \<and> c \<noteq> [DOT]) (split_on SLASH p) of
        [] \<Rightarrow> None
      | cs \<Rightarrow> if last cs = [DOT, DOT] then None else Some (last cs))"

primrec nodes :: "node \<Rightarrow> nat" where
  "nodes (Missing e) = 0"
| "nodes (Inode m link err kids) =
     Suc (sum_list (map (Suc \<circ> snd) (map (map_prod id nodes) kids)))"

lemma nodes_sorted:
  "sum_list (map (\<lambda>k. Suc (nodes (snd k))) (sort_key f ks)) = sum_list (map (\<lambda>k. Suc (nodes (snd k))) ks)"
proof -
  have "sum_list (map g (sort_key f ks)) = sum_mset (image_mset g (mset (sort_key f ks)))" for g :: "_ \<Rightarrow> nat"
    by (simp only: sum_mset_sum_list mset_map [symmetric])
  then show ?thesis by (simp only: mset_sort) (simp only: sum_mset_sum_list mset_map [symmetric])
qed

lemma nodes_kids:
  "nodes (Inode m link err kids) = Suc (sum_list (map (\<lambda>k. Suc (nodes (snd k))) kids))"
  by (simp add: comp_def)

function visit :: "bytes \<Rightarrow> bytes \<Rightarrow> node \<Rightarrow> (walk, unit) op"
  and visit_children :: "bytes \<Rightarrow> bytes \<Rightarrow> (bytes \<times> node) list \<Rightarrow> (walk, unit) op" where
  "visit here rel (Missing e) = io_throw e"
| "visit here rel (Inode meta link err kids) =
     (let mode = m_mode meta; mtime = mtime_of meta in
      if m_type meta = SymlinkType then
        case link of
          Inl e \<Rightarrow> io_throw e
        | Inr target \<Rightarrow>
            if \<not> utf8_valid target then io_throw (IoError InvalidData (TargetNotUtf8 here))
            else push_item (make_item here rel Symlink (word_of_nat (length target)) mode mtime)
      else if m_type meta = DirType then
        io_bind (push_item (make_item here rel Dir 0 mode mtime)) (\<lambda>_.
        case err of
          Some e \<Rightarrow> io_throw e
        | None \<Rightarrow> visit_children here rel (sort_key fst kids))
      else if m_type meta \<noteq> RegularType then warn rel
      else push_item (make_item here rel File (m_len meta) mode mtime))"
| "visit_children here rel [] = io_return ()"
| "visit_children here rel ((name, child) # rest) =
     (if \<not> utf8_valid name then io_throw (IoError InvalidData (NameNotUtf8 name))
      else
        io_bind (visit (path_join here name) (rel @ SLASH # name) child) (\<lambda>_.
        visit_children here rel rest))"
  by pat_completeness auto

termination
  by (relation "measure (\<lambda>x. case x of Inl (a, r, n) \<Rightarrow> nodes n
        | Inr (a, r, ks) \<Rightarrow> sum_list (map (\<lambda>k. Suc (nodes (snd k))) ks))")
    (simp_all add: nodes_sorted nodes_kids del: nodes.simps)

text \<open>\<open>look\<close> is what the file system shows at each path of the command line.\<close>

fun walk_loop :: "(bytes \<Rightarrow> node) \<Rightarrow> bytes list \<Rightarrow> (walk, unit) op" where
  "walk_loop look [] = io_return ()"
| "walk_loop look (path # paths) =
     (case Option.bind (file_name path) (\<lambda>n. if utf8_valid n then Some n else None) of
        None \<Rightarrow> io_throw (IoError InvalidInput (CannotName path))
      | Some name \<Rightarrow> io_bind (visit path name (look path)) (\<lambda>_. walk_loop look paths))"

definition walk :: "(bytes \<Rightarrow> node) \<Rightarrow> bytes list \<Rightarrow> source_item list result \<times> bytes list" where
  "walk look paths =
     (case walk_loop look paths \<lparr>w_items = [], w_warned = []\<rparr> of
        (Inl e, s) \<Rightarrow> (Inl e, w_warned s)
      | (Inr _, s) \<Rightarrow> (Inr (w_items s), w_warned s))"


section \<open>What the walk lists\<close>

text \<open>
  \<open>below n cs m\<close>: \<open>m\<close> is reached from \<open>n\<close> by the names \<open>cs\<close>, through directories only, so
  never through a symbolic link.
\<close>

inductive below :: "node \<Rightarrow> bytes list \<Rightarrow> node \<Rightarrow> bool" where
  below_here: "below n [] n"
| below_down: "m_type meta = DirType \<Longrightarrow> (c, k) \<in> set kids \<Longrightarrow> below k cs m \<Longrightarrow>
    below (Inode meta link err kids) (c # cs) m"

inductive_simps below_Missing: "below (Missing e) cs m"
inductive_simps below_Inode: "below (Inode meta link err kids) cs m"
inductive_simps below_Nil: "below n [] m"

definition rel_at :: "bytes \<Rightarrow> bytes list \<Rightarrow> bytes" where
  "rel_at rel cs = foldl (\<lambda>p c. p @ SLASH # c) rel cs"

definition abs_at :: "bytes \<Rightarrow> bytes list \<Rightarrow> bytes" where
  "abs_at here cs = foldl path_join here cs"

fun item_of :: "bytes \<Rightarrow> bytes \<Rightarrow> node \<Rightarrow> source_item option" where
  "item_of here rel (Missing e) = None"
| "item_of here rel (Inode meta link err kids) =
     (case m_type meta of
        SymlinkType \<Rightarrow>
          (case link of
             Inl e \<Rightarrow> None
           | Inr t \<Rightarrow> Some (make_item here rel Symlink (word_of_nat (length t)) (m_mode meta) (mtime_of meta)))
      | DirType \<Rightarrow> Some (make_item here rel Dir 0 (m_mode meta) (mtime_of meta))
      | RegularType \<Rightarrow> Some (make_item here rel File (m_len meta) (m_mode meta) (mtime_of meta))
      | SpecialType \<Rightarrow> None)"

text \<open>Directory entries as the kernel has them: real names, each once.\<close>

definition tidy_kids :: "(bytes \<times> node) list \<Rightarrow> bool" where
  "tidy_kids kids \<longleftrightarrow> distinct (map fst kids) \<and> (\<forall>c \<in> set (map fst kids). good_component c)"

definition tidy :: "node \<Rightarrow> bool" where
  "tidy n \<longleftrightarrow> (\<forall>cs meta link err kids. below n cs (Inode meta link err kids) \<longrightarrow> tidy_kids kids)"

text \<open>
  \<open>ps\<close> lists the tree: exactly the sendable nodes of it, each once, in the order of their
  names, which puts a directory before what is in it.
\<close>

definition lists_tree :: "bytes \<Rightarrow> bytes \<Rightarrow> node \<Rightarrow> (bytes list \<times> source_item) list \<Rightarrow> bool" where
  "lists_tree here rel n ps \<longleftrightarrow>
     sorted_wrt (<) (map fst ps) \<and>
     (\<forall>cs i. (cs, i) \<in> set ps \<longleftrightarrow>
        (\<exists>m. below n cs m \<and> item_of (abs_at here cs) (rel_at rel cs) m = Some i))"

definition lists_children :: "bytes \<Rightarrow> bytes \<Rightarrow> (bytes \<times> node) list \<Rightarrow> (bytes list \<times> source_item) list \<Rightarrow> bool" where
  "lists_children here rel ks ps \<longleftrightarrow>
     sorted_wrt (<) (map fst ps) \<and>
     (\<forall>cs i. (cs, i) \<in> set ps \<longleftrightarrow>
        (\<exists>c k ds m. cs = c # ds \<and> (c, k) \<in> set ks \<and> below k ds m \<and>
           item_of (abs_at here cs) (rel_at rel cs) m = Some i))"

lemma at_simps [simp]:
  "rel_at rel [] = rel" "rel_at rel (c # cs) = rel_at (rel @ SLASH # c) cs"
  "abs_at here [] = here" "abs_at here (c # cs) = abs_at (path_join here c) cs"
  by (simp_all add: rel_at_def abs_at_def)

lemma tidy_kid:
  assumes "tidy (Inode meta link err kids)" "m_type meta = DirType" "(c, k) \<in> set kids"
  shows "tidy k"
  using assms unfolding tidy_def by (meson below_down)

lemma lists_children_Cons:
  assumes p: "lists_tree (path_join here c) (rel @ SLASH # c) k ps"
    and q: "lists_children here rel ks qs" and s: "\<forall>d \<in> set (map fst ks). c < d"
  shows "lists_children here rel ((c, k) # ks) (map (\<lambda>(ds, i). (c # ds, i)) ps @ qs)"
proof -
  have m: "map fst (map (\<lambda>(ds, i). (c # ds, i)) ps) = map ((#) c) (map fst ps)" by auto
  have "sorted_wrt (<) (map ((#) c) (map fst ps))"
    using p by (simp add: lists_tree_def sorted_wrt_map)
  moreover have "sorted_wrt (<) (map fst qs)" using q by (simp add: lists_children_def)
  moreover have "x < y" if "x \<in> set (map ((#) c) (map fst ps))" "y \<in> set (map fst qs)" for x y
  proof -
    from that(2) q obtain d ds k' where "y = d # ds" "(d, k') \<in> set ks"
      unfolding lists_children_def by fastforce
    with s that(1) show ?thesis by force
  qed
  ultimately have "sorted_wrt (<) (map fst (map (\<lambda>(ds, i). (c # ds, i)) ps @ qs))"
    unfolding map_append m sorted_wrt_append by blast
  moreover have "(cs, i) \<in> set (map (\<lambda>(ds, i). (c # ds, i)) ps @ qs) \<longleftrightarrow>
      (\<exists>d k' ds m. cs = d # ds \<and> (d, k') \<in> set ((c, k) # ks) \<and> below k' ds m \<and>
         item_of (abs_at here cs) (rel_at rel cs) m = Some i)" for cs i
  proof -
    have "(cs, i) \<in> set (map (\<lambda>(ds, i). (c # ds, i)) ps) \<longleftrightarrow> (\<exists>ds. cs = c # ds \<and> (ds, i) \<in> set ps)" by auto
    moreover have "(ds, i) \<in> set ps \<longleftrightarrow>
        (\<exists>m. below k ds m \<and> item_of (abs_at here (c # ds)) (rel_at rel (c # ds)) m = Some i)" for ds
      using p by (simp add: lists_tree_def)
    moreover have "(cs, i) \<in> set qs \<longleftrightarrow>
        (\<exists>d k' ds m. cs = d # ds \<and> (d, k') \<in> set ks \<and> below k' ds m \<and>
           item_of (abs_at here cs) (rel_at rel cs) m = Some i)"
      using q by (simp add: lists_children_def)
    ultimately show ?thesis unfolding set_append Un_iff by auto blast
  qed
  ultimately show ?thesis unfolding lists_children_def by blast
qed


lemma strictly_sorted_names:
  assumes "tidy_kids kids"
  shows "sorted_wrt (<) (map fst (sort_key fst kids))"
proof -
  have "distinct (map fst (sort_key fst kids))"
    using assms unfolding tidy_kids_def by (metis distinct_map distinct_sort set_sort)
  moreover have "sorted (map fst (sort_key fst kids))" by (rule sorted_sort_key)
  ultimately show ?thesis by (simp add: strict_sorted_iff)
qed

lemma visit_lists:
  "visit here rel n s = (Inr (), s') \<Longrightarrow> tidy n \<Longrightarrow>
   \<exists>ps. w_items s' = w_items s @ map snd ps \<and> lists_tree here rel n ps"
  and visit_children_lists:
  "visit_children here rel ks s = (Inr (), s') \<Longrightarrow> \<forall>(c, k) \<in> set ks. tidy k \<Longrightarrow>
   sorted_wrt (<) (map fst ks) \<Longrightarrow>
   \<exists>ps. w_items s' = w_items s @ map snd ps \<and> lists_children here rel ks ps"
proof (induction here rel n and here rel ks arbitrary: s s' and s s' rule: visit_visit_children.induct)
  case (1 here rel e)
  then show ?case by simp
next
  case (2 here rel meta link err kids)
  let ?n = "Inode meta link err kids"
  have leaf: "lists_tree here rel ?n (case item_of here rel ?n of None \<Rightarrow> [] | Some i \<Rightarrow> [([], i)])"
    if "m_type meta \<noteq> DirType"
    using that by (auto simp: lists_tree_def below_Inode simp del: item_of.simps split: option.splits)
  show ?case
  proof (cases "m_type meta")
    case DirType
    let ?i = "make_item here rel Dir 0 (m_mode meta) (mtime_of meta)"
    let ?t = "s\<lparr>w_items := w_items s @ [?i]\<rparr>"
    have e: "err = None" "visit_children here rel (sort_key fst kids) ?t = (Inr (), s')"
      using "2.prems"(1) DirType by (auto simp: Let_def push_item_def io_bind_def split: option.splits)
    have k: "\<forall>(c, k) \<in> set (sort_key fst kids). tidy k"
      using tidy_kid [OF "2.prems"(2) DirType] by auto
    have "tidy_kids kids" using "2.prems"(2) below_here unfolding tidy_def by blast
    note IH = "2.IH"(1) [OF refl refl _ _ _ e(2) k strictly_sorted_names [OF this]]
    from IH DirType e(1) obtain ps where
      ps: "w_items s' = w_items ?t @ map snd ps" "lists_children here rel (sort_key fst kids) ps" by auto
    have "lists_tree here rel ?n (([], ?i) # ps)"
    proof -
      have "[] < x" if "x \<in> set (map fst ps)" for x
        using that ps(2) unfolding lists_children_def by fastforce
      then have "sorted_wrt (<) (map fst (([], ?i) # ps))" using ps(2) by (auto simp: lists_children_def)
      moreover have "(cs, i) \<in> set (([], ?i) # ps) \<longleftrightarrow>
          (\<exists>m. below ?n cs m \<and> item_of (abs_at here cs) (rel_at rel cs) m = Some i)" for cs i
        using ps(2) DirType unfolding lists_children_def by (cases cs) (auto simp: below_Inode)
      ultimately show ?thesis unfolding lists_tree_def by blast
    qed
    with ps(1) show ?thesis by (intro exI [of _ "([], ?i) # ps"]) simp
  next
    case RegularType
    with "2.prems"(1) leaf show ?thesis
      by (intro exI [of _ "case item_of here rel ?n of None \<Rightarrow> [] | Some i \<Rightarrow> [([], i)]"])
        (auto simp: Let_def push_item_def)
  next
    case SymlinkType
    with "2.prems"(1) leaf show ?thesis
      by (intro exI [of _ "case item_of here rel ?n of None \<Rightarrow> [] | Some i \<Rightarrow> [([], i)]"])
        (auto simp: Let_def push_item_def split: sum.splits if_splits)
  next
    case SpecialType
    with "2.prems"(1) leaf show ?thesis
      by (intro exI [of _ "case item_of here rel ?n of None \<Rightarrow> [] | Some i \<Rightarrow> [([], i)]"])
        (auto simp: Let_def warn_def)
  qed
next
  case (3 here rel)
  then show ?case by (intro exI [of _ "[]"]) (simp add: lists_children_def)
next
  case (4 here rel name child rest)
  from "4.prems"(1) have v: "utf8_valid name" by (auto split: if_splits)
  with "4.prems"(1) obtain t where
    t: "visit (path_join here name) (rel @ SLASH # name) child s = (Inr (), t)"
      "visit_children here rel rest t = (Inr (), s')"
    by (auto simp: io_bind_Inr)
  from "4.IH"(1) [OF _ t(1)] v "4.prems"(2) obtain ps where
    ps: "w_items t = w_items s @ map snd ps" "lists_tree (path_join here name) (rel @ SLASH # name) child ps"
    by auto
  from "4.IH"(2) [OF _ t(2)] v "4.prems"(2,3) obtain qs where
    qs: "w_items s' = w_items t @ map snd qs" "lists_children here rel rest qs" by auto
  have "\<forall>d \<in> set (map fst rest). name < d" using "4.prems"(3) by simp
  from lists_children_Cons [OF ps(2) qs(2) this] ps(1) qs(1) show ?case
    by (intro exI [of _ "map (\<lambda>(ds, i). (name # ds, i)) ps @ qs"]) (auto simp: comp_def case_prod_beta)
qed


section \<open>What the receiver will say to it\<close>

lemma utf8_valid_append: "utf8_valid s \<Longrightarrow> utf8_valid t \<Longrightarrow> utf8_valid (s @ t)"
proof (induction s rule: measure_induct_rule [of length])
  case (less s)
  show ?case
  proof (cases s)
    case (Cons a r)
    note v = less.prems(1) [unfolded Cons]
    have IH: "utf8_valid (q @ t)" if "utf8_valid q" "length q < length s" for q
      using less.IH [OF that(2,1)] less.prems(2) .
    consider "a \<le> 0x7F" | "\<not> a \<le> 0x7F" "0xC2 \<le> a \<and> a \<le> 0xDF"
      | "\<not> a \<le> 0x7F" "\<not> (0xC2 \<le> a \<and> a \<le> 0xDF)" "0xE0 \<le> a \<and> a \<le> 0xEF"
      | "\<not> a \<le> 0x7F" "\<not> (0xC2 \<le> a \<and> a \<le> 0xDF)" "\<not> (0xE0 \<le> a \<and> a \<le> 0xEF)" "0xF0 \<le> a \<and> a \<le> 0xF4"
      using v by (simp only: utf8_valid.simps split: if_splits) blast+
    then show ?thesis
    proof cases
      case 1
      with v IH [of r] Cons show ?thesis by simp
    next
      case 2
      with v obtain b q where "r = b # q" "utf8_cont b" "utf8_valid q"
        by (simp only: utf8_valid.simps if_False if_True) (auto split: list.splits)
      with 2 IH [of q] Cons show ?thesis by simp
    next
      case 3
      with v obtain b c q where q: "r = b # c # q" "utf8_valid q" by (simp only: utf8_valid.simps if_False if_True) (auto split: list.splits)
      with 3 v IH [of q] Cons show ?thesis
        by (simp only: utf8_valid.simps(2) [of a] if_False if_True simp_thms list.case append_Cons list.size) simp
    next
      case 4
      with v obtain b c d q where q: "r = b # c # d # q" "utf8_valid q" by (simp only: utf8_valid.simps if_False if_True) (auto split: list.splits)
      with 4 v IH [of q] Cons show ?thesis
        by (simp only: utf8_valid.simps(2) [of a] if_False if_True simp_thms list.case append_Cons list.size) simp
    qed
  qed (use less.prems in simp)
qed

text \<open>An item as \<open>make_item\<close> builds it from a good name.\<close>

definition sound_item :: "source_item \<Rightarrow> bool" where
  "sound_item i \<longleftrightarrow>
     i_header i = entry_encode (i_entry i) \<and> utf8_valid (e_path (i_entry i)) \<and> e_kind (i_entry i) \<noteq> End"

lemma sound_make_item [simp]: "sound_item (make_item here rel kd sz mode mtime) \<longleftrightarrow> utf8_valid rel \<and> kd \<noteq> End"
  by (simp add: sound_item_def make_item_def Let_def)

text \<open>Whatever the walk finds and however it ends, the items it has are sound.\<close>

abbreviation sound_walk :: "walk \<Rightarrow> bool" where
  "sound_walk s \<equiv> \<forall>i \<in> set (w_items s). sound_item i"

lemma utf8_join: "utf8_valid rel \<Longrightarrow> utf8_valid name \<Longrightarrow> utf8_valid (rel @ SLASH # name)"
  using utf8_valid_append [of rel "SLASH # name"] by (simp add: SLASH_def)

lemma visit_sound:
  "visit here rel n s = (r, s') \<Longrightarrow> utf8_valid rel \<Longrightarrow> sound_walk s \<Longrightarrow> sound_walk s'"
  and visit_children_sound:
  "visit_children here rel ks s = (r, s') \<Longrightarrow> utf8_valid rel \<Longrightarrow> sound_walk s \<Longrightarrow> sound_walk s'"
proof (induction here rel n and here rel ks arbitrary: s r s' and s r s' rule: visit_visit_children.induct)
  case (1 here rel e)
  then show ?case by simp
next
  case (2 here rel meta link err kids)
  show ?case
  proof (cases "m_type meta")
    case DirType
    let ?t = "s\<lparr>w_items := w_items s @ [make_item here rel Dir 0 (m_mode meta) (mtime_of meta)]\<rparr>"
    have t: "sound_walk ?t" using "2.prems"(2,3) by auto
    show ?thesis
    proof (cases err)
      case None
      with "2.prems"(1) DirType have "visit_children here rel (sort_key fst kids) ?t = (r, s')"
        by (simp add: Let_def push_item_def io_bind_def)
      from "2.IH"(1) [OF refl refl _ _ None this "2.prems"(2) t] DirType show ?thesis by simp
    next
      case (Some e)
      with "2.prems"(1) DirType have "s' = ?t" by (simp add: Let_def push_item_def io_bind_def)
      with t show ?thesis by simp
    qed
  qed (use "2.prems" in \<open>auto simp: Let_def push_item_def warn_def split: sum.splits if_splits\<close>)
next
  case (3 here rel)
  then show ?case by simp
next
  case (4 here rel name child rest)
  show ?case
  proof (cases "utf8_valid name")
    case True
    obtain x t where x: "visit (path_join here name) (rel @ SLASH # name) child s = (x, t)"
      by (cases "visit (path_join here name) (rel @ SLASH # name) child s")
    have st: "sound_walk t"
      by (rule "4.IH"(1) [OF _ x]) (use True "4.prems" utf8_join in auto)
    show ?thesis
    proof (cases x)
      case (Inl e)
      with "4.prems"(1) x True st show ?thesis by simp
    next
      case (Inr u)
      with "4.prems"(1) x True have "visit_children here rel rest t = (r, s')" by simp
      from "4.IH"(2) [OF _ this "4.prems"(2) st] True show ?thesis by simp
    qed
  qed (use "4.prems" in simp)
qed

lemma walk_loop_sound:
  "walk_loop look paths s = (r, s') \<Longrightarrow> sound_walk s \<Longrightarrow> sound_walk s'"
proof (induction paths arbitrary: s)
  case (Cons p ps)
  show ?case
  proof (cases "Option.bind (file_name p) (\<lambda>n. if utf8_valid n then Some n else None)")
    case (Some name)
    then have n: "utf8_valid name" by (auto split: Option.bind_splits if_splits)
    obtain x t where x: "visit p name (look p) s = (x, t)" by (cases "visit p name (look p) s")
    with visit_sound [OF x n Cons.prems(2)] Cons Some show ?thesis by (cases x) auto
  qed (use Cons.prems in auto)
qed simp

lemma walk_loop_lists:
  "walk_loop look paths s = (Inr (), s') \<Longrightarrow> \<forall>p \<in> set paths. tidy (look p) \<Longrightarrow>
   \<exists>lists. w_items s' = w_items s @ concat (map (map snd) lists) \<and>
     list_all2 (\<lambda>p ps. \<exists>n. file_name p = Some n \<and> utf8_valid n \<and> lists_tree p n (look p) ps) paths lists"
proof (induction paths arbitrary: s)
  case Nil
  then show ?case by (intro exI [of _ "[]"]) simp
next
  case (Cons p ps)
  from Cons.prems(1) obtain n t where
    n: "file_name p = Some n" "utf8_valid n" "visit p n (look p) s = (Inr (), t)"
      "walk_loop look ps t = (Inr (), s')"
    by (auto simp: io_bind_Inr split: option.splits Option.bind_splits if_splits)
  from visit_lists [OF n(3)] Cons.prems(2) obtain l where
    l: "w_items t = w_items s @ map snd l" "lists_tree p n (look p) l" by auto
  from Cons.IH [OF n(4)] Cons.prems(2) obtain ls where
    "w_items s' = w_items t @ concat (map (map snd) ls)"
    "list_all2 (\<lambda>p ps. \<exists>n. file_name p = Some n \<and> utf8_valid n \<and> lists_tree p n (look p) ps) ps ls" by auto
  with l n show ?case by (intro exI [of _ "l # ls"]) auto
qed


lemma below_good: "below n cs m \<Longrightarrow> tidy n \<Longrightarrow> \<forall>c \<in> set cs. good_component c"
proof (induction rule: below.induct)
  case (below_down meta c k kids cs m link err)
  have "tidy_kids kids" using below_down.prems below_here unfolding tidy_def by blast
  with below_down.hyps(2) have "good_component c" unfolding tidy_kids_def by force
  moreover have "\<forall>c \<in> set cs. good_component c"
    using below_down.IH tidy_kid [OF below_down.prems below_down.hyps(1,2)] .
  ultimately show ?case by simp
qed simp

lemma file_name_good:
  assumes "file_name p = Some n" and "0 \<notin> set p"
  shows "good_component n"
proof -
  let ?cs = "filter (\<lambda>c. c \<noteq> [] \<and> c \<noteq> [DOT]) (split_on SLASH p)"
  from assms(1) have n: "?cs \<noteq> []" "n = last ?cs" "n \<noteq> [DOT, DOT]"
    by (auto simp: file_name_def split: list.splits if_splits)
  then have "n \<in> set ?cs" using last_in_set [OF n(1)] by simp
  then have m: "n \<in> set (split_on SLASH p)" "n \<noteq> []" "n \<noteq> [DOT]" by auto
  from split_on_no_sep [OF m(1)] split_on_subset [OF m(1)] m n(3) assms(2) show ?thesis
    by (auto simp: good_component_def)
qed

lemma rel_at_join: "rel_at n cs = join_with SLASH (n # cs)"
proof (induction cs arbitrary: n)
  case (Cons c cs)
  have "join_with SLASH ((n @ SLASH # c) # cs) = n @ SLASH # join_with SLASH (c # cs)"
    by (cases cs) simp_all
  with Cons show ?case by simp
qed simp

lemma item_of_path: "item_of here rel m = Some i \<Longrightarrow> e_path (i_entry i) = rel"
  by (cases m) (auto simp: make_item_def Let_def split: file_type.splits sum.splits)

definition sample_meta :: "file_type \<Rightarrow> meta" where
  "sample_meta ty = \<lparr>m_type = ty, m_mode = 0x1A4, m_len = 3, m_modified = Before 2\<rparr>"

text \<open>A directory holding a pipe, a file, a link to a directory, and a directory with a file.\<close>

definition sample_tree :: node where
  "sample_tree =
     Inode (sample_meta DirType) (Inl (OsError EINVAL)) None
       [([0x70], Inode (sample_meta SpecialType) (Inl (OsError EINVAL)) None []),
        ([0x66], Inode (sample_meta RegularType) (Inl (OsError EINVAL)) None []),
        ([0x64], Inode (sample_meta DirType) (Inl (OsError EINVAL)) None
           [([0x67], Inode (sample_meta RegularType) (Inl (OsError EINVAL)) None [])]),
        ([0x61], Inode (sample_meta SymlinkType) (Inr [0x64]) None [])]"

definition sample_walked :: "source_item list" where
  "sample_walked =
     [make_item [0x2F, 0x74] [0x74] Dir 0 0x1A4 (- 2),
      make_item [0x2F, 0x74, 0x2F, 0x61] [0x74, 0x2F, 0x61] Symlink 1 0x1A4 (- 2),
      make_item [0x2F, 0x74, 0x2F, 0x64] [0x74, 0x2F, 0x64] Dir 0 0x1A4 (- 2),
      make_item [0x2F, 0x74, 0x2F, 0x64, 0x2F, 0x67] [0x74, 0x2F, 0x64, 0x2F, 0x67] File 3 0x1A4 (- 2),
      make_item [0x2F, 0x74, 0x2F, 0x66] [0x74, 0x2F, 0x66] File 3 0x1A4 (- 2)]"

lemma sample_walk: "walk (\<lambda>_. sample_tree) [[0x2F, 0x74]] = (Inr sample_walked, [[0x74, 0x2F, 0x70]])"
  by (simp add: walk_def sample_tree_def sample_walked_def file_name_def SLASH_def DOT_def sample_meta_def
      Let_def push_item_def warn_def mtime_of_def path_join_def io_bind_def sort_key_def)


lemma sample_tidy: "tidy sample_tree"
  unfolding tidy_def sample_tree_def
  by (auto simp: below_Inode sample_meta_def tidy_kids_def good_component_def SLASH_def DOT_def)

text \<open>
  C38. The walk lists each tree it was given completely and faithfully: a list of items per
  path, in which every regular file, directory and symbolic link that is reached through
  directories occurs exactly once, with the metadata the walk saw, in the order of the
  component names (so a directory comes before what is in it); nothing is listed that was
  reached through a symbolic link, and no special file is.
\<close>

theorem walk_lists_trees:
  assumes "walk look paths = (Inr items, warned)" and "\<forall>p \<in> set paths. tidy (look p)"
  shows "\<exists>lists. items = concat (map (map snd) lists) \<and>
    list_all2 (\<lambda>p ps. \<exists>n. file_name p = Some n \<and> utf8_valid n \<and> lists_tree p n (look p) ps) paths lists"
proof -
  from assms(1) obtain s where
    "walk_loop look paths \<lparr>w_items = [], w_warned = []\<rparr> = (Inr (), s)" "items = w_items s"
    by (auto simp: walk_def split: prod.splits sum.splits)
  with walk_loop_lists [OF _ assms(2), of "\<lparr>w_items = [], w_warned = []\<rparr>"] show ?thesis by auto
qed

theorem walk_lists_trees_witness:
  "\<exists>ps. walk (\<lambda>_. sample_tree) [[0x2F, 0x74]] = (Inr sample_walked, [[0x74, 0x2F, 0x70]]) \<and>
     sample_walked = map snd ps \<and> lists_tree [0x2F, 0x74] [0x74] sample_tree ps"
proof -
  have "\<forall>p \<in> set [[0x2F, 0x74]]. tidy ((\<lambda>_ :: bytes. sample_tree) p)" by (simp add: sample_tidy)
  from walk_lists_trees [OF sample_walk this] obtain ps where
    "sample_walked = map snd ps" "\<exists>n. file_name [0x2F, 0x74] = Some n \<and> lists_tree [0x2F, 0x74] n sample_tree ps"
    by (auto simp: list_all2_Cons1)
  moreover have "file_name [0x2F, 0x74] = Some [0x74]" by (simp add: file_name_def SLASH_def DOT_def)
  ultimately show ?thesis using sample_walk by auto
qed

lemma walked_accepted:
  assumes "walk look paths = (Inr items, warned)" and "\<forall>p \<in> set paths. tidy (look p) \<and> 0 \<notin> set p"
    and "i \<in> set items" and "length (e_path (i_entry i)) \<le> MAX_PATH_LEN"
    and "e_kind (i_entry i) = Symlink \<Longrightarrow> e_size (i_entry i) \<le> word_of_nat MAX_PATH_LEN"
  shows "i_header i = entry_encode (i_entry i) \<and> wf_entry (i_entry i) \<and>
    (\<exists>cs. sanitize (e_path (i_entry i)) = Inr cs \<and> e_path (i_entry i) = join_with SLASH cs)"
proof -
  let ?s = "\<lparr>w_items = [], w_warned = []\<rparr>"
  from assms(1) obtain s where
    s: "walk_loop look paths ?s = (Inr (), s)" "items = w_items s"
    by (auto simp: walk_def split: prod.splits sum.splits)
  with walk_loop_sound [OF s(1)] assms(3) have snd: "sound_item i" by simp
  from walk_loop_lists [OF s(1)] assms(2) obtain lists where
    l: "w_items s = concat (map (map snd) lists)"
      "list_all2 (\<lambda>p ps. \<exists>n. file_name p = Some n \<and> utf8_valid n \<and> lists_tree p n (look p) ps) paths lists"
    by auto
  from l(1) s(2) assms(3) obtain ps cs where ps: "ps \<in> set lists" "(cs, i) \<in> set ps" by auto
  from l(2) ps(1) obtain p n where
    p: "p \<in> set paths" "file_name p = Some n" "lists_tree p n (look p) ps"
    unfolding list_all2_conv_all_nth in_set_conv_nth by metis
  from p(3) ps(2) obtain m where m: "below (look p) cs m" "item_of (abs_at p cs) (rel_at n cs) m = Some i"
    unfolding lists_tree_def by blast
  have good: "\<forall>c \<in> set (n # cs). good_component c"
    using below_good [OF m(1)] file_name_good [OF p(2)] assms(2) p(1) by auto
  have path: "e_path (i_entry i) = join_with SLASH (n # cs)"
    using item_of_path [OF m(2)] rel_at_join by simp
  with sanitize_join [OF _ good] assms(4) have "sanitize (e_path (i_entry i)) = Inr (n # cs)" by simp
  with path snd assms(4,5) show ?thesis
    by (auto simp: sound_item_def wf_entry_def MAX_PATH_LEN_def simp del: join_with.simps)
qed

text \<open>
  C39. The receiver takes every path the walk produces: as long as it is within the limit on
  paths, the header is the canonical encoding of a well-formed entry, the sanitiser accepts
  the path, and the components it yields are the very names of the walk, none dropped.
\<close>

theorem walk_paths_accepted:
  assumes "walk look paths = (Inr items, warned)" and "\<forall>p \<in> set paths. tidy (look p) \<and> 0 \<notin> set p"
    and "i \<in> set items" and "length (e_path (i_entry i)) \<le> MAX_PATH_LEN"
    and "e_kind (i_entry i) = Symlink \<Longrightarrow> e_size (i_entry i) \<le> word_of_nat MAX_PATH_LEN"
  shows "i_header i = entry_encode (i_entry i) \<and> wf_entry (i_entry i) \<and>
    (\<exists>cs. sanitize (e_path (i_entry i)) = Inr cs \<and> e_path (i_entry i) = join_with SLASH cs)"
  using assms by (rule walked_accepted)

theorem walk_paths_accepted_witness:
  "walk (\<lambda>_. sample_tree) [[0x2F, 0x74]] = (Inr sample_walked, [[0x74, 0x2F, 0x70]]) \<and>
   (let i = make_item [0x2F, 0x74, 0x2F, 0x61] [0x74, 0x2F, 0x61] Symlink 1 0x1A4 (- 2)
    in i \<in> set sample_walked \<and> wf_entry (i_entry i) \<and> sanitize (e_path (i_entry i)) = Inr [[0x74], [0x61]])"
proof -
  let ?i = "make_item [0x2F, 0x74, 0x2F, 0x61] [0x74, 0x2F, 0x61] Symlink 1 0x1A4 (- 2)"
  have "\<forall>p \<in> set [[0x2F, 0x74]]. tidy ((\<lambda>_ :: bytes. sample_tree) p) \<and> 0 \<notin> set p" by (simp add: sample_tidy)
  moreover have i: "?i \<in> set sample_walked" by (simp add: sample_walked_def)
  moreover have "length (e_path (i_entry ?i)) \<le> MAX_PATH_LEN" "e_size (i_entry ?i) \<le> word_of_nat MAX_PATH_LEN"
    by (simp_all add: make_item_def Let_def MAX_PATH_LEN_def)
  ultimately have w: "wf_entry (i_entry ?i)" using walk_paths_accepted [OF sample_walk] by blast
  have "sanitize (e_path (i_entry ?i)) = Inr [[0x74], [0x61]]"
    by (simp add: make_item_def Let_def sanitize_def MAX_PATH_LEN_def SLASH_def DOT_def)
  with w i sample_walk show ?thesis unfolding Let_def by blast
qed

end
