(* ===== verification/Sender.thy ===== *)
theory Sender
  imports Walk Receiver
begin

text \<open>
  The sender (\<open>src/send.rs\<close>) from its list of items to the acknowledgement: the reader
  thread, the hash stage, the loop that writes the socket, one flow made of the three, the
  manifest phase, and the sessions of one and of several flows. A thread is a function of
  what it is given, in order. \<open>rd_pool\<close>, \<open>rd_room\<close> are what the other side of a channel does, as
  they are for the receiver; what the disk shows when the turn of a flow's \<open>n\<close>-th
  item comes is \<open>rd_disk n\<close>, so a file or a link may have changed since the walk in any way.
\<close>

section \<open>The disk\<close>

text \<open>
  An open file: the bytes its reads will yield until the first read of none (nothing is
  read after that), and how they are handed over.
\<close>

record disk_file =
  df_rest :: bytes
  df_events :: "sock_event list"

definition disk_read :: "nat \<Rightarrow> (disk_file, bytes) op" where
  "disk_read n f =
     (case df_events f of
        [] \<Rightarrow> (Inr (take n (df_rest f)), f\<lparr>df_rest := drop n (df_rest f)\<rparr>)
      | Avail k # evs \<Rightarrow>
          (let m = min n (max 1 k)
           in (Inr (take m (df_rest f)), f\<lparr>df_rest := drop m (df_rest f), df_events := evs\<rparr>))
      | Fail e # evs \<Rightarrow> (Inl (OsError e), f\<lparr>df_events := evs\<rparr>))"

text \<open>What \<open>read_link\<close> and \<open>File::open\<close> say when an item's turn comes.\<close>

record sight =
  si_link :: "bytes result"
  si_file :: "disk_file result"

text \<open>
  \<open>to_string_lossy\<close>: valid characters are kept, and each maximal piece that could have
  begun one, or else each byte, becomes U+FFFD. The step says whether a character starts
  here and how many bytes it or the bad piece has.
\<close>

definition second_ok :: "byte \<Rightarrow> byte \<Rightarrow> bool" where
  "second_ok a b =
     (if a = 0xE0 then 0xA0 \<le> b \<and> b \<le> 0xBF
      else if a = 0xED then 0x80 \<le> b \<and> b \<le> 0x9F
      else if a = 0xF0 then 0x90 \<le> b \<and> b \<le> 0xBF
      else if a = 0xF4 then 0x80 \<le> b \<and> b \<le> 0x8F
      else utf8_cont b)"

fun conts :: "nat \<Rightarrow> bytes \<Rightarrow> nat" where
  "conts 0 s = 0"
| "conts (Suc n) [] = 0"
| "conts (Suc n) (b # s) = (if utf8_cont b then Suc (conts n s) else 0)"

fun utf8_step :: "bytes \<Rightarrow> bool \<times> nat" where
  "utf8_step [] = (False, 0)"
| "utf8_step (a # r) =
     (let width = (if a \<le> 0x7F then 1
                   else if 0xC2 \<le> a \<and> a \<le> 0xDF then 2
                   else if 0xE0 \<le> a \<and> a \<le> 0xEF then 3
                   else if 0xF0 \<le> a \<and> a \<le> 0xF4 then 4 else 0);
          len = (if width \<le> 1 then 1
                 else case r of
                     [] \<Rightarrow> 1
                   | b # q \<Rightarrow> if second_ok a b then 2 + conts (width - 2) q else 1)
      in (len = width, len))"

function to_string_lossy :: "bytes \<Rightarrow> bytes" where
  "to_string_lossy [] = []"
| "to_string_lossy (a # r) =
     (case utf8_step (a # r) of
        (valid, n) \<Rightarrow>
          (if valid then take n (a # r) else [0xEF, 0xBF, 0xBD]) @ to_string_lossy (drop (n - 1) r))"
  by pat_completeness auto

termination by (relation "measure length") (auto simp: le_imp_less_Suc)

section \<open>The reader\<close>

datatype out_msg =
    Header bytes
  | Target bytes
  | Chunk bytes nat
  | Digest bytes
  | EndPayload

text \<open>
  \<open>rd_hung\<close> is a record for the proofs: a channel turned out to be closed, after so many
  messages. \<open>rd_uncached\<close> are the files read past the page cache; the advice may be refused
  without effect.
\<close>

record reader =
  rd_sent :: "out_msg result list"
  rd_pool :: "(bool \<times> bytes) list"
  rd_room :: "nat option"
  rd_disk :: "nat \<Rightarrow> sight"
  rd_prog :: progress
  rd_diag :: "diag option"
  rd_uncached :: "bytes list"
  rd_hung :: "nat option"

definition rd_count :: "(diag \<Rightarrow> diag) \<Rightarrow> (reader, unit) op" where
  "rd_count f s = (Inr (), s\<lparr>rd_diag := map_option f (rd_diag s)\<rparr>)"

definition rd_progress :: "(progress \<Rightarrow> progress) \<Rightarrow> (reader, unit) op" where
  "rd_progress f s = (Inr (), s\<lparr>rd_prog := f (rd_prog s)\<rparr>)"

definition rd_look :: "(reader, sight) op" where
  "rd_look s = (Inr (rd_disk s 0), s\<lparr>rd_disk := \<lambda>n. rd_disk s (Suc n)\<rparr>)"

definition hung_up :: "reader \<Rightarrow> reader" where
  "hung_up s = s\<lparr>rd_hung := (case rd_hung s of None \<Rightarrow> Some (length (rd_sent s)) | h \<Rightarrow> h)\<rparr>"

text \<open>\<open>tx.send(m).is_ok()\<close>.\<close>

definition tx_send :: "out_msg result \<Rightarrow> (reader, bool) op" where
  "tx_send m s =
     (case rd_room s of
        None \<Rightarrow> (Inr True, s\<lparr>rd_sent := rd_sent s @ [m]\<rparr>)
      | Some 0 \<Rightarrow> (Inr False, hung_up s)
      | Some (Suc n) \<Rightarrow> (Inr True, s\<lparr>rd_sent := rd_sent s @ [m], rd_room := Some n\<rparr>))"

text \<open>\<open>pooled_recv\<close>: a stall is counted when the buffer is not there at once.\<close>

definition pool_recv :: "(reader, bytes option) op" where
  "pool_recv s =
     (let stall = rd_count (\<lambda>d. d\<lparr>d_pool_stalls := d_pool_stalls d + 1\<rparr>)
      in case rd_pool s of
           [] \<Rightarrow> io_bind stall (\<lambda>_ t. (Inr None, hung_up t)) s
         | (stalled, buf) # pool \<Rightarrow>
             io_bind (if stalled then stall else io_return ()) (\<lambda>_. io_return (Some buf))
               (s\<lparr>rd_pool := pool\<rparr>))"

lemma disk_read_Inr:
  "disk_read n f = (Inr bs, g) \<Longrightarrow>
   df_rest f = bs @ df_rest g \<and> length bs \<le> n \<and> length (df_events g) \<le> length (df_events f) \<and>
   (bs = [] \<longrightarrow> n = 0 \<or> df_rest f = [])"
  by (auto simp: disk_read_def Let_def split: list.splits sock_event.splits)

lemma disk_read_Inl:
  "disk_read n f = (Inl e, g) \<Longrightarrow> df_rest g = df_rest f \<and> length (df_events g) < length (df_events f)"
  by (auto simp: disk_read_def Let_def split: list.splits sock_event.splits)

text \<open>The inner loop of \<open>stream_file\<close>: fill the buffer up to \<open>want\<close> bytes, or to the end.\<close>

function fill :: "nat \<Rightarrow> bytes \<Rightarrow> (disk_file, bytes) op" where
  "fill want filled f =
     (if length filled < want then
        (case disk_read (want - length filled) f of
           (Inr bs, g) \<Rightarrow> if bs = [] then (Inr filled, g) else fill want (filled @ bs) g
         | (Inl e, g) \<Rightarrow> if err_kind e = Interrupted then fill want filled g else (Inl e, g))
      else (Inr filled, f))"
  by pat_completeness auto

termination
  by (relation "measure (\<lambda>(want, filled, f). (want - length filled) + length (df_events f))")
    (auto dest!: disk_read_Inr [OF sym] disk_read_Inl [OF sym] simp: neq_Nil_conv)

declare fill.simps [simp del]

text \<open>
  The outer loop: \<open>False\<close> is its early return when a channel is closed. Each turn takes a
  buffer, so \<open>turns\<close>, the length of the pool's list, is used up when that list is. Buffers
  are \<open>CHUNK\<close> long in the program; only the filled part of one is read again.
\<close>

fun chunk_loop :: "nat \<Rightarrow> entry \<Rightarrow> u64 \<Rightarrow> disk_file \<Rightarrow> (reader, bool) op" where
  "chunk_loop turns e sent f =
     (if \<not> sent < e_size e then io_return True
      else
        io_bind pool_recv (\<lambda>ob.
        case ob of
          None \<Rightarrow> io_return False
        | Some buf \<Rightarrow>
            (case turns of
               0 \<Rightarrow> io_return False
             | Suc turns' \<Rightarrow>
                 let want = unat (min (e_size e - sent) (word_of_nat CHUNK)) in
                 (case fill want [] f of
                    (Inl err, _) \<Rightarrow> io_throw err
                  | (Inr got, g) \<Rightarrow>
                      let filled = length got in
                      if filled < want then
                        io_throw (IoError InvalidData
                          (FileShrank (e_path e) (e_size e) (unat (sent + word_of_nat filled))))
                      else
                        io_bind (rd_count (\<lambda>d. queued
                          (d\<lparr>d_disk_bytes := d_disk_bytes d + word_of_nat filled\<rparr>))) (\<lambda>_.
                        io_bind (tx_send (Inr (Chunk (got @ drop filled buf) filled))) (\<lambda>ok.
                        if \<not> ok then io_return False
                        else chunk_loop turns' e (sent + word_of_nat filled) g))))))"

declare chunk_loop.simps [simp del]

definition stream_file :: "sight \<Rightarrow> bytes \<Rightarrow> entry \<Rightarrow> bool \<Rightarrow> (reader, unit) op" where
  "stream_file si here e verify =
     (case si_file si of
        Inl err \<Rightarrow> io_throw err
      | Inr f \<Rightarrow>
         io_bind (if NOCACHE_MIN \<le> e_size e
                  then (\<lambda>s. (Inr (), s\<lparr>rd_uncached := rd_uncached s @ [here]\<rparr>))
                  else io_return ()) (\<lambda>_.
         io_bind (\<lambda>s. chunk_loop (length (rd_pool s)) e 0 f s) (\<lambda>all.
         if \<not> all then io_return ()
         else if verify then io_bind (tx_send (Inr EndPayload)) (\<lambda>_. io_return ())
         else io_return ())))"

text \<open>The branch for links: \<open>False\<close> is a return of the whole reader.\<close>

definition stream_link :: "'h blake3 \<Rightarrow> sight \<Rightarrow> entry \<Rightarrow> bool \<Rightarrow> (reader, bool) op" where
  "stream_link B si e verify =
     (case si_link si of
        Inl err \<Rightarrow> io_throw err
      | Inr target \<Rightarrow>
         let bs = to_string_lossy target in
         if length bs \<noteq> unat (e_size e) then
           io_bind (tx_send (Inl (IoError InvalidData (LinkChanged (e_path e) (e_size e) (length bs))))) (\<lambda>_.
           io_return False)
         else
           io_bind (rd_count (\<lambda>d. d\<lparr>d_disk_bytes := d_disk_bytes d + word_of_nat (length bs)\<rparr>)) (\<lambda>_.
           let dg = (if verify then Some (digest B bs) else None) in
           io_bind (tx_send (Inr (Target bs))) (\<lambda>ok.
           if \<not> ok then io_return False
           else case dg of
               Some d \<Rightarrow> tx_send (Inr (Digest d))
             | None \<Rightarrow> io_return True)))"

definition rd_kind :: "kind \<Rightarrow> diag \<Rightarrow> diag" where
  "rd_kind k d =
     (case k of
        Dir \<Rightarrow> d\<lparr>d_dirs := d_dirs d + 1\<rparr>
      | Symlink \<Rightarrow> d\<lparr>d_symlinks := d_symlinks d + 1\<rparr>
      | _ \<Rightarrow> d\<lparr>d_files := d_files d + 1\<rparr>)"

text \<open>The payload of one item: \<open>False\<close> when the reader is to return, an error when it is to report one.\<close>

definition send_payload :: "'h blake3 \<Rightarrow> sight \<Rightarrow> bytes \<Rightarrow> entry \<Rightarrow> bool \<Rightarrow> (reader, bool) op" where
  "send_payload B si here e verify =
     (case e_kind e of
        Symlink \<Rightarrow> stream_link B si e verify
      | File \<Rightarrow> io_bind (stream_file si here e verify) (\<lambda>_. io_return True)
      | _ \<Rightarrow> io_return True)"

fun read_items :: "'h blake3 \<Rightarrow> bool \<Rightarrow> source_item list \<Rightarrow> (reader, unit) op" where
  "read_items B verify [] = io_return ()"
| "read_items B verify (item # items) =
     (let here = i_abs item; e = i_entry item; header = i_header item in
      io_bind (rd_progress (set_current (e_path e))) (\<lambda>_.
      io_bind (tx_send (Inr (Header header))) (\<lambda>ok.
      if \<not> ok then io_return ()
      else
        io_bind (rd_count (rd_kind (e_kind e))) (\<lambda>_.
        io_bind rd_look (\<lambda>si s.
        case send_payload B si here e verify s of
          (Inl err, t) \<Rightarrow> io_bind (tx_send (Inl err)) (\<lambda>_. io_return ()) t
        | (Inr go, t) \<Rightarrow>
            if \<not> go then (Inr (), t)
            else io_bind (rd_progress finish_file) (\<lambda>_. read_items B verify items) t)))))"

section \<open>The hash stage\<close>

fun hash_item :: "'h blake3 \<Rightarrow> 'h \<Rightarrow> out_msg result \<Rightarrow> 'h \<times> out_msg result" where
  "hash_item B h (Inr (Chunk buf len)) = (hash_update B h (take len buf), Inr (Chunk buf len))"
| "hash_item B h (Inr EndPayload) = (b3_reset B h, Inr (Digest (b3_finalize B h)))"
| "hash_item B h other = (h, other)"

fun hash_items :: "'h blake3 \<Rightarrow> 'h \<Rightarrow> out_msg result list \<Rightarrow> out_msg result list" where
  "hash_items B h [] = []"
| "hash_items B h (m # ms) = (case hash_item B h m of (h', fwd) \<Rightarrow> fwd # hash_items B h' ms)"

section \<open>One flow\<close>

text \<open>
  A connection with the display, and what the pool, the threads and the disk behind the
  flow will do.
\<close>

record lane =
  ln_sock :: sock
  ln_prog :: progress
  ln_diag :: "diag option"
  ln_pool :: "(bool \<times> bytes) list"
  ln_room :: "nat option"
  ln_disk :: "nat \<Rightarrow> sight"

definition ln_write :: "bytes \<Rightarrow> (lane, unit) op" where
  "ln_write bs = zoom ln_sock (\<lambda>x s. s\<lparr>ln_sock := x\<rparr>) (sock_write_all bs)"

definition ln_count :: "(diag \<Rightarrow> diag) \<Rightarrow> (lane, unit) op" where
  "ln_count f s = (Inr (), s\<lparr>ln_diag := map_option f (ln_diag s)\<rparr>)"

definition ln_progress :: "(progress \<Rightarrow> progress) \<Rightarrow> (lane, unit) op" where
  "ln_progress f s = (Inr (), s\<lparr>ln_prog := f (ln_prog s)\<rparr>)"

definition sock_bytes :: "nat \<Rightarrow> diag \<Rightarrow> diag" where
  "sock_bytes n d = d\<lparr>d_socket_bytes := d_socket_bytes d + word_of_nat n\<rparr>"

text \<open>
  The loop that writes the socket. An \<open>EndPayload\<close> would be a panic; the stage before
  replaces every one, or the reader sends none.
\<close>

fun write_items :: "out_msg result list \<Rightarrow> stats \<Rightarrow> (lane, stats) op" where
  "write_items [] st = io_return st"
| "write_items (Inl err # ms) st = io_throw err"
| "write_items (Inr (Header bs) # ms) st =
     io_bind (ln_write bs) (\<lambda>_.
     io_bind (ln_count (sock_bytes (length bs))) (\<lambda>_.
     write_items ms (st\<lparr>st_files := st_files st + 1\<rparr>)))"
| "write_items (Inr (Target bs) # ms) st =
     io_bind (ln_write bs) (\<lambda>_.
     io_bind (ln_progress (add_bytes (word_of_nat (length bs)))) (\<lambda>_.
     io_bind (ln_count (sock_bytes (length bs))) (\<lambda>_.
     write_items ms (st\<lparr>st_bytes := st_bytes st + word_of_nat (length bs)\<rparr>))))"
| "write_items (Inr (Chunk buf len) # ms) st =
     io_bind (ln_write (take len buf)) (\<lambda>_.
     io_bind (ln_progress (add_bytes (word_of_nat len))) (\<lambda>_.
     io_bind (ln_count (\<lambda>d. dequeued (sock_bytes len d))) (\<lambda>_.
     write_items ms (st\<lparr>st_bytes := st_bytes st + word_of_nat len\<rparr>))))"
| "write_items (Inr (Digest bs) # ms) st =
     io_bind (ln_write bs) (\<lambda>_.
     io_bind (ln_count (sock_bytes DIGEST_LEN)) (\<lambda>_.
     write_items ms st))"
| "write_items (Inr EndPayload # ms) st = io_throw (IoError Other LanePanicked)"

text \<open>The reader as the flow starts it, and the messages that reach the writing loop.\<close>

definition rd_start :: "lane \<Rightarrow> reader" where
  "rd_start s =
     \<lparr>rd_sent = [], rd_pool = ln_pool s, rd_room = ln_room s, rd_disk = ln_disk s,
      rd_prog = ln_prog s, rd_diag = ln_diag s, rd_uncached = [], rd_hung = None\<rparr>"

definition run_reader :: "'h blake3 \<Rightarrow> bool \<Rightarrow> source_item list \<Rightarrow> lane \<Rightarrow> reader" where
  "run_reader B verify items s = snd (read_items B verify items (rd_start s))"

definition to_socket :: "'h blake3 \<Rightarrow> bool \<Rightarrow> out_msg result list \<Rightarrow> out_msg result list" where
  "to_socket B verify ms = (if verify then hash_items B (b3_new B) ms else ms)"

definition send_lane_inner ::
  "'h blake3 \<Rightarrow> bool \<Rightarrow> source_item list \<Rightarrow> stats \<Rightarrow> (lane, stats) op" where
  "send_lane_inner B verify items st s =
     (let rd = run_reader B verify items s
      in io_bind (write_items (to_socket B verify (rd_sent rd)) st) (\<lambda>st'.
         io_bind (ln_write write_terminator) (\<lambda>_.
         io_return st'))
           (s\<lparr>ln_prog := rd_prog rd, ln_diag := rd_diag rd\<rparr>))"

definition send_lane :: "'h blake3 \<Rightarrow> bool \<Rightarrow> source_item list \<Rightarrow> (lane, stats) op" where
  "send_lane B verify items = send_lane_inner B verify items stats_default"

section \<open>The manifest and the acknowledgement\<close>

definition ln_read_exact :: "nat \<Rightarrow> (lane, bytes) op" where
  "ln_read_exact n = zoom ln_sock (\<lambda>x s. s\<lparr>ln_sock := x\<rparr>) (sock_read_exact n)"

definition read_ack :: "(lane, unit) op" where
  "read_ack =
     io_bind (ln_read_exact 1) (\<lambda>ack.
     if hd ack \<noteq> ACK then io_throw (IoError InvalidData NotAcknowledged) else io_return ())"

text \<open>The bits are an iterator: a file takes the next one, if there is one.\<close>

fun keep_loop :: "stats \<Rightarrow> source_item list \<Rightarrow> bool list \<Rightarrow> source_item list \<times> stats" where
  "keep_loop st [] have = ([], st)"
| "keep_loop st (i # is) have =
     (if e_kind (i_entry i) \<noteq> File then
        (case keep_loop st is have of (kept, st') \<Rightarrow> (i # kept, st'))
      else
        (case have of
           True # bits \<Rightarrow>
             keep_loop (st\<lparr>st_skipped_files := st_skipped_files st + 1,
                           st_skipped_bytes := st_skipped_bytes st + e_size (i_entry i)\<rparr>) is bits
         | _ \<Rightarrow> (case keep_loop st is (tl have) of (kept, st') \<Rightarrow> (i # kept, st'))))"

definition keep_unskipped :: "source_item list \<Rightarrow> bool list \<Rightarrow> source_item list \<times> stats" where
  "keep_unskipped items have = keep_loop stats_default items have"

text \<open>
  The phase both sessions share: one write of every header, the bits for the files among
  them, the items that are left, and the totals of the display.
\<close>

definition manifest_of :: "source_item list \<Rightarrow> bytes" where
  "manifest_of items = concat (map i_header items) @ write_terminator"

definition offer_manifest :: "source_item list \<Rightarrow> (lane, source_item list \<times> stats) op" where
  "offer_manifest items =
     io_bind (ln_write (manifest_of items)) (\<lambda>_.
     io_bind (read_bitmap ln_read_exact (length (filter (\<lambda>i. e_kind (i_entry i) = File) items))) (\<lambda>have.
     case keep_unskipped items have of
       (kept, st) \<Rightarrow>
         io_bind (ln_progress (set_totals (word_of_nat (length kept))
                                          (sum_list (map (\<lambda>i. e_size (i_entry i)) kept)))) (\<lambda>_.
         io_return (kept, st))))"

section \<open>The sessions\<close>

text \<open>
  A connection still to be made: whether connecting or setting an option on it fails, and
  the flow that will run over it. \<open>se_lane\<close> is the primary flow, and holds the display;
  \<open>se_bands\<close> are the sockets of the further flows once their threads have ended.
\<close>

record dial =
  dl_setup :: "errno option"
  dl_sock :: sock
  dl_pool :: "(bool \<times> bytes) list"
  dl_room :: "nat option"
  dl_disk :: "nat \<Rightarrow> sight"

record session =
  se_lane :: lane
  se_dials :: "dial list"
  se_bands :: "sock list"

definition on_lane :: "(lane, 'a) op \<Rightarrow> (session, 'a) op" where
  "on_lane = zoom se_lane (\<lambda>x s. s\<lparr>se_lane := x\<rparr>)"

text \<open>\<open>TcpStream::connect\<close> and the options; no connection left is a peer that refuses.\<close>

definition connect :: "(session, dial) op" where
  "connect s =
     (case se_dials s of
        [] \<Rightarrow> (Inl (OsError ECONNREFUSED), s)
      | d # ds \<Rightarrow>
          (case dl_setup d of
             Some e \<Rightarrow> (Inl (OsError e), s\<lparr>se_dials := ds\<rparr>)
           | None \<Rightarrow> (Inr d, s\<lparr>se_dials := ds\<rparr>)))"

text \<open>The flow over a connection, showing its progress on the display of \<open>s\<close>.\<close>

definition lane_of :: "dial \<Rightarrow> lane \<Rightarrow> lane" where
  "lane_of d s =
     \<lparr>ln_sock = dl_sock d, ln_prog = ln_prog s, ln_diag = ln_diag s, ln_pool = dl_pool d,
      ln_room = dl_room d, ln_disk = dl_disk d\<rparr>"

definition use_primary :: "dial \<Rightarrow> (session, unit) op" where
  "use_primary d s = (Inr (), s\<lparr>se_lane := lane_of d (se_lane s)\<rparr>)"

definition flags_of :: "bool \<Rightarrow> byte" where
  "flags_of verify = (if verify then 0 else FLAG_NO_VERIFY)"

text \<open>
  How either session begins: the walk, the connection, the handshake, the manifest. What it
  yields are the items still to be sent and the files skipped.
\<close>

definition open_session ::
  "(bytes \<Rightarrow> node) \<Rightarrow> bytes list \<Rightarrow> bytes \<Rightarrow> (session, source_item list \<times> stats) op" where
  "open_session look paths handshake =
     (case fst (walk look paths) of
        Inl e \<Rightarrow> io_throw e
      | Inr items \<Rightarrow>
          io_bind connect (\<lambda>d.
          io_bind (use_primary d) (\<lambda>_.
          io_bind (on_lane (ln_write handshake)) (\<lambda>_.
          on_lane (offer_manifest items)))))"

definition send_v3 ::
  "'h blake3 \<Rightarrow> (bytes \<Rightarrow> node) \<Rightarrow> bytes list \<Rightarrow> bytes \<Rightarrow> bool \<Rightarrow> (session, stats) op" where
  "send_v3 B look paths token verify =
     io_bind (open_session look paths (encode_handshake (flags_of verify) token)) (\<lambda>(kept, st).
     io_bind (on_lane (send_lane B verify kept)) (\<lambda>moved.
     io_bind (on_lane read_ack) (\<lambda>_.
     io_return (st\<lparr>st_files := st_files st + st_files moved,
                   st_bytes := st_bytes st + st_bytes moved\<rparr>))))"

text \<open>Dealing round-robin: item \<open>i\<close> goes to flow \<open>i mod count\<close>.\<close>

fun deal_loop :: "nat \<Rightarrow> nat \<Rightarrow> source_item list \<Rightarrow> source_item list list \<Rightarrow> source_item list list" where
  "deal_loop cnt i [] lanes = lanes"
| "deal_loop cnt i (x # xs) lanes =
     deal_loop cnt (Suc i) xs (lanes[i mod cnt := lanes ! (i mod cnt) @ [x]])"

definition deal :: "nat \<Rightarrow> source_item list \<Rightarrow> source_item list list" where
  "deal cnt items = deal_loop cnt 0 items (replicate cnt [])"

text \<open>The further connections, from index \<open>i\<close> on; each gets its handshake at once.\<close>

fun pair_bands :: "nat \<Rightarrow> bytes \<Rightarrow> bool \<Rightarrow> u32 \<Rightarrow> nat \<Rightarrow> (session, dial list) op" where
  "pair_bands 0 token verify cnt i = io_return []"
| "pair_bands (Suc n) token verify cnt i =
     io_bind connect (\<lambda>d.
     io_bind (on_sock (sock_write_all (encode_handshake_multi (flags_of verify) token cnt (word_of_nat i)))
                (dl_sock d)) (\<lambda>(_, k).
     io_bind (pair_bands n token verify cnt (Suc i)) (\<lambda>bands.
     io_return (d\<lparr>dl_sock := k\<rparr> # bands))))"

text \<open>
  A further flow, from its connection; the socket it leaves behind is the last component.
  Every flow runs to its end, whatever becomes of the others.
\<close>

definition send_band ::
  "'h blake3 \<Rightarrow> bool \<Rightarrow> nat \<Rightarrow> source_item list \<Rightarrow> dial \<Rightarrow> lane \<Rightarrow> (stats result \<times> sock) \<times> lane" where
  "send_band B verify i items d s =
     (case send_lane B verify items (lane_of d s) of
        (r, t) \<Rightarrow>
          (((case r of Inl e \<Rightarrow> Inl (StreamError i e) | Inr st \<Rightarrow> Inr st), ln_sock t),
           s\<lparr>ln_prog := ln_prog t, ln_diag := ln_diag t\<rparr>))"

fun send_bands ::
  "'h blake3 \<Rightarrow> bool \<Rightarrow> nat \<Rightarrow> (source_item list \<times> dial) list \<Rightarrow> lane \<Rightarrow>
   (stats result \<times> sock) list \<times> lane" where
  "send_bands B verify i [] s = ([], s)"
| "send_bands B verify i ((items, d) # rest) s =
     (case send_band B verify i items d s of
        (r, t) \<Rightarrow> (case send_bands B verify (Suc i) rest t of (rs, u) \<Rightarrow> (r # rs, u)))"

definition send_flows ::
  "'h blake3 \<Rightarrow> bool \<Rightarrow> source_item list list \<Rightarrow> dial list \<Rightarrow> (session, stats) op" where
  "send_flows B verify lanes bands s =
     (case send_lane B verify (hd lanes) (se_lane s) of
        (primary, t) \<Rightarrow>
          (case send_bands B verify 1 (zip (tl lanes) bands) t of
             (rs, u) \<Rightarrow>
               ((case primary of Inl e \<Rightarrow> Inl e | Inr st \<Rightarrow> total_stats st (map fst rs)),
                s\<lparr>se_lane := u, se_bands := map snd rs\<rparr>)))"

definition send_multi ::
  "'h blake3 \<Rightarrow> (bytes \<Rightarrow> node) \<Rightarrow> bytes list \<Rightarrow> bytes \<Rightarrow> bool \<Rightarrow> u32 \<Rightarrow> (session, stats) op" where
  "send_multi B look paths token verify streams =
     (let cnt = unat streams in
      io_bind (open_session look paths (encode_handshake_multi (flags_of verify) token streams 0)) (\<lambda>(kept, st).
      io_bind (pair_bands (cnt - 1) token verify streams 1) (\<lambda>bands.
      io_bind (send_flows B verify (deal cnt kept) bands) (\<lambda>total.
      io_bind (on_lane read_ack) (\<lambda>_.
      io_return (st\<lparr>st_files := st_files st + st_files total,
                    st_bytes := st_bytes st + st_bytes total\<rparr>))))))"

definition send_to_diag_streamed ::
  "'h blake3 \<Rightarrow> (bytes \<Rightarrow> node) \<Rightarrow> bytes list \<Rightarrow> bytes \<Rightarrow> bool \<Rightarrow> u32 \<Rightarrow> (session, stats) op" where
  "send_to_diag_streamed B look paths token verify streams =
     (if 1 < streams then send_multi B look paths token verify streams
      else send_v3 B look paths token verify)"

definition send_to_diag ::
  "'h blake3 \<Rightarrow> (bytes \<Rightarrow> node) \<Rightarrow> bytes list \<Rightarrow> bytes \<Rightarrow> bool \<Rightarrow> bytes option \<Rightarrow> (session, stats) op" where
  "send_to_diag B look paths token verify env =
     send_to_diag_streamed B look paths token verify (word_of_nat (streams_count env))"

definition send_to ::
  "'h blake3 \<Rightarrow> (bytes \<Rightarrow> node) \<Rightarrow> bytes list \<Rightarrow> bytes \<Rightarrow> bytes option \<Rightarrow> (session, stats) op" where
  "send_to B look paths token env s =
     send_to_diag B look paths token True env (s\<lparr>se_lane := (se_lane s)\<lparr>ln_diag := None\<rparr>\<rparr>)"

end
