(* ===== verification/SendLog.thy ===== *)
theory SendLog
  imports Sender NetLog Guarantees "HOL-Library.Sublist"
begin

text \<open>
  What a flow of the sender puts on its connection: whatever the disk shows and however the
  threads are scheduled, a prefix of a stream of complete frames for its items; the whole
  stream exactly when it succeeds, with the bytes the disk showed.
\<close>

section \<open>Links and files\<close>

lemma conts_take: "conts n s \<le> n \<and> conts n s \<le> length s"
  by (induction n s rule: conts.induct) auto

text \<open>A target that is valid UTF-8 travels as it is.\<close>

lemma lossy_valid: "utf8_valid s \<Longrightarrow> to_string_lossy s = s"
proof (induction s rule: measure_induct_rule [of length])
  case (less s)
  show ?case
  proof (cases s)
    case (Cons a r)
    note v = less.prems [unfolded Cons]
    have IH: "to_string_lossy q = q" if "utf8_valid q" "length q < length s" for q
      using less.IH [OF that(2,1)] .
    have step: "to_string_lossy s = take n s @ to_string_lossy (drop (n - 1) r)" if "utf8_step s = (True, n)" for n
      using that Cons by (simp del: utf8_step.simps)
    consider "a \<le> 0x7F" | "\<not> a \<le> 0x7F" "0xC2 \<le> a \<and> a \<le> 0xDF"
      | "\<not> a \<le> 0x7F" "\<not> (0xC2 \<le> a \<and> a \<le> 0xDF)" "0xE0 \<le> a \<and> a \<le> 0xEF"
      | "\<not> a \<le> 0x7F" "\<not> (0xC2 \<le> a \<and> a \<le> 0xDF)" "\<not> (0xE0 \<le> a \<and> a \<le> 0xEF)" "0xF0 \<le> a \<and> a \<le> 0xF4"
      using v by (simp only: utf8_valid.simps split: if_splits) blast+
    then show ?thesis
    proof cases
      case 1
      with v IH [of r] Cons show ?thesis by simp
    next
      case 2
      with v obtain b q where q: "r = b # q" "utf8_cont b" "utf8_valid q"
        by (simp only: utf8_valid.simps if_False if_True) (auto split: list.splits)
      moreover from 2 q(2) have "second_ok a b" by (auto simp: second_ok_def)
      ultimately have "utf8_step s = (True, 2)"
        unfolding Cons utf8_step.simps if_not_P [OF 2(1)] if_P [OF 2(2)] by simp
      with step q IH [of q] Cons show ?thesis by simp
    next
      case 3
      with v obtain b c q where q: "r = b # c # q" "utf8_valid q" "utf8_cont c"
        by (simp only: utf8_valid.simps if_False if_True) (auto split: list.splits)
      have "second_ok a b"
        using v 3 q by (simp only: utf8_valid.simps(2) [of a] if_False if_True simp_thms list.case)
          (auto simp: second_ok_def split: if_splits)
      with q have "utf8_step s = (True, 3)"
        unfolding Cons utf8_step.simps if_not_P [OF 3(1)] if_not_P [OF 3(2)] if_P [OF 3(3)]
        by (simp add: numeral_eq_Suc)
      with step q IH [of q] Cons show ?thesis by (simp add: numeral_eq_Suc)
    next
      case 4
      with v obtain b c d q where q: "r = b # c # d # q" "utf8_valid q" "utf8_cont c" "utf8_cont d"
        by (simp only: utf8_valid.simps if_False if_True) (auto split: list.splits)
      have "second_ok a b"
        using v 4 q by (simp only: utf8_valid.simps(2) [of a] if_False if_True simp_thms list.case)
          (auto simp: second_ok_def split: if_splits)
      with q have "utf8_step s = (True, 4)"
        unfolding Cons utf8_step.simps if_not_P [OF 4(1)] if_not_P [OF 4(2)] if_not_P [OF 4(3)] if_P [OF 4(4)]
        by (simp add: numeral_eq_Suc)
      with step q IH [of q] Cons show ?thesis by (simp add: numeral_eq_Suc)
    qed
  qed simp
qed

lemma fill_ok:
  "fill want filled f = (Inr got, g) \<Longrightarrow> length filled \<le> want \<Longrightarrow>
   got @ df_rest g = filled @ df_rest f \<and> length got \<le> want \<and> (length got < want \<longrightarrow> df_rest g = [])"
proof (induction want filled f rule: fill.induct)
  case (1 want filled f)
  show ?case
  proof (cases "length filled < want")
    case True
    obtain x h where x: "disk_read (want - length filled) f = (x, h)"
      by (cases "disk_read (want - length filled) f")
    show ?thesis
    proof (cases x)
      case (Inl e)
      with x True "1.prems"(1) have "err_kind e = Interrupted" "fill want filled h = (Inr got, g)"
        by (subst (asm) fill.simps, simp split: if_splits)+
      with "1.IH"(1) [OF True x [symmetric] Inl] disk_read_Inl [of _ f e h] x Inl "1.prems"(2)
      show ?thesis by simp
    next
      case (Inr bs)
      note d = disk_read_Inr [of "want - length filled" f bs h, OF x [unfolded Inr]]
      show ?thesis
      proof (cases "bs = []")
        case True': True
        with x True "1.prems"(1) Inr have "got = filled" "g = h"
          by (subst (asm) fill.simps, simp)+
        with d True' True show ?thesis by auto
      next
        case False
        with x True "1.prems"(1) Inr have "fill want (filled @ bs) h = (Inr got, g)"
          by (subst (asm) fill.simps, simp)
        moreover have "length bs \<le> want - length filled" using d by blast
        then have "length (filled @ bs) \<le> want" using True by simp
        ultimately show ?thesis using "1.IH"(2) [OF True x [symmetric] Inr False] d by simp
      qed
    qed
  next
    case False
    with "1.prems" have "got = filled" "g = f" by (subst (asm) fill.simps, simp)+
    with False "1.prems"(2) show ?thesis by simp
  qed
qed

section \<open>The reader's channel\<close>

text \<open>The part of the reader's state that only \<open>rd_look\<close> and the channels touch.\<close>

lemma rd_count_frame:
  "rd_count f s = (r, t) \<Longrightarrow> r = Inr () \<and> rd_sent t = rd_sent s \<and> rd_hung t = rd_hung s \<and>
     rd_pool t = rd_pool s \<and> rd_room t = rd_room s \<and> rd_disk t = rd_disk s"
  by (auto simp: rd_count_def)

lemma tx_send_cases:
  assumes "tx_send m s = (r, t)"
  obtains "r = Inr True" "rd_sent t = rd_sent s @ [m]" "rd_hung t = rd_hung s" "rd_pool t = rd_pool s" "rd_disk t = rd_disk s"
  | "r = Inr False" "t = hung_up s" "rd_room s = Some 0"
  using assms by (auto simp: tx_send_def split: option.splits nat.splits)

lemma hung_up_simps [simp]:
  "rd_sent (hung_up s) = rd_sent s" "rd_disk (hung_up s) = rd_disk s" "rd_pool (hung_up s) = rd_pool s"
  "rd_room (hung_up s) = rd_room s"
  "rd_hung (hung_up s) = (case rd_hung s of None \<Rightarrow> Some (length (rd_sent s)) | h \<Rightarrow> h)"
  by (simp_all add: hung_up_def)

lemma pool_recv_cases:
  assumes "pool_recv s = (r, t)"
  obtains buf st where "r = Inr (Some buf)" "rd_pool s = (st, buf) # rd_pool t" "rd_sent t = rd_sent s"
      "rd_hung t = rd_hung s" "rd_disk t = rd_disk s" "rd_room t = rd_room s"
  | "r = Inr None" "rd_pool s = []" "rd_pool t = []" "rd_sent t = rd_sent s" "rd_disk t = rd_disk s"
      "rd_hung t = (case rd_hung s of None \<Rightarrow> Some (length (rd_sent s)) | h \<Rightarrow> h)"
proof (cases "rd_pool s")
  case Nil
  with assms that(2) show ?thesis
    by (auto simp: pool_recv_def rd_count_def io_bind_def hung_up_def split: option.splits)
next
  case (Cons p ps)
  with assms that(1) show ?thesis
    by (cases p) (auto simp: pool_recv_def rd_count_def io_bind_def split: if_splits)
qed


section \<open>Chunks\<close>

definition chunk_msg :: "bytes \<times> nat \<Rightarrow> out_msg" where
  "chunk_msg b = Chunk (fst b) (snd b)"

definition proper :: "(bytes \<times> nat) list \<Rightarrow> bool" where
  "proper bufs \<longleftrightarrow> (\<forall>(b, n) \<in> set bufs. n \<le> length b)"

abbreviation lives :: "(bytes \<times> nat) list \<Rightarrow> bytes" where
  "lives bufs \<equiv> concat (map live_part bufs)"

text \<open>
  A piece of the reader: it sends \<open>new\<close>; if a channel was closed for the first time, then
  after \<open>n\<close> of these messages.
\<close>

definition extends :: "reader \<Rightarrow> out_msg result list \<Rightarrow> reader \<Rightarrow> bool" where
  "extends s new t \<longleftrightarrow> rd_sent t = rd_sent s @ new \<and>
     (case rd_hung s of
        Some h \<Rightarrow> rd_hung t = Some h
      | None \<Rightarrow> (\<forall>h. rd_hung t = Some h \<longrightarrow> length (rd_sent s) \<le> h \<and> h \<le> length (rd_sent t)))"

lemma extends_refl [simp]: "extends s [] s"
  by (auto simp: extends_def split: option.splits)

lemma extends_trans: "extends s xs t \<Longrightarrow> extends t ys u \<Longrightarrow> extends s (xs @ ys) u"
  by (auto simp: extends_def split: option.splits)

lemma extends_same:
  "rd_sent t = rd_sent s \<Longrightarrow> rd_hung t = rd_hung s \<Longrightarrow> extends s [] t"
  by (auto simp: extends_def split: option.splits)

lemma extends_hung_up: "extends s [] (hung_up s)"
  by (auto simp: extends_def split: option.splits)

lemma extends_tx_send:
  assumes "tx_send m s = (r, t)"
  shows "rd_disk t = rd_disk s \<and> rd_pool t = rd_pool s \<and>
    (r = Inr True \<and> extends s [m] t \<and> rd_hung t = rd_hung s \<or>
     r = Inr False \<and> extends s [] t \<and> rd_sent t = rd_sent s \<and> rd_hung t \<noteq> None)"
  using assms by (cases rule: tx_send_cases) (auto simp: extends_hung_up extends_def split: option.splits)

lemma extends_pool_recv:
  assumes "pool_recv s = (r, t)"
  shows "extends s [] t \<and> rd_disk t = rd_disk s \<and> rd_sent t = rd_sent s \<and>
    (r = Inr None \<and> rd_hung t \<noteq> None \<and> rd_pool s = [] \<and> rd_pool t = [] \<or>
     (\<exists>st buf. r = Inr (Some buf) \<and> rd_pool s = (st, buf) # rd_pool t \<and> rd_hung t = rd_hung s))"
  using assms by (cases rule: pool_recv_cases) (auto simp: extends_def split: option.splits)


lemma u64_advance:
  fixes sent size w :: u64
  assumes "sent \<le> size" and "w \<le> size - sent"
  shows "sent + w \<le> size \<and> unat (size - (sent + w)) = unat (size - sent) - unat w"
proof -
  have d: "unat (size - sent) = unat size - unat sent" using assms(1) by (rule unat_sub)
  have le: "unat sent \<le> unat size" using assms(1) by (simp add: word_le_nat_alt)
  have w: "unat w \<le> unat size - unat sent" using assms(2) d by (simp add: word_le_nat_alt)
  then have b: "unat sent + unat w \<le> unat size" using le by simp
  then have "unat sent + unat w < 2 ^ LENGTH(64)"
    using unsigned_less [of size, where ?'a = nat] by (rule le_less_trans)
  then have a: "unat (sent + w) = unat sent + unat w"
    using unat_add_lem by blast
  then have "sent + w \<le> size" using b by (simp add: word_le_nat_alt)
  moreover from this have "unat (size - (sent + w)) = unat size - unat (sent + w)" by (rule unat_sub)
  ultimately show ?thesis using a d by simp
qed

text \<open>A turn of the loop: it ends on a closed channel or an error, or a chunk is queued.\<close>

lemma chunk_turn:
  assumes more: "sent < e_size e" and w: "w = min (e_size e - sent) (word_of_nat CHUNK)"
  shows "(\<exists>t. chunk_loop (Suc turns) e sent f s = (Inr False, t) \<and> extends s [] t \<and> rd_disk t = rd_disk s \<and>
      rd_hung t \<noteq> None) \<or>
    (\<exists>err t. chunk_loop (Suc turns) e sent f s = (Inl err, t) \<and> extends s [] t \<and> rd_disk t = rd_disk s \<and>
      rd_hung t = rd_hung s) \<or>
    (\<exists>got buf g q. chunk_loop (Suc turns) e sent f s = chunk_loop turns e (sent + w) g q \<and>
      extends s [Inr (Chunk (got @ drop (length got) buf) (length got))] q \<and> rd_disk q = rd_disk s \<and>
      rd_hung q = rd_hung s \<and> length (rd_pool s) = Suc (length (rd_pool q)) \<and>
      df_rest f = got @ df_rest g \<and> length got = unat w)"
proof -
  obtain x u where x: "pool_recv s = (x, u)" by (cases "pool_recv s")
  note px = extends_pool_recv [OF x]
  show ?thesis
  proof (cases "x = Inr None")
    case None: True
    with x more have "chunk_loop (Suc turns) e sent f s = (Inr False, u)" by (simp add: chunk_loop.simps)
    with px None show ?thesis by auto
  next
    case False
    with px obtain st buf where b: "x = Inr (Some buf)" "rd_pool s = (st, buf) # rd_pool u" "rd_hung u = rd_hung s"
      by auto
    obtain y g where y: "fill (unat w) [] f = (y, g)" by (cases "fill (unat w) [] f")
    show ?thesis
    proof (cases "\<exists>got. y = Inr got \<and> \<not> length got < unat w")
      case False
      with x b more y w have "\<exists>err. chunk_loop (Suc turns) e sent f s = (Inl err, u)"
        by (cases y) (auto simp: chunk_loop.simps Let_def)
      with px b show ?thesis by auto
    next
      case True
      then obtain got where got: "y = Inr got" "\<not> length got < unat w" by blast
      note f = fill_ok [OF y [unfolded got(1)], simplified]
      from got(2) f have len: "length got = unat w" by simp
      then have ww: "word_of_nat (length got) = w" by simp
      let ?msg = "Chunk (got @ drop (length got) buf) (length got)"
      obtain v where v: "rd_count (\<lambda>d. queued (d\<lparr>d_disk_bytes := d_disk_bytes d + w\<rparr>)) u = (Inr (), v)"
        by (simp add: rd_count_def)
      note fv = rd_count_frame [OF v]
      obtain z q where z: "tx_send (Inr ?msg) v = (z, q)" by (cases "tx_send (Inr ?msg) v")
      note ez = extends_tx_send [OF z]
      have step: "chunk_loop (Suc turns) e sent f s =
          (case z of Inl err \<Rightarrow> (Inl err, q)
           | Inr ok \<Rightarrow> if \<not> ok then (Inr False, q) else chunk_loop turns e (sent + w) g q)"
        using x b more y got v z ww len unfolding w
        by (simp add: chunk_loop.simps Let_def io_bind_def split: sum.splits)
      have uv: "extends s [] v" using px b fv by (auto simp: extends_def split: option.splits)
      show ?thesis
      proof (cases "z = Inr True")
        case False
        with ez have "z = Inr False" "extends v [] q" "rd_hung q \<noteq> None" "rd_disk q = rd_disk v" by auto
        with step extends_trans [OF uv, of "[]" q] px fv show ?thesis by simp
      next
        case True
        with ez have "extends v [Inr ?msg] q" "rd_hung q = rd_hung v" "rd_pool q = rd_pool v" "rd_disk q = rd_disk v"
          by auto
        with step True extends_trans [OF uv, of "[Inr ?msg]" q] px fv b f len show ?thesis
          by (intro disjI2 exI [of _ got] exI [of _ buf] exI [of _ g] exI [of _ q]) simp
      qed
    qed
  qed
qed

lemma chunk_loop_log:
  assumes "chunk_loop turns e sent f s = (r, t)" and "length (rd_pool s) \<le> turns" and "sent \<le> e_size e"
  shows "\<exists>bufs. extends s (map (Inr \<circ> chunk_msg) bufs) t \<and> proper bufs \<and> rd_disk t = rd_disk s \<and>
    length (lives bufs) \<le> unat (e_size e - sent) \<and>
    (r = Inr True \<longrightarrow> lives bufs = take (unat (e_size e - sent)) (df_rest f) \<and>
       length (lives bufs) = unat (e_size e - sent) \<and> rd_hung t = rd_hung s) \<and>
    (r = Inr False \<longrightarrow> rd_hung t \<noteq> None) \<and> (\<forall>err. r = Inl err \<longrightarrow> rd_hung t = rd_hung s)"
  using assms
proof (induction turns arbitrary: sent f s)
  case 0
  show ?case
  proof (cases "sent < e_size e")
    case True
    obtain x u where x: "pool_recv s = (x, u)" by (cases "pool_recv s")
    from extends_pool_recv [OF x] "0.prems"(2) have "x = Inr None" "extends s [] u" "rd_hung u \<noteq> None" "rd_disk u = rd_disk s"
      by auto
    moreover from x this(1) True "0.prems"(1) have "r = Inr False" "t = u"
      by (simp_all add: chunk_loop.simps io_bind_def)
    ultimately show ?thesis by (intro exI [of _ "[]"]) (simp add: proper_def)
  next
    case False
    with "0.prems" have "r = Inr True" "t = s" "e_size e = sent"
      by (auto simp: chunk_loop.simps)
    then show ?thesis by (intro exI [of _ "[]"]) (simp add: proper_def)
  qed
next
  case (Suc turns)
  show ?case
  proof (cases "sent < e_size e")
    case False
    with Suc.prems have "r = Inr True" "t = s" "e_size e = sent"
      by (auto simp: chunk_loop.simps)
    then show ?thesis by (intro exI [of _ "[]"]) (simp add: proper_def)
  next
    case True
    define w where "w = min (e_size e - sent) (word_of_nat CHUNK)"
    have adv: "sent + w \<le> e_size e" "unat (e_size e - (sent + w)) = unat (e_size e - sent) - unat w"
      using u64_advance [OF Suc.prems(3), of w] by (simp_all add: w_def)
    have wle: "unat w \<le> unat (e_size e - sent)" by (simp add: word_le_nat_alt [symmetric] w_def)
    from chunk_turn [OF True w_def, of turns f s] Suc.prems(1) consider
        (over) "r = Inr False \<or> isl r" "extends s [] t" "rd_disk t = rd_disk s"
          "r = Inr False \<longrightarrow> rd_hung t \<noteq> None" "isl r \<longrightarrow> rd_hung t = rd_hung s"
      | (chunk) got buf g q where "chunk_loop turns e (sent + w) g q = (r, t)"
          "extends s [Inr (Chunk (got @ drop (length got) buf) (length got))] q" "rd_disk q = rd_disk s"
          "rd_hung q = rd_hung s" "length (rd_pool s) = Suc (length (rd_pool q))"
          "df_rest f = got @ df_rest g" "length got = unat w"
      by auto
    then show ?thesis
    proof cases
      case over
      then show ?thesis by (intro exI [of _ "[]"]) (auto simp: proper_def)
    next
      case chunk
      have "length (rd_pool q) \<le> turns" using chunk(5) Suc.prems(2) by simp
      from Suc.IH [OF chunk(1) this adv(1)] obtain bufs where
        i: "extends q (map (Inr \<circ> chunk_msg) bufs) t" "proper bufs" "rd_disk t = rd_disk q"
          "length (lives bufs) \<le> unat (e_size e - (sent + w))"
          "r = Inr True \<longrightarrow> lives bufs = take (unat (e_size e - (sent + w))) (df_rest g) \<and>
             length (lives bufs) = unat (e_size e - (sent + w)) \<and> rd_hung t = rd_hung q"
          "r = Inr False \<longrightarrow> rd_hung t \<noteq> None" "\<forall>err. r = Inl err \<longrightarrow> rd_hung t = rd_hung q"
        by blast
      let ?b = "(got @ drop (length got) buf, length got)"
      have "extends s (map (Inr \<circ> chunk_msg) (?b # bufs)) t"
        using extends_trans [OF chunk(2) i(1)] by (simp add: chunk_msg_def)
      moreover have "proper (?b # bufs)" using i(2) by (simp add: proper_def)
      moreover have len: "length (lives (?b # bufs)) = unat w + length (lives bufs)" using chunk(7) by simp
      then have "length (lives (?b # bufs)) \<le> unat (e_size e - sent)" using i(4) adv(2) wle by linarith
      moreover have "lives (?b # bufs) = take (unat (e_size e - sent)) (df_rest f) \<and>
          length (lives (?b # bufs)) = unat (e_size e - sent)" if "r = Inr True"
      proof (rule conjI)
        show "lives (?b # bufs) = take (unat (e_size e - sent)) (df_rest f)"
          using that i(5) chunk(6,7) wle adv(2) by simp
        show "length (lives (?b # bufs)) = unat (e_size e - sent)"
          using that i(5) len adv(2) wle by linarith
      qed
      moreover have "rd_disk t = rd_disk s" "r = Inr True \<longrightarrow> rd_hung t = rd_hung s"
          "\<forall>err. r = Inl err \<longrightarrow> rd_hung t = rd_hung s"
        using i(3,5,7) chunk(3,4) by simp_all
      ultimately show ?thesis using i(6) by (intro exI [of _ "?b # bufs"]) blast
    qed
  qed
qed


section \<open>One item\<close>

text \<open>
  The messages that carry the payload \<open>p\<close> of an entry: the whole of what the reader says of
  it after the header.
\<close>

definition body_of :: "'h blake3 \<Rightarrow> bool \<Rightarrow> entry \<Rightarrow> bytes \<Rightarrow> out_msg list \<Rightarrow> bool" where
  "body_of B verify e p body \<longleftrightarrow>
     length p = payload_len e \<and>
     (case e_kind e of
        Symlink \<Rightarrow> body = Target p # (if verify then [Digest (digest B p)] else [])
      | File \<Rightarrow> \<exists>bufs. proper bufs \<and> lives bufs = p \<and>
          body = map chunk_msg bufs @ (if verify then [EndPayload] else [])
      | _ \<Rightarrow> body = [])"

text \<open>The payload is the one the disk shows.\<close>

definition shows_payload :: "sight \<Rightarrow> entry \<Rightarrow> bytes \<Rightarrow> bool" where
  "shows_payload si e p \<longleftrightarrow>
     (case e_kind e of
        Symlink \<Rightarrow> \<exists>target. si_link si = Inr target \<and> p = to_string_lossy target
      | File \<Rightarrow> \<exists>f. si_file si = Inr f \<and> p = take (unat (e_size e)) (df_rest f)
      | _ \<Rightarrow> p = [])"

text \<open>How a part of the reader can end, having said a prefix of \<open>body\<close>.\<close>

definition ends :: "reader \<Rightarrow> out_msg list \<Rightarrow> bool result \<Rightarrow> reader \<Rightarrow> bool" where
  "ends s body x t \<longleftrightarrow>
     (\<exists>pre. prefix pre body \<and>
        (extends s (map Inr pre) t \<and> rd_hung t \<noteq> None \<and> (\<exists>go. x = Inr go) \<or>
         (\<exists>err. extends s (map Inr pre @ [Inl err]) t \<and> rd_hung t = rd_hung s \<and> x = Inr False) \<or>
         (\<exists>err. extends s (map Inr pre) t \<and> rd_hung t = rd_hung s \<and> x = Inl err)))"

lemma ends_hung:
  "prefix pre body \<Longrightarrow> extends s (map Inr pre) t \<Longrightarrow> rd_hung t \<noteq> None \<Longrightarrow> ends s body (Inr go) t"
  unfolding ends_def by blast

lemma ends_err:
  "prefix pre body \<Longrightarrow> extends s (map Inr pre) t \<Longrightarrow> rd_hung t = rd_hung s \<Longrightarrow> ends s body (Inl err) t"
  unfolding ends_def by blast

lemma ends_told:
  "prefix pre body \<Longrightarrow> extends s (map Inr pre @ [Inl err]) t \<Longrightarrow> rd_hung t = rd_hung s \<Longrightarrow> ends s body (Inr False) t"
  unfolding ends_def by blast

lemma stream_link_log:
  assumes "stream_link B si e verify s = (x, t)" and k: "e_kind e = Symlink"
  shows "rd_disk t = rd_disk s \<and>
    (\<exists>p body. body_of B verify e p body \<and>
       (x = Inr True \<and> rd_hung t = rd_hung s \<and> extends s (map Inr body) t \<and> shows_payload si e p \<or>
        ends s body x t))"
proof -
  let ?dg = "\<lambda>p. if verify then [Digest (digest B p)] else []"
  have body: "body_of B verify e p (Target p # ?dg p)" if "length p = unat (e_size e)" for p
    using that k by (simp add: body_of_def payload_len_def)
  let ?z = "replicate (unat (e_size e)) 0"
  note bz = body [of ?z, simplified length_replicate, OF refl]
  show ?thesis
  proof (cases "si_link si")
    case (Inl err)
    with assms(1) have "x = Inl err" "t = s" by (simp_all add: stream_link_def)
    with bz ends_err [of "[]" _ s s err] show ?thesis by (auto intro!: exI)
  next
    case (Inr target)
    let ?p = "to_string_lossy target"
    show ?thesis
    proof (cases "length ?p = unat (e_size e)")
      case False
      let ?err = "IoError InvalidData (LinkChanged (e_path e) (e_size e) (length ?p))"
      obtain y u where y: "tx_send (Inl ?err) s = (y, u)" by (cases "tx_send (Inl ?err) s")
      with assms(1) Inr False have x: "x = Inr False" "t = u"
        using extends_tx_send [OF y] by (auto simp: stream_link_def Let_def io_bind_def)
      have "ends s (Target ?z # ?dg ?z) (Inr False) u"
        using extends_tx_send [OF y] ends_told [of "[]" _ s ?err u] ends_hung [of "[]" _ s u] by auto
      with bz x extends_tx_send [OF y] show ?thesis by auto
    next
      case True
      let ?w = "word_of_nat (length ?p)"
      obtain v where v: "rd_count (\<lambda>d. d\<lparr>d_disk_bytes := d_disk_bytes d + ?w\<rparr>) s = (Inr (), v)"
        by (simp add: rd_count_def)
      note fv = rd_count_frame [OF v]
      then have sv: "extends s [] v" by (intro extends_same) auto
      obtain y u where y: "tx_send (Inr (Target ?p)) v = (y, u)" by (cases "tx_send (Inr (Target ?p)) v")
      note ey = extends_tx_send [OF y]
      note bp = body [OF True]
      show ?thesis
      proof (cases "y = Inr True")
        case False
        with ey have yf: "y = Inr False" by auto
        with v y assms(1) Inr True have x: "x = Inr False" "t = u"
          by (simp_all add: stream_link_def Let_def io_bind_def)
        from ey yf extends_trans [OF sv, of "[]" u] have "ends s (Target ?p # ?dg ?p) (Inr False) u"
          by (intro ends_hung [of "[]"]) auto
        with bp x ey fv show ?thesis by auto
      next
        case yt: True
        with ey have u: "extends v [Inr (Target ?p)] u" "rd_hung u = rd_hung v" "rd_disk u = rd_disk v" by auto
        note su = extends_trans [OF sv u(1)]
        have p: "shows_payload si e ?p" using k Inr by (simp add: shows_payload_def)
        show ?thesis
        proof (cases verify)
          case False
          with v y yt assms(1) Inr True have "x = Inr True" "t = u"
            by (simp_all add: stream_link_def Let_def io_bind_def)
          with bp su u fv p False show ?thesis by (intro conjI exI [of _ ?p] exI) auto
        next
          case vf: True
          obtain z q where z: "tx_send (Inr (Digest (digest B ?p))) u = (z, q)"
            by (cases "tx_send (Inr (Digest (digest B ?p))) u")
          note ez = extends_tx_send [OF z]
          from z v y yt assms(1) Inr True vf have x: "x = z" "t = q"
            by (simp_all add: stream_link_def Let_def io_bind_def)
          have bp': "body_of B verify e ?p [Target ?p, Digest (digest B ?p)]" using bp vf by simp
          show ?thesis
          proof (cases "z = Inr True")
            case True
            with ez have "extends u [Inr (Digest (digest B ?p))] q" "rd_hung q = rd_hung u" "rd_disk q = rd_disk u" by auto
            with extends_trans [OF su this(1)] bp' x True u fv p show ?thesis by fastforce
          next
            case False
            with ez have q: "z = Inr False" "extends u [] q" "rd_hung q \<noteq> None" "rd_disk q = rd_disk u" by auto
            have "ends s [Target ?p, Digest (digest B ?p)] (Inr False) q"
              using extends_trans [OF su q(2)] q(3) by (intro ends_hung [of "[Target ?p]"]) auto
            with bp' x q u fv show ?thesis by auto
          qed
        qed
      qed
    qed
  qed
qed


text \<open>What a file has said so far can always be completed to a body of the announced size.\<close>

lemma file_body:
  assumes k: "e_kind e = File" and "proper bufs" and "length (lives bufs) \<le> unat (e_size e)"
  shows "\<exists>p body. body_of B verify e p body \<and> prefix (map chunk_msg bufs) body \<and>
    (length (lives bufs) = unat (e_size e) \<longrightarrow> p = lives bufs \<and>
       body = map chunk_msg bufs @ (if verify then [EndPayload] else []))"
proof (cases "length (lives bufs) = unat (e_size e)")
  case True
  with assms show ?thesis
    by (intro exI [of _ "lives bufs"] exI [of _ "map chunk_msg bufs @ (if verify then [EndPayload] else [])"])
      (auto simp: body_of_def payload_len_def)
next
  case False
  let ?n = "unat (e_size e) - length (lives bufs)"
  let ?more = "[(replicate ?n 0, ?n)]"
  have "proper (bufs @ ?more)" using assms(2) by (auto simp: proper_def)
  moreover have "length (lives (bufs @ ?more)) = unat (e_size e)" using assms(3) by simp
  ultimately show ?thesis using k False
    by (intro exI [of _ "lives (bufs @ ?more)"]
          exI [of _ "map chunk_msg (bufs @ ?more) @ (if verify then [EndPayload] else [])"])
      (auto simp: body_of_def payload_len_def)
qed

lemma stream_file_log:
  assumes "io_bind (stream_file si here e verify) (\<lambda>_. io_return True) s = (x, t)" and k: "e_kind e = File"
  shows "rd_disk t = rd_disk s \<and>
    (\<exists>p body. body_of B verify e p body \<and>
       (x = Inr True \<and> rd_hung t = rd_hung s \<and> extends s (map Inr body) t \<and> shows_payload si e p \<or>
        ends s body x t))"
proof (cases "si_file si")
  case (Inl err)
  with assms(1) have x: "x = Inl err" "t = s" by (simp_all add: stream_file_def)
  from file_body [OF k, of "[]" B verify] obtain p body where "body_of B verify e p body"
    unfolding proper_def by auto
  with x ends_err [of "[]" body s s err] show ?thesis by auto
next
  case (Inr f)
  define v where "v = (if NOCACHE_MIN \<le> e_size e then s\<lparr>rd_uncached := rd_uncached s @ [here]\<rparr> else s)"
  have fv: "rd_disk v = rd_disk s" "rd_hung v = rd_hung s" "extends s [] v"
    by (auto simp: v_def extends_def split: option.splits)
  obtain y u where y: "chunk_loop (length (rd_pool v)) e 0 f v = (y, u)"
    by (cases "chunk_loop (length (rd_pool v)) e 0 f v")
  from chunk_loop_log [OF y] obtain bufs where
    b: "extends v (map (Inr \<circ> chunk_msg) bufs) u" "proper bufs" "rd_disk u = rd_disk v"
      "length (lives bufs) \<le> unat (e_size e)"
      "y = Inr True \<longrightarrow> lives bufs = take (unat (e_size e)) (df_rest f) \<and>
         length (lives bufs) = unat (e_size e) \<and> rd_hung u = rd_hung v"
      "y = Inr False \<longrightarrow> rd_hung u \<noteq> None" "\<forall>err. y = Inl err \<longrightarrow> rd_hung u = rd_hung v"
    by (simp only: order_refl word_zero_le diff_zero) blast
  have su: "extends s (map Inr (map chunk_msg bufs)) u" using extends_trans [OF fv(3) b(1)] by simp
  from file_body [OF k b(2,4)] obtain p body where
    pb: "body_of B verify e p body" "prefix (map chunk_msg bufs) body"
      "length (lives bufs) = unat (e_size e) \<longrightarrow> p = lives bufs \<and>
         body = map chunk_msg bufs @ (if verify then [EndPayload] else [])"
    by blast
  have step: "(x, t) = (case y of Inl err \<Rightarrow> (Inl err, u)
      | Inr all \<Rightarrow> if \<not> all then (Inr True, u)
          else if verify then (Inr True, snd (tx_send (Inr EndPayload) u)) else (Inr True, u))"
    using assms(1) Inr y extends_tx_send [of "Inr EndPayload" u]
    by (cases "tx_send (Inr EndPayload) u")
      (auto simp: stream_file_def v_def io_bind_def split: sum.splits if_splits)
  show ?thesis
  proof (cases y)
    case (Inl err)
    with step b(3,7) fv su pb(1) ends_err [OF pb(2) su, of err] show ?thesis by auto
  next
    case all: (Inr all)
    show ?thesis
    proof (cases all)
      case False
      with all step b(3,6) fv pb(1) ends_hung [OF pb(2) su, of True] show ?thesis by auto
    next
      case True
      with all b(5) have l: "lives bufs = take (unat (e_size e)) (df_rest f)"
          "length (lives bufs) = unat (e_size e)" "rd_hung u = rd_hung v" by blast+
      with pb(3) have p: "p = lives bufs" "body = map chunk_msg bufs @ (if verify then [EndPayload] else [])"
        by blast+
      have shown: "shows_payload si e p" using k Inr l(1) p(1) by (simp add: shows_payload_def)
      show ?thesis
      proof (cases verify)
        case False
        with step all True p(2) su shown pb(1) l(3) b(3) fv show ?thesis
          by (auto intro!: exI [of _ p] exI [of _ body])
      next
        case vf: True
        obtain z q where z: "tx_send (Inr EndPayload) u = (z, q)" by (cases "tx_send (Inr EndPayload) u")
        note ez = extends_tx_send [OF z]
        have x: "x = Inr True" "t = q" using step all True vf z by simp_all
        show ?thesis
        proof (cases "z = Inr True")
          case True
          with ez have "extends u [Inr EndPayload] q" "rd_hung q = rd_hung u" "rd_disk q = rd_disk u" by auto
          with extends_trans [OF su this(1)] x pb(1) p(2) vf shown l(3) b(3) fv show ?thesis by fastforce
        next
          case False
          with ez have q: "extends u [] q" "rd_hung q \<noteq> None" "rd_disk q = rd_disk u" by auto
          from extends_trans [OF su q(1)] have "extends s (map Inr (map chunk_msg bufs)) q" by simp
          with ends_hung [OF pb(2) this q(2), of True] x pb(1) q(3) b(3) fv show ?thesis by auto
        qed
      qed
    qed
  qed
qed

lemma payload_log:
  assumes "send_payload B si here e verify s = (x, t)" and "e_kind e \<noteq> End"
  shows "rd_disk t = rd_disk s \<and>
    (\<exists>p body. body_of B verify e p body \<and>
       (x = Inr True \<and> rd_hung t = rd_hung s \<and> extends s (map Inr body) t \<and> shows_payload si e p \<or>
        ends s body x t))"
proof (cases "e_kind e")
  case Dir
  with assms(1) have "x = Inr True" "t = s" by (simp_all add: send_payload_def)
  with Dir show ?thesis
    by (auto simp: body_of_def shows_payload_def payload_len_def intro!: exI [of _ "[]"])
next
  case File
  with assms(1) stream_file_log [of si here e verify s x t B] show ?thesis by (simp add: send_payload_def)
next
  case Symlink
  with assms(1) stream_link_log [of B si e verify s x t] show ?thesis by (simp add: send_payload_def)
qed (use assms in simp)


section \<open>All items\<close>

text \<open>\<open>full\<close> is what the reader says of the items with the payloads \<open>ps\<close>, uninterrupted.\<close>

fun utters :: "'h blake3 \<Rightarrow> bool \<Rightarrow> source_item list \<Rightarrow> bytes list \<Rightarrow> out_msg list \<Rightarrow> bool" where
  "utters B verify [] ps full \<longleftrightarrow> ps = [] \<and> full = []"
| "utters B verify (i # is) ps full \<longleftrightarrow>
     (\<exists>p qs body rest. ps = p # qs \<and> full = Header (i_header i) # body @ rest \<and>
        body_of B verify (i_entry i) p body \<and> utters B verify is qs rest)"

text \<open>The payloads are the ones the disk shows, item by item.\<close>

fun shown :: "(nat \<Rightarrow> sight) \<Rightarrow> source_item list \<Rightarrow> bytes list \<Rightarrow> bool" where
  "shown disk [] ps \<longleftrightarrow> ps = []"
| "shown disk (i # is) ps \<longleftrightarrow>
     (\<exists>p qs. ps = p # qs \<and> shows_payload (disk 0) (i_entry i) p \<and> shown (\<lambda>n. disk (Suc n)) is qs)"

text \<open>What was said before an error was reported, or a channel closed, is a prefix.\<close>

definition broken :: "reader \<Rightarrow> out_msg list \<Rightarrow> out_msg result list \<Rightarrow> reader \<Rightarrow> bool" where
  "broken s full new t \<longleftrightarrow>
     (\<exists>pre. prefix pre full \<and>
        ((\<exists>err. rd_hung t = None \<and> new = map Inr pre @ [Inl err]) \<or>
         (\<exists>h. rd_hung t = Some h \<and> take (h - length (rd_sent s)) new = map Inr pre)))"

lemma body_exists: "e_kind e \<noteq> End \<Longrightarrow> \<exists>p body. body_of B verify e p body"
proof (cases "e_kind e")
  case File
  with file_body [of e "[]" B verify] show ?thesis by (auto simp: proper_def)
next
  case Symlink
  then show ?thesis
    by (intro exI [of _ "replicate (payload_len e) 0"] exI) (simp add: body_of_def)
qed (auto simp: body_of_def payload_len_def intro: exI [of _ "[]"])

lemma utters_exists: "\<forall>i \<in> set items. e_kind (i_entry i) \<noteq> End \<Longrightarrow> \<exists>ps full. utters B verify items ps full"
proof (induction items)
  case (Cons i items)
  with body_exists [of "i_entry i" B verify] show ?case by (simp only: utters.simps) (metis list.set_intros)
qed (simp add: exI [of _ "[]"])

lemma extends_hung:
  "extends s new t \<Longrightarrow> rd_hung s = Some h \<Longrightarrow> rd_hung t = Some h"
  by (simp add: extends_def)

lemma extends_bound:
  "extends s new t \<Longrightarrow> rd_hung s = None \<Longrightarrow> rd_hung t = Some h \<Longrightarrow>
   length (rd_sent s) \<le> h \<and> h - length (rd_sent s) \<le> length new"
  by (auto simp: extends_def)

lemma broken_later:
  assumes "extends s (map Inr a) u" "rd_hung u = None" "extends u new t" "broken u full new t"
  shows "broken s (a @ full) (map Inr a @ new) t"
proof -
  from assms(4) obtain pre where pre: "prefix pre full"
      "(\<exists>err. rd_hung t = None \<and> new = map Inr pre @ [Inl err]) \<or>
       (\<exists>h. rd_hung t = Some h \<and> take (h - length (rd_sent u)) new = map Inr pre)"
    by (auto simp: broken_def)
  have l: "length (rd_sent u) = length (rd_sent s) + length a" using assms(1) by (simp add: extends_def)
  from pre(2) show ?thesis
  proof
    assume "\<exists>err. rd_hung t = None \<and> new = map Inr pre @ [Inl err]"
    with pre(1) show ?thesis unfolding broken_def by (intro exI [of _ "a @ pre"]) auto
  next
    assume "\<exists>h. rd_hung t = Some h \<and> take (h - length (rd_sent u)) new = map Inr pre"
    then obtain h where h: "rd_hung t = Some h" "take (h - length (rd_sent u)) new = map Inr pre" by blast
    have "length (rd_sent u) \<le> h" using extends_bound [OF assms(3,2) h(1)] by simp
    with h l have "take (h - length (rd_sent s)) (map Inr a @ new) = map Inr (a @ pre)" by simp
    with h(1) pre(1) show ?thesis unfolding broken_def by (intro exI [of _ "a @ pre"]) auto
  qed
qed

lemma broken_hung:
  assumes "extends s (map Inr pre) t" "rd_hung s = None" "rd_hung t \<noteq> None" "prefix pre full" "extends t late u"
  shows "broken s full (map Inr pre @ late) u \<and> extends s (map Inr pre @ late) u"
proof -
  from assms(3) obtain h where h: "rd_hung t = Some h" by blast
  note b = extends_bound [OF assms(1,2) h]
  let ?k = "h - length (rd_sent s)"
  have "take ?k (map Inr pre @ late) = map Inr (take ?k pre)" using b by (auto simp: take_map)
  moreover have "prefix (take ?k pre) full" using assms(4) take_is_prefix prefix_order.trans by blast
  ultimately have "broken s full (map Inr pre @ late) u"
    using extends_hung [OF assms(5) h] unfolding broken_def by blast
  with extends_trans [OF assms(1,5)] show ?thesis by blast
qed

lemma read_items_extends:
  "read_items B verify items s = (r, t) \<Longrightarrow> \<forall>i \<in> set items. e_kind (i_entry i) \<noteq> End \<Longrightarrow>
   r = Inr () \<and> (\<exists>new. extends s new t)"
proof (induction items arbitrary: s)
  case Nil
  then show ?case by (auto intro: exI [of _ "[]"])
next
  case (Cons i items)
  let ?e = "i_entry i"
  obtain a where a: "rd_progress (set_current (e_path ?e)) s = (Inr (), a)" by (simp add: rd_progress_def)
  then have sa: "extends s [] a" by (intro extends_same) (auto simp: rd_progress_def)
  obtain y u where y: "tx_send (Inr (Header (i_header i))) a = (y, u)" by (cases "tx_send (Inr (Header (i_header i))) a")
  note ey = extends_tx_send [OF y]
  show ?case
  proof (cases "y = Inr True")
    case False
    with ey have "y = Inr False" "extends a [] u" by auto
    moreover from this a y Cons.prems(1) have "r = Inr ()" "t = u" by (simp_all add: Let_def io_bind_def)
    ultimately show ?thesis using extends_trans [OF sa] by auto
  next
    case True
    with ey have au: "extends a [Inr (Header (i_header i))] u" by auto
    obtain v where v: "io_bind (rd_count (rd_kind (e_kind ?e))) (\<lambda>_. rd_look) u = (Inr (rd_disk u 0), v)"
        "extends u [] v"
      by (auto simp: rd_count_def rd_look_def extends_def split: option.splits)
    note sv = extends_trans [OF extends_trans [OF sa au] v(2)]
    obtain x w where x: "send_payload B (rd_disk u 0) (i_abs i) ?e verify v = (x, w)"
      by (cases "send_payload B (rd_disk u 0) (i_abs i) ?e verify v")
    from payload_log [OF x] Cons.prems(2) obtain new where vw: "extends v new w"
      unfolding ends_def by auto
    note sw = extends_trans [OF sv vw]
    have step: "(r, t) = (case x of Inl err \<Rightarrow> io_bind (tx_send (Inl err)) (\<lambda>_. io_return ()) w
        | Inr go \<Rightarrow> if \<not> go then (Inr (), w)
            else io_bind (rd_progress finish_file) (\<lambda>_. read_items B verify items) w)"
      using Cons.prems(1) a y True v(1) x
      by (auto simp: Let_def io_bind_def rd_count_def rd_look_def split: sum.splits)
    show ?thesis
    proof (cases x)
      case (Inl err)
      obtain z q where z: "tx_send (Inl err) w = (z, q)" by (cases "tx_send (Inl err) w")
      with step Inl extends_tx_send [OF z] extends_trans [OF sw] show ?thesis
        by (auto simp: io_bind_def) blast+
    next
      case (Inr go)
      show ?thesis
      proof (cases go)
        case True
        let ?q = "w\<lparr>rd_prog := finish_file (rd_prog w)\<rparr>"
        have "extends w [] ?q" by (intro extends_same) auto
        note sq = extends_trans [OF sw this]
        from step Inr True have "read_items B verify items ?q = (r, t)" by (simp add: rd_progress_def io_bind_def)
        from Cons.IH [OF this] Cons.prems(2) extends_trans [OF sq] show ?thesis by auto
      qed (use step Inr sw in auto)
    qed
  qed
qed


text \<open>
  The reader as a whole, from a state in which nothing is closed: the uninterrupted account
  of all items with the payloads the disk shows, or a prefix of some such account.
\<close>

text \<open>The reader stops in the payload of an item: its account of this item is cut off.\<close>

lemma read_items_cut:
  assumes sv: "extends s (map Inr [m0]) v" and hs: "rd_hung s = None" "rd_hung v = None"
    and e: "ends v body x w"
    and step: "(r, t) = (case x of Inl err \<Rightarrow> io_bind (tx_send (Inl err)) (\<lambda>_. io_return ()) w
        | Inr go \<Rightarrow> if \<not> go then (Inr (), w) else rest w)"
    and rest: "x = Inr True \<Longrightarrow> \<exists>late. extends w late t"
  shows "\<exists>new. extends s new t \<and> broken s (m0 # body @ full) new t"
proof -
  let ?full = "m0 # body @ full"
  from e obtain pre where pre: "prefix pre body"
      "extends v (map Inr pre) w \<and> rd_hung w \<noteq> None \<and> (\<exists>go. x = Inr go) \<or>
       (\<exists>err. extends v (map Inr pre @ [Inl err]) w \<and> rd_hung w = rd_hung v \<and> x = Inr False) \<or>
       (\<exists>err. extends v (map Inr pre) w \<and> rd_hung w = rd_hung v \<and> x = Inl err)"
    unfolding ends_def by blast
  have pf: "prefix (m0 # pre) ?full" using pre(1) by auto
  have vw: "extends s (map Inr (m0 # pre)) w" if "extends v (map Inr pre) w"
    using extends_trans [OF sv that] by simp
  have said: ?thesis if "extends s (map Inr (m0 # pre) @ [Inl err]) t" "rd_hung t = None" for err
    using that pf unfolding broken_def by blast
  from pre(2) show ?thesis
  proof (elim disjE exE conjE)
    fix go assume w: "extends v (map Inr pre) w" "rd_hung w \<noteq> None" "x = Inr go"
    have "\<exists>late. extends w late t"
      using rest step w(3) by (cases go) (auto intro: extends_refl)
    with w show ?thesis using broken_hung [OF vw hs(1) _ pf] by blast
  next
    fix err assume w: "extends v (map Inr pre @ [Inl err]) w" "rd_hung w = rd_hung v" "x = Inr False"
    with step have "t = w" by simp
    with extends_trans [OF sv w(1)] w(2) hs(2) show ?thesis by (intro said [of err]) simp_all
  next
    fix err assume w: "extends v (map Inr pre) w" "rd_hung w = rd_hung v" "x = Inl err"
    obtain z q where z: "tx_send (Inl err) w = (z, q)" by (cases "tx_send (Inl err) w")
    note ez = extends_tx_send [OF z]
    with z step w(3) have t: "t = q" by (auto simp: io_bind_def)
    from ez show ?thesis
    proof (elim conjE disjE)
      assume "extends w [Inl err] q" "rd_hung q = rd_hung w"
      with extends_trans [OF vw [OF w(1)]] w(2) hs(2) t show ?thesis by (intro said [of err]) simp_all
    next
      assume "extends w [] q" "rd_hung q \<noteq> None"
      then have "extends s (map Inr (m0 # pre)) t" "rd_hung t \<noteq> None"
        using extends_trans [OF vw [OF w(1)]] t by force+
      from broken_hung [OF this(1) hs(1) this(2) pf extends_refl] show ?thesis by auto
    qed
  qed
qed

lemma read_items_log:
  "read_items B verify items s = (r, t) \<Longrightarrow> \<forall>i \<in> set items. e_kind (i_entry i) \<noteq> End \<Longrightarrow> rd_hung s = None \<Longrightarrow>
   \<exists>ps full new. extends s new t \<and> utters B verify items ps full \<and>
     (rd_hung t = None \<and> new = map Inr full \<and> shown (rd_disk s) items ps \<or> broken s full new t)"
proof (induction items arbitrary: s)
  case Nil
  then have "t = s" by simp
  with Nil show ?case by (intro exI [of _ "[]"]) simp
next
  case (Cons i items)
  let ?e = "i_entry i" and ?h = "Header (i_header i)"
  have ends: "e_kind ?e \<noteq> End" "\<forall>i \<in> set items. e_kind (i_entry i) \<noteq> End" using Cons.prems(2) by auto
  obtain a where a: "rd_progress (set_current (e_path ?e)) s = (Inr (), a)" "rd_disk a = rd_disk s" "rd_hung a = None"
    using Cons.prems(3) by (simp add: rd_progress_def)
  then have sa: "extends s [] a" by (intro extends_same) (auto simp: rd_progress_def)
  obtain y u where y: "tx_send (Inr ?h) a = (y, u)" by (cases "tx_send (Inr ?h) a")
  note ey = extends_tx_send [OF y]
  show ?case
  proof (cases "y = Inr True")
    case False
    with ey have q: "y = Inr False" "extends a [] u" "rd_hung u \<noteq> None" by auto
    with a y Cons.prems(1) have t: "t = u" by (simp add: Let_def io_bind_def)
    obtain ps full where f: "utters B verify (i # items) ps full" using utters_exists [OF Cons.prems(2)] by blast
    have "extends s (map Inr []) u" using extends_trans [OF sa q(2)] by simp
    from broken_hung [OF this Cons.prems(3) q(3) _ extends_refl] f t show ?thesis
      by (intro exI [of _ ps] exI [of _ full] exI [of _ "[]"]) simp
  next
    case True
    with ey a have au: "extends a [Inr ?h] u" "rd_hung u = None" "rd_disk u = rd_disk s" by auto
    obtain v where v: "io_bind (rd_count (rd_kind (e_kind ?e))) (\<lambda>_. rd_look) u = (Inr (rd_disk u 0), v)"
        "extends u [] v" "rd_hung v = None" "rd_disk v = (\<lambda>n. rd_disk s (Suc n))"
      using au by (auto simp: rd_count_def rd_look_def extends_def split: option.splits)
    have sv: "extends s (map Inr [?h]) v" using extends_trans [OF extends_trans [OF sa au(1)] v(2)] by simp
    obtain x w where x: "send_payload B (rd_disk u 0) (i_abs i) ?e verify v = (x, w)"
      by (cases "send_payload B (rd_disk u 0) (i_abs i) ?e verify v")
    have step: "(r, t) = (case x of Inl err \<Rightarrow> io_bind (tx_send (Inl err)) (\<lambda>_. io_return ()) w
        | Inr go \<Rightarrow> if \<not> go then (Inr (), w)
            else io_bind (rd_progress finish_file) (\<lambda>_. read_items B verify items) w)"
      using Cons.prems(1) a y True v(1) x
      by (auto simp: Let_def io_bind_def rd_count_def rd_look_def split: sum.splits)
    from payload_log [OF x ends(1)] obtain p body where
      b: "rd_disk w = rd_disk v" "body_of B verify ?e p body"
        "x = Inr True \<and> rd_hung w = rd_hung v \<and> extends v (map Inr body) w \<and> shows_payload (rd_disk u 0) ?e p \<or>
         ends v body x w"
      by blast
    let ?q = "w\<lparr>rd_prog := finish_file (rd_prog w)\<rparr>"
    have wq: "extends w [] ?q" by (intro extends_same) auto
    have go_on: "read_items B verify items ?q = (r, t)" if "x = Inr True"
      using step that by (simp add: rd_progress_def io_bind_def)
    from b(3) show ?thesis
    proof
      assume d: "x = Inr True \<and> rd_hung w = rd_hung v \<and> extends v (map Inr body) w \<and> shows_payload (rd_disk u 0) ?e p"
      then have "rd_hung ?q = None" using v(3) by simp
      from Cons.IH [OF go_on ends(2) this] d obtain ps full new where
        i: "extends ?q new t" "utters B verify items ps full"
          "rd_hung t = None \<and> new = map Inr full \<and> shown (rd_disk ?q) items ps \<or> broken ?q full new t"
        by blast
      have vq: "extends s (map Inr (?h # body)) ?q"
        using extends_trans [OF extends_trans [OF sv, of "map Inr body" w] wq] d by simp
      have f: "utters B verify (i # items) (p # ps) (?h # body @ full)" using i(2) b(2) by auto
      from i(3) show ?thesis
      proof
        assume "rd_hung t = None \<and> new = map Inr full \<and> shown (rd_disk ?q) items ps"
        with extends_trans [OF vq i(1)] f d au(3) b(1) v(4) show ?thesis
          by (intro exI [of _ "p # ps"] exI [of _ "?h # body @ full"] exI [of _ "map Inr (?h # body) @ new"]) auto
      next
        assume "broken ?q full new t"
        from broken_later [OF vq \<open>rd_hung ?q = None\<close> i(1) this] extends_trans [OF vq i(1)] f show ?thesis
          by (intro exI [of _ "p # ps"] exI [of _ "?h # body @ full"] exI [of _ "map Inr (?h # body) @ new"]) auto
      qed
    next
      assume e: "ends v body x w"
      obtain ps full where f: "utters B verify items ps full" using utters_exists [OF ends(2)] by blast
      have "\<exists>late. extends w late t" if "x = Inr True"
        using read_items_extends [OF go_on [OF that] ends(2)] extends_trans [OF wq] by blast
      from read_items_cut [where rest = "io_bind (rd_progress finish_file) (\<lambda>_. read_items B verify items)",
          OF sv Cons.prems(3) v(3) e step this, of full]
      show ?thesis using f b(2) by (fastforce intro: exI [of _ "p # ps"] exI [of _ "?h # body @ full"])
    qed
  qed
qed


section \<open>The hash stage and the socket\<close>

fun wire_of :: "out_msg \<Rightarrow> bytes" where
  "wire_of (Header bs) = bs"
| "wire_of (Target bs) = bs"
| "wire_of (Chunk buf len) = take len buf"
| "wire_of (Digest bs) = bs"
| "wire_of EndPayload = []"

abbreviation wires :: "out_msg list \<Rightarrow> bytes" where
  "wires out \<equiv> concat (map wire_of out)"

text \<open>The hasher after some messages.\<close>

definition hash_after :: "'h blake3 \<Rightarrow> 'h \<Rightarrow> out_msg result list \<Rightarrow> 'h" where
  "hash_after B h ms = foldl (\<lambda>h m. fst (hash_item B h m)) h ms"

lemma hash_items_append:
  "hash_items B h (xs @ ys) = hash_items B h xs @ hash_items B (hash_after B h xs) ys"
  by (induction xs arbitrary: h) (simp_all add: hash_after_def case_prod_beta)

lemma hash_after_append: "hash_after B h (xs @ ys) = hash_after B (hash_after B h xs) ys"
  by (simp add: hash_after_def)

lemma length_hash_items [simp]: "length (hash_items B h xs) = length xs"
  by (induction xs arbitrary: h) (simp_all add: case_prod_beta)

lemma take_hash_items: "take n (hash_items B h xs) = hash_items B h (take n xs)"
proof -
  have "hash_items B h xs = hash_items B h (take n xs) @ hash_items B (hash_after B h (take n xs)) (drop n xs)"
    using hash_items_append [of B h "take n xs" "drop n xs"] by simp
  then show ?thesis by (cases "n \<le> length xs") auto
qed

lemma hash_chunks:
  assumes "blake3_ok B absorbed"
  shows "hash_items B h (map (Inr \<circ> chunk_msg) bufs) = map (Inr \<circ> chunk_msg) bufs \<and>
    absorbed (hash_after B h (map (Inr \<circ> chunk_msg) bufs)) = absorbed h @ lives bufs"
proof (induction bufs arbitrary: h)
  case (Cons b bufs)
  have "live_part b = take (snd b) (fst b)" by (cases b) simp
  with Cons [of "hash_update B h (take (snd b) (fst b))"] absorbed_hash_update [OF assms] show ?case
    by (simp add: chunk_msg_def hash_after_def)
qed (simp add: hash_after_def)

lemma wires_chunks [simp]:
  "wires (map chunk_msg bufs) = lives bufs" "concat (map (wire_of \<circ> chunk_msg) bufs) = lives bufs"
  by (induction bufs) (auto simp: chunk_msg_def)

text \<open>What becomes of one item on its way to the socket: its frame.\<close>

lemma hash_body:
  assumes B: "blake3_ok B absorbed" and h: "absorbed h = []" and b: "body_of B True e p body" and k: "e_kind e \<noteq> End"
  shows "\<exists>out. hash_items B h (map Inr (Header hdr # body)) = map Inr out \<and> EndPayload \<notin> set out \<and>
    wires out = hdr @ p @ trailer B True (e, p) \<and>
    absorbed (hash_after B h (map Inr (Header hdr # body))) = []"
proof (cases "e_kind e")
  case File
  with b obtain bufs where f: "proper bufs" "lives bufs = p" "body = map chunk_msg bufs @ [EndPayload]"
    by (auto simp: body_of_def)
  let ?h = "hash_after B h (map (Inr \<circ> chunk_msg) bufs)"
  note c = hash_chunks [OF B, of h bufs]
  have "b3_finalize B ?h = digest B p" using finalize_absorbed [OF B] c h f(2) by simp
  with c f h absorbed_reset [OF B] show ?thesis
    by (intro exI [of _ "Header hdr # map chunk_msg bufs @ [Digest (digest B p)]"])
      (auto simp: hash_items_append hash_after_append hash_after_def trailer_def File chunk_msg_def)
next
  case Symlink
  with b have "body = [Target p, Digest (digest B p)]" by (simp add: body_of_def)
  with h Symlink show ?thesis
    by (intro exI [of _ "Header hdr # body"]) (simp add: hash_after_def trailer_def)
next
  case Dir
  with b have "body = []" "p = []" by (simp_all add: body_of_def payload_len_def)
  with h Dir show ?thesis
    by (intro exI [of _ "[Header hdr]"]) (simp add: hash_after_def trailer_def)
qed (use k in simp)

text \<open>The frames of a list of items.\<close>

definition items_of :: "source_item list \<Rightarrow> bytes list \<Rightarrow> item list" where
  "items_of items ps = zip (map i_entry items) ps"

definition frames :: "'h blake3 \<Rightarrow> bool \<Rightarrow> source_item list \<Rightarrow> bytes list \<Rightarrow> bytes" where
  "frames B verify items ps = concat (map (frame B verify) (items_of items ps))"

lemma frames_Cons:
  "i_header i = entry_encode (i_entry i) \<Longrightarrow>
   frames B verify (i # items) (p # ps) = i_header i @ p @ trailer B verify (i_entry i, p) @ frames B verify items ps"
  by (simp add: frames_def items_of_def frame_def)

lemma frames_Nil [simp]: "frames B verify [] ps = []"
  by (simp add: frames_def items_of_def)

lemma hash_utters:
  assumes B: "blake3_ok B absorbed"
  shows "utters B True items ps full \<Longrightarrow> \<forall>i \<in> set items. sound_item i \<Longrightarrow> absorbed h = [] \<Longrightarrow>
    \<exists>out. hash_items B h (map Inr full) = map Inr out \<and> EndPayload \<notin> set out \<and> wires out = frames B True items ps"
proof (induction items arbitrary: ps full h)
  case (Cons i items)
  from Cons.prems(1) obtain p qs body rest where
    u: "ps = p # qs" "full = Header (i_header i) # body @ rest" "body_of B True (i_entry i) p body"
      "utters B True items qs rest" by auto
  have s: "i_header i = entry_encode (i_entry i)" "e_kind (i_entry i) \<noteq> End"
    using Cons.prems(2) by (auto simp: sound_item_def)
  from hash_body [OF B Cons.prems(3) u(3) s(2), of "i_header i"] obtain out where
    o: "hash_items B h (map Inr (Header (i_header i) # body)) = map Inr out" "EndPayload \<notin> set out"
      "wires out = i_header i @ p @ trailer B True (i_entry i, p)"
      "absorbed (hash_after B h (map Inr (Header (i_header i) # body))) = []" by blast
  from Cons.IH [OF u(4) _ o(4)] Cons.prems(2) obtain out' where
    o': "hash_items B (hash_after B h (map Inr (Header (i_header i) # body))) (map Inr rest) = map Inr out'"
      "EndPayload \<notin> set out'" "wires out' = frames B True items qs" by auto
  have f: "map Inr full = map Inr (Header (i_header i) # body) @ map Inr rest" using u(2) by simp
  have "hash_items B h (map Inr full) = map Inr (out @ out')"
    unfolding f hash_items_append o(1) o'(1) by simp
  with o o' u(1) frames_Cons [OF s(1), of B True items p qs] show ?case by (intro exI [of _ "out @ out'"]) simp
qed simp

lemma plain_utters:
  "utters B False items ps full \<Longrightarrow> \<forall>i \<in> set items. sound_item i \<Longrightarrow>
   EndPayload \<notin> set full \<and> wires full = frames B False items ps"
proof (induction items arbitrary: ps full)
  case (Cons i items)
  from Cons.prems(1) obtain p qs body rest where
    u: "ps = p # qs" "full = Header (i_header i) # body @ rest" "body_of B False (i_entry i) p body"
      "utters B False items qs rest" by auto
  have s: "i_header i = entry_encode (i_entry i)" "e_kind (i_entry i) \<noteq> End"
    using Cons.prems(2) by (auto simp: sound_item_def)
  have "EndPayload \<notin> set body \<and> wires body = p"
    using u(3) s(2)
    by (auto simp: body_of_def payload_len_def chunk_msg_def split: kind.splits)
  with Cons u s(1) show ?case by (auto simp: frames_Cons trailer_def)
qed simp

text \<open>Both ways: the messages at the socket are the frames, and never the panic.\<close>

lemma to_socket_utters:
  assumes "blake3_ok B absorbed" and "utters B verify items ps full" and "\<forall>i \<in> set items. sound_item i"
  shows "\<exists>out. to_socket B verify (map Inr full) = map Inr out \<and> EndPayload \<notin> set out \<and>
    wires out = frames B verify items ps"
proof (cases verify)
  case True
  with hash_utters [OF assms(1), of items ps full "b3_new B"] assms absorbed_new [OF assms(1)] show ?thesis
    by (simp add: to_socket_def)
next
  case False
  with plain_utters [of B items ps full] assms show ?thesis by (auto simp: to_socket_def)
qed


section \<open>The socket\<close>

fun count_msg :: "stats \<Rightarrow> out_msg \<Rightarrow> stats" where
  "count_msg st (Header bs) = st\<lparr>st_files := st_files st + 1\<rparr>"
| "count_msg st (Target bs) = st\<lparr>st_bytes := st_bytes st + word_of_nat (length bs)\<rparr>"
| "count_msg st (Chunk buf len) = st\<lparr>st_bytes := st_bytes st + word_of_nat len\<rparr>"
| "count_msg st _ = st"

definition sent_on :: "lane \<Rightarrow> bytes \<Rightarrow> lane \<Rightarrow> bool" where
  "sent_on s out t \<longleftrightarrow>
     outgoing (ln_sock t) = outgoing (ln_sock s) @ out \<and> incoming (ln_sock t) = incoming (ln_sock s) \<and>
     events (ln_sock t) = events (ln_sock s) \<and> (write_events (ln_sock s) = [] \<longrightarrow> write_events (ln_sock t) = [])"

lemma sent_on_refl: "ln_sock t = ln_sock s \<Longrightarrow> sent_on s [] t"
  by (simp add: sent_on_def)

lemma sent_on_trans: "sent_on s a t \<Longrightarrow> sent_on t b u \<Longrightarrow> sent_on s (a @ b) u"
  by (simp add: sent_on_def)

lemma ln_write_log:
  "ln_write bs s = (r, t) \<Longrightarrow> \<exists>out. sent_on s out t \<and> prefix out bs \<and> (r = Inr () \<longrightarrow> out = bs) \<and>
     (write_events (ln_sock s) = [] \<longrightarrow> r = Inr ())"
  by (auto simp: ln_write_def zoom_eq sock_write_all_def sent_on_def take_is_prefix
      split: list.splits write_event.splits)

text \<open>Every message but the impossible one is written and counted the same way.\<close>

fun displayed :: "out_msg \<Rightarrow> lane \<Rightarrow> lane" where
  "displayed (Header bs) t = t\<lparr>ln_diag := map_option (sock_bytes (length bs)) (ln_diag t)\<rparr>"
| "displayed (Target bs) t =
     t\<lparr>ln_prog := add_bytes (word_of_nat (length bs)) (ln_prog t),
       ln_diag := map_option (sock_bytes (length bs)) (ln_diag t)\<rparr>"
| "displayed (Chunk buf len) t =
     t\<lparr>ln_prog := add_bytes (word_of_nat len) (ln_prog t),
       ln_diag := map_option (\<lambda>d. dequeued (sock_bytes len d)) (ln_diag t)\<rparr>"
| "displayed (Digest bs) t = t\<lparr>ln_diag := map_option (sock_bytes DIGEST_LEN) (ln_diag t)\<rparr>"
| "displayed EndPayload t = t"

lemma displayed_sock [simp]: "ln_sock (displayed m t) = ln_sock t"
  by (cases m) simp_all

lemma write_one:
  assumes "m \<noteq> EndPayload"
  shows "write_items (Inr m # ms) st s =
    io_bind (ln_write (wire_of m)) (\<lambda>_ t. write_items ms (count_msg st m) (displayed m t)) s"
proof -
  obtain x u where x: "ln_write (wire_of m) s = (x, u)" by (cases "ln_write (wire_of m) s")
  then show ?thesis
    using assms by (cases m; cases x) (simp_all add: ln_count_def ln_progress_def io_bind_def)
qed

lemma write_items_log:
  "write_items (map Inr out) st s = (r, t) \<Longrightarrow> EndPayload \<notin> set out \<Longrightarrow>
   \<exists>o'. sent_on s o' t \<and> prefix o' (wires out) \<and>
     (\<forall>st'. r = Inr st' \<longrightarrow> o' = wires out \<and> st' = foldl count_msg st out) \<and>
     (write_events (ln_sock s) = [] \<longrightarrow> (\<exists>st'. r = Inr st'))"
proof (induction out arbitrary: st s)
  case Nil
  then show ?case by (intro exI [of _ "[]"]) (auto simp: sent_on_refl)
next
  case (Cons m out)
  have "m \<noteq> EndPayload" using Cons.prems(2) by auto
  note b = write_one [OF this, of "map Inr out" st]
  obtain x u where x: "ln_write (wire_of m) s = (x, u)" by (cases "ln_write (wire_of m) s")
  from ln_write_log [OF x] obtain a where
    a: "sent_on s a u" "prefix a (wire_of m)" "x = Inr () \<longrightarrow> a = wire_of m"
      "write_events (ln_sock s) = [] \<longrightarrow> x = Inr ()" by blast
  show ?case
  proof (cases x)
    case (Inl e)
    with Cons.prems b x have "r = Inl e" "t = u" by simp_all
    with a Inl show ?thesis by (intro exI [of _ a]) auto
  next
    case (Inr v)
    with Cons.prems b x have "write_items (map Inr out) (count_msg st m) (displayed m u) = (r, t)" by simp
    from Cons.IH [OF this] Cons.prems(2) obtain o' where
      o': "sent_on (displayed m u) o' t" "prefix o' (wires out)"
        "\<forall>st'. r = Inr st' \<longrightarrow> o' = wires out \<and> st' = foldl count_msg (count_msg st m) out"
        "write_events (ln_sock (displayed m u)) = [] \<longrightarrow> (\<exists>st'. r = Inr st')" by auto
    have "sent_on s (wire_of m @ o') t"
      using a(1,3) Inr o'(1) by (simp add: sent_on_def)
    with o' a(1) show ?thesis by (intro exI [of _ "wire_of m @ o'"]) (auto simp: sent_on_def)
  qed
qed

lemma write_items_append:
  "write_items (xs @ ys) st s =
     (case write_items xs st s of (Inl e, t) \<Rightarrow> (Inl e, t) | (Inr st', t) \<Rightarrow> write_items ys st' t)"
proof (induction xs arbitrary: st s)
  case (Cons x xs)
  show ?case
  proof (cases x)
    case (Inr m)
    show ?thesis
    proof (cases "m = EndPayload")
      case False
      with Inr Cons write_one [OF False] show ?thesis
        by (simp add: io_bind_def del: write_items.simps split: prod.splits sum.splits)
    qed (use Inr in simp)
  qed simp
qed simp

text \<open>The counts are those of the items.\<close>

lemma count_chunks:
  "proper bufs \<Longrightarrow> foldl count_msg st (map chunk_msg bufs) =
     st\<lparr>st_bytes := st_bytes st + word_of_nat (length (lives bufs))\<rparr>"
  by (induction bufs arbitrary: st)
    (auto simp: proper_def chunk_msg_def min_def add.assoc)

lemma count_hashed:
  "hash_items B h (map Inr xs) = map Inr ys \<Longrightarrow> foldl count_msg st ys = foldl count_msg st xs"
proof (induction xs arbitrary: h ys st)
  case (Cons x xs)
  then show ?case by (cases x) (auto simp: Cons_eq_map_conv split: prod.splits)
qed simp

lemma count_utters:
  "utters B verify items ps full \<Longrightarrow> \<forall>i \<in> set items. e_kind (i_entry i) \<noteq> End \<Longrightarrow>
   foldl count_msg st full = foldl count_item st (items_of items ps)"
proof (induction items arbitrary: ps full st)
  case (Cons i items)
  from Cons.prems(1) obtain p qs body rest where
    u: "ps = p # qs" "full = Header (i_header i) # body @ rest" "body_of B verify (i_entry i) p body"
      "utters B verify items qs rest" by auto
  have "foldl count_msg (count_msg st (Header (i_header i))) body = count_item st (i_entry i, p)"
    using u(3) Cons.prems(2)
    by (auto simp: body_of_def payload_len_def count_item_def moved_bytes_def count_chunks split: kind.splits)
  with Cons u show ?case by (simp add: items_of_def)
qed (simp add: items_of_def)

end
