(* ===== verification/Lane.thy ===== *)
theory Lane
  imports SendLog
begin

text \<open>
  One flow of the sender as a whole: what \<open>send_lane_inner\<close> leaves on the connection, in every
  case; the dealing of items over the flows; and the bits of the manifest answer.
\<close>

section \<open>When a channel closes\<close>

text \<open>The flow when its writing loop starts.\<close>

definition lane_started :: "'h blake3 \<Rightarrow> bool \<Rightarrow> source_item list \<Rightarrow> lane \<Rightarrow> lane" where
  "lane_started B verify items s =
     (let rd = run_reader B verify items s in s\<lparr>ln_prog := rd_prog rd, ln_diag := rd_diag rd\<rparr>)"

text \<open>
  The documented behaviour of \<open>sync_channel\<close>: a send or a receive fails only when the other
  end was dropped. The writing loop holds the far end of both channels and drops them only
  when it returns; so a reader that finds one closed finds it after the loop has failed on
  the messages sent before. \<open>Pipeline\<close> shows this of the threads under every schedule.
\<close>

definition closes_after_failure :: "'h blake3 \<Rightarrow> bool \<Rightarrow> source_item list \<Rightarrow> stats \<Rightarrow> lane \<Rightarrow> bool" where
  "closes_after_failure B verify items st s \<longleftrightarrow>
     (let rd = run_reader B verify items s
      in \<forall>h. rd_hung rd = Some h \<longrightarrow>
           (\<exists>err t. write_items (take h (to_socket B verify (rd_sent rd))) st (lane_started B verify items s)
              = (Inl err, t)))"

lemma to_socket_append:
  "\<exists>h. to_socket B verify (xs @ ys) = to_socket B verify xs @ (if verify then hash_items B h ys else ys)"
  by (auto simp: to_socket_def hash_items_append)

lemma to_socket_take: "take n (to_socket B verify xs) = to_socket B verify (take n xs)"
  by (simp add: to_socket_def take_hash_items)

lemma to_socket_error: "to_socket B verify (xs @ [Inl err]) = to_socket B verify xs @ [Inl err]"
  by (simp add: to_socket_def hash_items_append)

lemma prefix_wires: "prefix (wires (take n out)) (wires out)"
proof -
  have "wires out = wires (take n out) @ wires (drop n out)"
    by (metis append_take_drop_id concat_append map_append)
  then show ?thesis by (simp add: prefix_def)
qed

lemma payload_lengths:
  "utters B verify items ps full \<Longrightarrow> length ps = length items \<and>
     (\<forall>it \<in> set (items_of items ps). length (snd it) = payload_len (fst it))"
proof (induction items arbitrary: ps full)
  case (Cons i items)
  then obtain p qs body rest where
    "ps = p # qs" "body_of B verify (i_entry i) p body" "utters B verify items qs rest" by auto
  with Cons.IH [OF this(3)] show ?case by (auto simp: items_of_def body_of_def)
qed (simp add: items_of_def)

section \<open>The flow\<close>

text \<open>What was put on the connection, given how the flow ended.\<close>

definition lane_says ::
  "'h blake3 \<Rightarrow> bool \<Rightarrow> (nat \<Rightarrow> sight) \<Rightarrow> source_item list \<Rightarrow> stats \<Rightarrow> stats result \<Rightarrow> bytes \<Rightarrow> bool" where
  "lane_says B verify disk items st r out \<longleftrightarrow>
     (\<exists>ps. length ps = length items \<and>
        (\<forall>it \<in> set (items_of items ps). length (snd it) = payload_len (fst it)) \<and>
        (case r of
           Inr st' \<Rightarrow> out = frames B verify items ps @ write_terminator \<and> shown disk items ps \<and>
             st' = foldl count_item st (items_of items ps)
         | Inl err \<Rightarrow> strict_prefix out (frames B verify items ps @ write_terminator)))"

lemma strict_frames: "prefix out fr \<Longrightarrow> strict_prefix out (fr @ write_terminator)"
  by (auto simp: strict_prefix_def prefix_def write_terminator_def)

lemma ln_write_terminator:
  assumes "ln_write write_terminator s = (r, t)"
  shows "\<exists>out. sent_on s out t \<and> (case r of Inl e \<Rightarrow> out = [] | Inr _ \<Rightarrow> out = write_terminator) \<and>
    (write_events (ln_sock s) = [] \<longrightarrow> r = Inr ())"
  using assms
  by (auto simp: ln_write_def zoom_eq sock_write_all_def sent_on_def write_terminator_def
      split: list.splits write_event.splits)

text \<open>The writing loop on what the reader said: on a part of a whole account it writes a part of it.\<close>

lemma write_cut:
  assumes o: "to_socket B verify (map Inr full) = map Inr out" "EndPayload \<notin> set out"
    and p: "prefix pre full" and w: "write_items (to_socket B verify (map Inr pre)) st s = (y, w)"
  shows "\<exists>o'. sent_on s o' w \<and> prefix o' (wires out)"
proof -
  have "map Inr pre = take (length pre) (map Inr full :: out_msg result list)"
    using p by (auto simp: prefix_def)
  then have "to_socket B verify (map Inr pre) = map Inr (take (length pre) out)"
    using o(1) to_socket_take [of "length pre" B verify "map Inr full"] by (simp add: take_map)
  moreover have "EndPayload \<notin> set (take (length pre) out)" using o(2) by (auto dest: in_set_takeD)
  ultimately obtain o' where "sent_on s o' w" "prefix o' (wires (take (length pre) out))"
    using write_items_log w by metis
  with prefix_wires [of "length pre" out] show ?thesis by (blast intro: prefix_order.trans)
qed

text \<open>A reader that stopped makes the writing loop fail where it stopped.\<close>

lemma write_broken:
  assumes stop: "(\<exists>err. said = map Inr pre @ [Inl err]) \<or>
      (\<exists>h err t. take h said = map Inr pre \<and> write_items (take h (to_socket B verify said)) st s = (Inl err, t))"
    and x: "write_items (to_socket B verify said) st s = (x, w)"
  shows "(\<exists>err. x = Inl err) \<and> (\<exists>y. write_items (to_socket B verify (map Inr pre)) st s = (y, w))"
proof -
  obtain y q where y: "write_items (to_socket B verify (map Inr pre)) st s = (y, q)"
    by (cases "write_items (to_socket B verify (map Inr pre)) st s")
  from stop have "w = q \<and> (\<exists>err. x = Inl err)"
  proof (elim disjE exE conjE)
    fix err assume "said = map Inr pre @ [Inl err]"
    with x y show ?thesis by (auto simp: to_socket_error write_items_append split: sum.splits)
  next
    fix h err t' assume h: "take h said = map Inr pre"
      "write_items (take h (to_socket B verify said)) st s = (Inl err, t')"
    with to_socket_take [of h B verify said] y have "y = Inl err" by simp
    moreover have "to_socket B verify said = to_socket B verify (map Inr pre) @ drop h (to_socket B verify said)"
      using to_socket_take [of h B verify said] h(1) by (metis append_take_drop_id)
    ultimately show ?thesis
      using x y write_items_append [of "to_socket B verify (map Inr pre)" "drop h (to_socket B verify said)" st s]
      by auto
  qed
  with y show ?thesis by blast
qed

lemma count_to_socket:
  assumes "to_socket B verify (map Inr full) = map Inr out"
  shows "foldl count_msg st out = foldl count_msg st full"
proof (cases verify)
  case True
  with assms count_hashed show ?thesis by (auto simp: to_socket_def)
next
  case False
  with assms have "map Inr full = (map Inr out :: out_msg result list)" by (simp add: to_socket_def)
  then have "full = out" using inj_map_eq_map [of "Inr :: _ \<Rightarrow> out_msg result"] by (simp add: inj_def)
  then show ?thesis by simp
qed

lemma send_lane_log:
  assumes e: "send_lane_inner B verify items st s = (r, t)" and B: "blake3_ok B absorbed"
    and snd: "\<forall>i \<in> set items. sound_item i" and cl: "closes_after_failure B verify items st s"
  shows "\<exists>out. sent_on s out t \<and> lane_says B verify (ln_disk s) items st r out"
proof -
  define rd where "rd = run_reader B verify items s"
  define s0 where "s0 = lane_started B verify items s"
  have s0: "ln_sock s0 = ln_sock s" by (simp add: s0_def lane_started_def Let_def)
  let ?ms = "to_socket B verify (rd_sent rd)"
  have ends: "\<forall>i \<in> set items. e_kind (i_entry i) \<noteq> End" using snd by (auto simp: sound_item_def)
  obtain v where "read_items B verify items (rd_start s) = (v, rd)"
    by (metis rd_def run_reader_def surjective_pairing)
  from read_items_log [OF this ends] obtain ps full where
    u: "utters B verify items ps full"
      "rd_hung rd = None \<and> rd_sent rd = map Inr full \<and> shown (ln_disk s) items ps \<or>
       broken (rd_start s) full (rd_sent rd) rd"
    by (auto simp: rd_start_def extends_def)
  from to_socket_utters [OF B u(1) snd] obtain out where
    o: "to_socket B verify (map Inr full) = map Inr out" "EndPayload \<notin> set out" "wires out = frames B verify items ps"
    by blast
  note pl = payload_lengths [OF u(1)]
  obtain x w where x: "write_items ?ms st s0 = (x, w)" by (cases "write_items ?ms st s0")
  have r: "(r, t) = (case x of Inl err \<Rightarrow> (Inl err, w)
      | Inr st' \<Rightarrow> io_bind (ln_write write_terminator) (\<lambda>_. io_return st') w)"
    using e x by (auto simp: send_lane_inner_def rd_def s0_def lane_started_def Let_def io_bind_def split: sum.splits)
  from u(2) show ?thesis
  proof
    assume d: "rd_hung rd = None \<and> rd_sent rd = map Inr full \<and> shown (ln_disk s) items ps"
    with x o have "write_items (map Inr out) st s0 = (x, w)" by simp
    from write_items_log [OF this o(2)] obtain o' where
      w: "sent_on s0 o' w" "prefix o' (wires out)" "\<forall>st'. x = Inr st' \<longrightarrow> o' = wires out \<and> st' = foldl count_msg st out"
      by blast
    have sw: "sent_on s o' w" using w(1) s0 by (simp add: sent_on_def)
    show ?thesis
    proof (cases x)
      case (Inl err)
      with r w(2) o(3) sw pl show ?thesis
        unfolding lane_says_def by (intro exI [of _ o']) (auto intro!: exI [of _ ps] strict_frames)
    next
      case (Inr st')
      obtain y q where y: "ln_write write_terminator w = (y, q)" by (cases "ln_write write_terminator w")
      from ln_write_terminator [OF y] obtain z where
        z: "sent_on w z q" "case y of Inl e \<Rightarrow> z = [] | Inr _ \<Rightarrow> z = write_terminator" by blast
      note sq = sent_on_trans [OF sw z(1)]
      from w(3) Inr o(3) have o': "o' = frames B verify items ps" by simp
      have "st' = foldl count_item st (items_of items ps)"
        using w(3) Inr count_utters [OF u(1) ends] count_to_socket [OF o(1)] by simp
      with r Inr y z(2) sq o' pl d show ?thesis
        unfolding lane_says_def
        by (cases y) (auto simp: io_bind_def strict_frames intro!: exI [of _ "o' @ z"] exI [of _ ps])
    qed
  next
    assume b: "broken (rd_start s) full (rd_sent rd) rd"
    then obtain pre where pre: "prefix pre full"
        "(\<exists>err. rd_hung rd = None \<and> rd_sent rd = map Inr pre @ [Inl err]) \<or>
         (\<exists>h. rd_hung rd = Some h \<and> take h (rd_sent rd) = map Inr pre)"
      by (auto simp: broken_def rd_start_def)
    have "(\<exists>err. rd_sent rd = map Inr pre @ [Inl err]) \<or>
        (\<exists>h err t. take h (rd_sent rd) = map Inr pre \<and> write_items (take h ?ms) st s0 = (Inl err, t))"
      using pre(2) cl unfolding closes_after_failure_def Let_def rd_def [symmetric] s0_def [symmetric] by blast
    from write_broken [OF this x] obtain err y where
      bad: "x = Inl err" "write_items (to_socket B verify (map Inr pre)) st s0 = (y, w)" by blast
    from write_cut [OF o(1,2) pre(1) bad(2)] o(3) s0 obtain o' where
      "sent_on s o' w" "prefix o' (frames B verify items ps)" by (auto simp: sent_on_def)
    with r bad(1) pl show ?thesis
      unfolding lane_says_def by (intro exI [of _ o']) (auto intro!: exI [of _ ps] strict_frames)
  qed
qed


section \<open>Dealing\<close>

lemma length_deal_loop: "length (deal_loop cnt i xs lanes) = length lanes"
  by (induction xs arbitrary: i lanes) simp_all

lemma deal_loop_nths:
  "0 < cnt \<Longrightarrow> length lanes = cnt \<Longrightarrow> l < cnt \<Longrightarrow>
   deal_loop cnt i xs lanes ! l = lanes ! l @ nths xs {n. (i + n) mod cnt = l}"
  by (induction xs arbitrary: i lanes) (auto simp: nths_Cons nth_list_update)

lemma mset_concat_update:
  "l < length xss \<Longrightarrow> mset (concat (xss[l := xss ! l @ [x]])) = add_mset x (mset (concat xss))"
  by (induction xss arbitrary: l) (auto split: nat.splits)

lemma deal_loop_mset:
  "0 < cnt \<Longrightarrow> length lanes = cnt \<Longrightarrow> mset (concat (deal_loop cnt i xs lanes)) = mset (concat lanes) + mset xs"
  by (induction xs arbitrary: i lanes) (simp_all add: mset_concat_update del: mset_concat)

section \<open>The manifest answer\<close>

text \<open>
  How many files come before the \<open>n\<close>-th item, and whether the answer says the receiver has
  that item: the bits line up with the files, in order, and a short answer says nothing of
  the rest.
\<close>

definition file_rank :: "source_item list \<Rightarrow> nat \<Rightarrow> nat" where
  "file_rank items n = length (filter (\<lambda>i. e_kind (i_entry i) = File) (take n items))"

definition answered :: "source_item list \<Rightarrow> bool list \<Rightarrow> nat \<Rightarrow> bool" where
  "answered items bits n \<longleftrightarrow>
     n < length items \<and> e_kind (i_entry (items ! n)) = File \<and>
     file_rank items n < length bits \<and> bits ! file_rank items n"

lemma file_rank_simps [simp]:
  "file_rank items 0 = 0"
  "file_rank (i # items) (Suc n) = (if e_kind (i_entry i) = File then 1 else 0) + file_rank items n"
  by (simp_all add: file_rank_def)

lemma answered_simps:
  "answered (i # items) bits 0 \<longleftrightarrow> e_kind (i_entry i) = File \<and> bits \<noteq> [] \<and> hd bits"
  "answered (i # items) bits (Suc n) \<longleftrightarrow>
     answered items (if e_kind (i_entry i) = File then tl bits else bits) n"
  by (cases bits; auto simp: answered_def)+

lemma keep_loop_nths:
  "keep_loop st items bits = (kept, st') \<Longrightarrow>
   kept = nths items {n. \<not> answered items bits n} \<and>
   st' = st\<lparr>st_skipped_files := st_skipped_files st + word_of_nat (length (nths items {n. answered items bits n})),
            st_skipped_bytes := st_skipped_bytes st +
              sum_list (map (\<lambda>i. e_size (i_entry i)) (nths items {n. answered items bits n}))\<rparr>"
proof (induction items arbitrary: st bits kept st')
  case (Cons i items)
  show ?case
  proof (cases "e_kind (i_entry i) = File \<and> bits \<noteq> [] \<and> hd bits")
    case True
    then obtain bs where h: "bits = True # bs" by (cases bits) auto
    with Cons.prems True have
      "keep_loop (st\<lparr>st_skipped_files := st_skipped_files st + 1,
                    st_skipped_bytes := st_skipped_bytes st + e_size (i_entry i)\<rparr>) items bs = (kept, st')"
      by simp
    from Cons.IH [OF this] h True show ?thesis
      by (simp add: nths_Cons answered_simps add_ac)
  next
    case False
    let ?rest = "if e_kind (i_entry i) = File then tl bits else bits"
    obtain k q where k: "keep_loop st items ?rest = (k, q)" by fastforce
    have "kept = i # k \<and> st' = q"
      using Cons.prems False k by (cases bits) (auto split: if_splits bool.splits)
    with Cons.IH [OF k] False show ?thesis by (auto simp: nths_Cons answered_simps)
  qed
qed simp

end
