(* ===== verification/LaneLive.thy ===== *)
theory LaneLive
  imports Lane
begin

text \<open>
  The sender does its work: when the disk still shows what the walk announced and nothing
  fails, a flow sends its whole stream.
\<close>

section \<open>Reading\<close>

definition file_healthy :: "disk_file \<Rightarrow> bool" where
  "file_healthy f \<longleftrightarrow> (\<forall>e. Fail e \<in> set (df_events f) \<longrightarrow> e = EINTR)"

text \<open>The disk shows, of an entry, what was announced.\<close>

definition still_there :: "sight \<Rightarrow> entry \<Rightarrow> bool" where
  "still_there si e \<longleftrightarrow>
     (case e_kind e of
        Symlink \<Rightarrow> \<exists>target. si_link si = Inr target \<and> length (to_string_lossy target) = unat (e_size e)
      | File \<Rightarrow> \<exists>f. si_file si = Inr f \<and> unat (e_size e) \<le> length (df_rest f) \<and> file_healthy f
      | _ \<Rightarrow> True)"

fun all_there :: "(nat \<Rightarrow> sight) \<Rightarrow> source_item list \<Rightarrow> bool" where
  "all_there disk [] \<longleftrightarrow> True"
| "all_there disk (i # is) \<longleftrightarrow> still_there (disk 0) (i_entry i) \<and> all_there (\<lambda>n. disk (Suc n)) is"

text \<open>A buffer carries a byte at least, so a file takes at most its size in buffers.\<close>

definition buffers_of :: "source_item \<Rightarrow> nat" where
  "buffers_of i = (if e_kind (i_entry i) = File then unat (e_size (i_entry i)) else 0)"

lemma disk_read_cases:
  assumes "file_healthy f"
  shows "(\<exists>bs g. disk_read n f = (Inr bs, g) \<and> file_healthy g) \<or>
    (\<exists>g. disk_read n f = (Inl (OsError EINTR), g) \<and> file_healthy g)"
  using assms by (auto simp: disk_read_def file_healthy_def Let_def split: list.splits sock_event.splits)

lemma fill_live:
  "file_healthy f \<Longrightarrow> length filled \<le> want \<Longrightarrow> want \<le> length filled + length (df_rest f) \<Longrightarrow>
   \<exists>got g. fill want filled f = (Inr got, g) \<and> file_healthy g \<and> length got = want"
proof (induction want filled f rule: fill.induct)
  case (1 want filled f)
  show ?case
  proof (cases "length filled < want")
    case True
    from disk_read_cases [OF "1.prems"(1), of "want - length filled"] show ?thesis
    proof (elim disjE exE conjE)
      fix g assume d: "disk_read (want - length filled) f = (Inl (OsError EINTR), g)" "file_healthy g"
      from disk_read_Inl [OF d(1)] "1.prems" "1.IH"(1) [OF True d(1) [symmetric] refl _ d(2)] True d(1)
      show ?thesis by (subst fill.simps) simp
    next
      fix bs g assume d: "disk_read (want - length filled) f = (Inr bs, g)" "file_healthy g"
      note r = disk_read_Inr [OF d(1)]
      have ne: "bs \<noteq> []" using r "1.prems"(3) True by auto
      have "length (filled @ bs) \<le> want" "want \<le> length (filled @ bs) + length (df_rest g)"
        using r "1.prems"(3) True by (auto simp: le_diff_conv2)
      from "1.IH"(2) [OF True d(1) [symmetric] refl ne d(2) this] True d(1) ne
      show ?thesis by (subst fill.simps) simp
    qed
  next
    case False
    with "1.prems" show ?thesis by (subst fill.simps) auto
  qed
qed

text \<open>The channel to the next stage stays open.\<close>

lemma tx_send_open:
  "rd_room s = None \<Longrightarrow>
   \<exists>t. tx_send m s = (Inr True, t) \<and> rd_room t = None \<and> rd_pool t = rd_pool s \<and> rd_disk t = rd_disk s \<and>
     rd_hung t = rd_hung s \<and> extends s [m] t"
  by (auto simp: tx_send_def extends_def split: option.splits)

lemma chunk_loop_live:
  "rd_room s = None \<Longrightarrow> file_healthy f \<Longrightarrow> sent \<le> e_size e \<Longrightarrow>
   unat (e_size e - sent) \<le> length (df_rest f) \<Longrightarrow> unat (e_size e - sent) \<le> length (rd_pool s) \<Longrightarrow>
   turns = length (rd_pool s) \<Longrightarrow>
   \<exists>t. chunk_loop turns e sent f s = (Inr True, t) \<and> rd_room t = None \<and>
     length (rd_pool s) \<le> length (rd_pool t) + unat (e_size e - sent)"
proof (induction turns arbitrary: sent f s)
  case 0
  then have "e_size e - sent = 0" by (simp add: unat_eq_zero)
  with 0 show ?case by (simp add: chunk_loop.simps)
next
  case (Suc turns)
  show ?case
  proof (cases "sent < e_size e")
    case False
    with Suc.prems show ?thesis by (simp add: chunk_loop.simps)
  next
    case True
    let ?w = "min (e_size e - sent) (word_of_nat CHUNK)"
    obtain st buf pool where p: "rd_pool s = (st, buf) # pool"
      using Suc.prems(6) by (cases "rd_pool s") auto
    then obtain u where u: "pool_recv s = (Inr (Some buf), u)" "rd_pool u = pool" "rd_room u = None"
      using Suc.prems(1) by (cases st) (auto simp: pool_recv_def rd_count_def io_bind_def)
    have wle: "?w \<le> e_size e - sent" by simp
    then have wn: "unat ?w \<le> unat (e_size e - sent)" by (simp add: word_le_nat_alt)
    have pos: "0 < unat ?w"
    proof -
      have "?w \<noteq> 0" using True by (auto simp: min_def CHUNK_def)
      then show ?thesis by (simp add: unat_gt_0)
    qed
    note adv = u64_advance [OF Suc.prems(3) wle]
    from fill_live [OF Suc.prems(2), of "[]" "unat ?w"] Suc.prems(4) wn obtain got g where
      f: "fill (unat ?w) [] f = (Inr got, g)" "file_healthy g" "length got = unat ?w" by auto
    have rest: "length (df_rest f) = length got + length (df_rest g)"
      using fill_ok [OF f(1)] by (metis append_Nil length_append list.size(3) zero_le)
    have ww: "word_of_nat (length got) = ?w" using f(3) by simp
    obtain v where v: "rd_count (\<lambda>d. queued (d\<lparr>d_disk_bytes := d_disk_bytes d + ?w\<rparr>)) u = (Inr (), v)"
        "rd_room v = None" "rd_pool v = pool"
      using u by (simp add: rd_count_def)
    from tx_send_open [OF v(2), of "Inr (Chunk (got @ drop (length got) buf) (length got))"] obtain q where
      q: "tx_send (Inr (Chunk (got @ drop (length got) buf) (length got))) v = (Inr True, q)"
        "rd_room q = None" "rd_pool q = pool" using v(3) by auto
    have step: "chunk_loop (Suc turns) e sent f s = chunk_loop turns e (sent + ?w) g q"
      using u(1) True f v(1) q(1) ww by (simp add: chunk_loop.simps Let_def io_bind_def)
    have a: "unat (e_size e - (sent + ?w)) \<le> length (df_rest g)"
      using adv Suc.prems(4) rest f(3) wn by linarith
    have b: "unat (e_size e - (sent + ?w)) \<le> length (rd_pool q)"
      using adv Suc.prems(5) p q(3) pos by simp
    have c: "turns = length (rd_pool q)" using Suc.prems(6) p q(3) by simp
    from Suc.IH [OF q(2) f(2) _ a b c] adv obtain t where
      t: "chunk_loop turns e (sent + ?w) g q = (Inr True, t)" "rd_room t = None"
        "length (rd_pool q) \<le> length (rd_pool t) + unat (e_size e - (sent + ?w))" by blast
    have "length (rd_pool s) \<le> length (rd_pool t) + unat (e_size e - sent)"
      using t(3) adv p q(3) pos wn by simp
    with step t(1,2) show ?thesis by auto
  qed
qed


lemma payload_live:
  assumes room: "rd_room s = None" and there: "still_there si e" and k: "e_kind e \<noteq> End"
    and pool: "e_kind e = File \<Longrightarrow> unat (e_size e) \<le> length (rd_pool s)"
  shows "\<exists>t. send_payload B si here e verify s = (Inr True, t) \<and> rd_room t = None \<and> rd_hung t = rd_hung s \<and>
    length (rd_pool s) \<le> length (rd_pool t) + (if e_kind e = File then unat (e_size e) else 0)"
proof (cases "e_kind e")
  case Dir
  with room show ?thesis by (simp add: send_payload_def)
next
  case File
  with there obtain f where f: "si_file si = Inr f" "unat (e_size e) \<le> length (df_rest f)" "file_healthy f"
    by (auto simp: still_there_def)
  define v where "v = (if NOCACHE_MIN \<le> e_size e then s\<lparr>rd_uncached := rd_uncached s @ [here]\<rparr> else s)"
  have v: "rd_room v = None" "rd_pool v = rd_pool s" "rd_hung v = rd_hung s" using room by (simp_all add: v_def)
  from chunk_loop_live [OF v(1) f(3), of 0 e "length (rd_pool v)"] f(2) v(2) pool File obtain u where
    u: "chunk_loop (length (rd_pool v)) e 0 f v = (Inr True, u)" "rd_room u = None"
      "length (rd_pool s) \<le> length (rd_pool u) + unat (e_size e)" by auto
  have h: "rd_hung u = rd_hung v" using chunk_loop_log [OF u(1)] by auto
  have stream: "stream_file si here e verify s =
      (Inr (), if verify then snd (tx_send (Inr EndPayload) u) else u)"
    using f(1) u(1) by (auto simp: stream_file_def v_def io_bind_def tx_send_def u(2) split: if_splits)
  obtain q where q: "tx_send (Inr EndPayload) u = (Inr True, q)" "rd_room q = None" "rd_pool q = rd_pool u"
      "rd_hung q = rd_hung u"
    using tx_send_open [OF u(2)] by metis
  with stream File u h v(3) show ?thesis by (cases verify) (simp_all add: send_payload_def)
next
  case Symlink
  with there obtain tg where l: "si_link si = Inr tg" "length (to_string_lossy tg) = unat (e_size e)"
    by (auto simp: still_there_def)
  let ?bs = "to_string_lossy tg"
  obtain v where v: "rd_count (\<lambda>d. d\<lparr>d_disk_bytes := d_disk_bytes d + word_of_nat (length ?bs)\<rparr>) s = (Inr (), v)"
      "rd_room v = None" "rd_pool v = rd_pool s" "rd_hung v = rd_hung s"
    using room by (simp add: rd_count_def)
  obtain u where u: "tx_send (Inr (Target ?bs)) v = (Inr True, u)" "rd_room u = None" "rd_pool u = rd_pool v"
      "rd_hung u = rd_hung v"
    using tx_send_open [OF v(2)] by metis
  obtain q where q: "tx_send (Inr (Digest (digest B ?bs))) u = (Inr True, q)" "rd_room q = None"
      "rd_pool q = rd_pool u" "rd_hung q = rd_hung u"
    using tx_send_open [OF u(2)] by metis
  have "stream_link B si e verify s = (Inr True, if verify then q else u)"
    using l v(1) u(1) q(1) by (simp add: stream_link_def Let_def io_bind_def)
  with Symlink v u q show ?thesis by (simp add: send_payload_def)
qed (use k in simp)

lemma read_items_live:
  "rd_room s = None \<Longrightarrow> rd_hung s = None \<Longrightarrow> \<forall>i \<in> set items. e_kind (i_entry i) \<noteq> End \<Longrightarrow>
   all_there (rd_disk s) items \<Longrightarrow> sum_list (map buffers_of items) \<le> length (rd_pool s) \<Longrightarrow>
   \<exists>t ps full. read_items B verify items s = (Inr (), t) \<and> rd_hung t = None \<and>
     utters B verify items ps full \<and> shown (rd_disk s) items ps \<and> extends s (map Inr full) t"
proof (induction items arbitrary: s)
  case Nil
  then show ?case by (auto intro!: exI [of _ "[]"])
next
  case (Cons i items)
  let ?e = "i_entry i" and ?h = "Header (i_header i)"
  have k: "e_kind ?e \<noteq> End" "\<forall>i \<in> set items. e_kind (i_entry i) \<noteq> End" using Cons.prems(3) by auto
  obtain a where a: "rd_progress (set_current (e_path ?e)) s = (Inr (), a)" "rd_disk a = rd_disk s" "rd_hung a = None"
      "rd_room a = None" "rd_pool a = rd_pool s" "extends s [] a"
    using Cons.prems(1,2) by (auto simp: rd_progress_def extends_def)
  from tx_send_open [OF a(4), of "Inr ?h"] obtain u where
    u: "tx_send (Inr ?h) a = (Inr True, u)" "rd_room u = None" "rd_pool u = rd_pool s" "rd_disk u = rd_disk s"
      "rd_hung u = None" "extends a [Inr ?h] u"
    using a by auto
  obtain v where v: "io_bind (rd_count (rd_kind (e_kind ?e))) (\<lambda>_. rd_look) u = (Inr (rd_disk s 0), v)"
      "extends u [] v" "rd_hung v = None" "rd_disk v = (\<lambda>n. rd_disk s (Suc n))" "rd_room v = None"
      "rd_pool v = rd_pool s"
    using u by (auto simp: rd_count_def rd_look_def extends_def)
  have sv: "extends s [Inr ?h] v" using extends_trans [OF extends_trans [OF a(6) u(6)] v(2)] by simp
  have size: "e_kind ?e = File \<Longrightarrow> unat (e_size ?e) \<le> length (rd_pool v)"
    using Cons.prems(5) v(6) by (simp add: buffers_of_def)
  from payload_live [OF v(5) _ k(1) size, of "rd_disk s 0" B "i_abs i" verify] Cons.prems(4) obtain w where
    w: "send_payload B (rd_disk s 0) (i_abs i) ?e verify v = (Inr True, w)" "rd_room w = None" "rd_hung w = None"
      "length (rd_pool v) \<le> length (rd_pool w) + buffers_of i"
    unfolding buffers_of_def using v(3) by auto
  from payload_log [OF w(1) k(1)] w(3) obtain p body where
    b: "rd_disk w = rd_disk v" "body_of B verify ?e p body" "extends v (map Inr body) w"
      "shows_payload (rd_disk s 0) ?e p"
    unfolding ends_def by auto
  let ?q = "w\<lparr>rd_prog := finish_file (rd_prog w)\<rparr>"
  have "extends w [] ?q" by (intro extends_same) auto
  note sq = extends_trans [OF extends_trans [OF sv b(3)] this]
  have step: "read_items B verify (i # items) s = read_items B verify items ?q"
    using a(1) u(1,4) v(1) w(1)
    by (simp add: Let_def io_bind_def rd_progress_def rd_count_def rd_look_def)
  have q: "rd_room ?q = None" "rd_hung ?q = None" "all_there (rd_disk ?q) items"
      "sum_list (map buffers_of items) \<le> length (rd_pool ?q)"
    using w b(1) v(4,6) Cons.prems(4,5) by simp_all
  from Cons.IH [OF q(1,2) k(2) q(3,4)] obtain t ps full where
    t: "read_items B verify items ?q = (Inr (), t)" "rd_hung t = None" "utters B verify items ps full"
      "shown (rd_disk ?q) items ps" "extends ?q (map Inr full) t" by blast
  have "extends s (map Inr (?h # body @ full)) t" using extends_trans [OF sq t(5)] by simp
  moreover have "utters B verify (i # items) (p # ps) (?h # body @ full)" using t(3) b(2) by auto
  moreover have "shown (rd_disk s) (i # items) (p # ps)" using t(4) b(1,4) v(4) by auto
  moreover have "read_items B verify (i # items) s = (Inr (), t)" using step t(1) by simp
  ultimately show ?case using t(2) by blast
qed

text \<open>A flow on a connection that takes every write.\<close>

lemma send_lane_live:
  assumes B: "blake3_ok B absorbed" and "ln_room s = None" and "write_events (ln_sock s) = []"
    and snd: "\<forall>i \<in> set items. sound_item i" and "all_there (ln_disk s) items"
    and "sum_list (map buffers_of items) \<le> length (ln_pool s)"
  shows "\<exists>t ps. send_lane_inner B verify items st s = (Inr (foldl count_item st (items_of items ps)), t) \<and>
    length ps = length items \<and> (\<forall>it \<in> set (items_of items ps). length (snd it) = payload_len (fst it)) \<and>
    sent_on s (frames B verify items ps @ write_terminator) t \<and> shown (ln_disk s) items ps \<and>
    closes_after_failure B verify items st s"
proof -
  have ends: "\<forall>i \<in> set items. e_kind (i_entry i) \<noteq> End" using snd by (auto simp: sound_item_def)
  from read_items_live [OF _ _ ends, of "rd_start s" B verify] assms(2,5,6) obtain rd ps full where
    r: "read_items B verify items (rd_start s) = (Inr (), rd)" "rd_hung rd = None" "utters B verify items ps full"
      "shown (ln_disk s) items ps" "extends (rd_start s) (map Inr full) rd"
    by (auto simp: rd_start_def)
  have rd: "run_reader B verify items s = rd" using r(1) by (simp add: run_reader_def)
  have cl: "closes_after_failure B verify items st s" using r(2) rd by (simp add: closes_after_failure_def Let_def)
  obtain x t where x: "send_lane_inner B verify items st s = (x, t)"
    by (cases "send_lane_inner B verify items st s")
  from to_socket_utters [OF B r(3) snd] obtain out where
    o: "to_socket B verify (rd_sent rd) = map Inr out" "EndPayload \<notin> set out" "wires out = frames B verify items ps"
    using r(5) by (auto simp: extends_def rd_start_def)
  let ?s0 = "s\<lparr>ln_prog := rd_prog rd, ln_diag := rd_diag rd\<rparr>"
  obtain y w where y: "write_items (map Inr out) st ?s0 = (y, w)" by (cases "write_items (map Inr out) st ?s0")
  from write_items_log [OF y o(2)] assms(3) obtain st' where
    w: "y = Inr st'" "sent_on ?s0 (wires out) w" by auto
  then have we: "write_events (ln_sock w) = []" using assms(3) by (simp add: sent_on_def)
  obtain z q where z: "ln_write write_terminator w = (z, q)" by (cases "ln_write write_terminator w")
  with ln_write_terminator [OF z] we have "z = Inr ()" by blast
  then have "x = Inr st'" using x y w(1) z o(1) rd by (simp add: send_lane_inner_def Let_def)
  obtain o' where l: "sent_on s o' t" "lane_says B verify (ln_disk s) items st x o'"
    using send_lane_log [OF x B snd cl] by blast
  from l(2) \<open>x = Inr st'\<close> obtain qs where
    "length qs = length items" "\<forall>it \<in> set (items_of items qs). length (snd it) = payload_len (fst it)"
    "o' = frames B verify items qs @ write_terminator" "shown (ln_disk s) items qs"
    "st' = foldl count_item st (items_of items qs)"
    by (auto simp: lane_says_def)
  with x l(1) \<open>x = Inr st'\<close> cl show ?thesis by blast
qed

end
