(* ===== verification/Sending.thy ===== *)
theory Sending
  imports LaneLive
begin

text \<open>
  The properties of one flow of the sender, of the manifest bits and of the dealing, with
  concrete flows for their witnesses.
\<close>

section \<open>A flow\<close>

definition sample_src :: "source_item list" where
  "sample_src =
     [make_item (ascii ''/a'') (ascii ''a'') Dir 0 0x41ED 7,
      make_item (ascii ''/a/b'') (ascii ''a/b'') File 5 0x81A4 9]"

definition sample_sight :: "bytes \<Rightarrow> nat \<Rightarrow> sight" where
  "sample_sight bs n =
     \<lparr>si_link = Inl (OsError EINVAL), si_file = Inr \<lparr>df_rest = bs, df_events = [Avail 3, Fail EINTR]\<rparr>\<rparr>"

definition sample_lane :: "bytes \<Rightarrow> bytes \<Rightarrow> lane" where
  "sample_lane contents answer =
     \<lparr>ln_sock = \<lparr>incoming = answer, events = [], outgoing = [], write_events = []\<rparr>,
      ln_prog = progress_new [], ln_diag = None, ln_pool = replicate 5 (False, [0, 0, 0, 0, 0, 0]),
      ln_room = None, ln_disk = sample_sight contents\<rparr>"

lemma sample_src_sound: "\<forall>i \<in> set sample_src. sound_item i"
  by (simp add: sample_src_def utf8_ascii ascii_def)

lemma sample_src_wf: "\<forall>i \<in> set sample_src. wf_entry (i_entry i)"
  by (auto simp: sample_src_def make_item_def wf_entry_def utf8_ascii ascii_def Let_def)

lemma sample_src_there: "5 \<le> length contents \<Longrightarrow> all_there (sample_sight contents) sample_src"
  by (simp add: sample_src_def make_item_def still_there_def sample_sight_def file_healthy_def Let_def)

lemma sample_src_pool: "sum_list (map buffers_of sample_src) \<le> length (ln_pool (sample_lane contents answer))"
  by (simp add: sample_src_def sample_lane_def buffers_of_def make_item_def Let_def)

text \<open>A file that grew since the walk: the flow sends what it announced.\<close>

lemma sample_grown:
  obtains t ps where
    "send_lane fold_hasher True sample_src (sample_lane [1, 2, 3, 4, 5, 6] []) =
       (Inr (foldl count_item stats_default (items_of sample_src ps)), t)"
    "closes_after_failure fold_hasher True sample_src stats_default (sample_lane [1, 2, 3, 4, 5, 6] [])"
proof -
  have "all_there (ln_disk (sample_lane [1, 2, 3, 4, 5, 6] [])) sample_src"
    using sample_src_there [of "[1, 2, 3, 4, 5, 6]"] by (simp add: sample_lane_def)
  from send_lane_live [OF fold_hasher_ok _ _ sample_src_sound this sample_src_pool, of True stats_default] that
  show ?thesis unfolding send_lane_def by (auto simp: sample_lane_def)
qed

text \<open>
  C13. What a flow puts on its connection is always the beginning of a well-framed stream of
  its items, every payload as long as its header announced. If the flow succeeds it is all
  of it, each payload is what the disk showed when its turn came (a file that grew is cut at
  the announced size), and the counters are those of the items. If anything failed -- a file
  that shrank, a link that changed, a read or a write that failed -- it stops short of the
  end: no gap is ever padded, and the terminator is never sent.
\<close>

theorem flow_never_pads:
  assumes "send_lane B verify items s = (r, t)" and "blake3_ok B absorbed"
    and "\<forall>i \<in> set items. sound_item i" and "closes_after_failure B verify items stats_default s"
  shows "\<exists>out ps. outgoing (ln_sock t) = outgoing (ln_sock s) @ out \<and> length ps = length items \<and>
    (\<forall>it \<in> set (items_of items ps). length (snd it) = payload_len (fst it)) \<and>
    (case r of
       Inr st \<Rightarrow> out = frames B verify items ps @ write_terminator \<and> shown (ln_disk s) items ps \<and>
         st = foldl count_item stats_default (items_of items ps)
     | Inl err \<Rightarrow> strict_prefix out (frames B verify items ps @ write_terminator))"
  using send_lane_log [OF assms(1) [unfolded send_lane_def] assms(2-4)]
  unfolding lane_says_def sent_on_def by blast

theorem flow_never_pads_witness:
  "\<exists>t st ps. send_lane fold_hasher True sample_src (sample_lane [1, 2, 3, 4, 5, 6] []) = (Inr st, t) \<and>
     outgoing (ln_sock t) = frames fold_hasher True sample_src ps @ write_terminator \<and>
     shown (sample_sight [1, 2, 3, 4, 5, 6]) sample_src ps"
proof (rule sample_grown)
  fix t ps
  assume e: "send_lane fold_hasher True sample_src (sample_lane [1, 2, 3, 4, 5, 6] []) =
      (Inr (foldl count_item stats_default (items_of sample_src ps)), t)"
    and c: "closes_after_failure fold_hasher True sample_src stats_default (sample_lane [1, 2, 3, 4, 5, 6] [])"
  have "outgoing (ln_sock (sample_lane [1, 2, 3, 4, 5, 6] [])) = []"
      "ln_disk (sample_lane [1, 2, 3, 4, 5, 6] []) = sample_sight [1, 2, 3, 4, 5, 6]"
    by (simp_all add: sample_lane_def)
  with flow_never_pads [OF e fold_hasher_ok sample_src_sound c] e show ?thesis by auto
qed

section \<open>A flow that failed\<close>

lemma wf_frames:
  "length ps = length items \<Longrightarrow> \<forall>i \<in> set items. wf_entry (i_entry i) \<Longrightarrow>
   \<forall>it \<in> set (items_of items ps). length (snd it) = payload_len (fst it) \<Longrightarrow>
   \<forall>it \<in> set (items_of items ps). wf_item it"
  unfolding items_of_def wf_item_def by (fastforce dest: set_zip_leftD)

text \<open>What stops short of the end of one stream is not, with anything after it, another.\<close>

lemma strict_prefix_no_stream:
  assumes B: "blake3_ok B absorbed" and p: "strict_prefix out (concat (map (frame B verify) its) @ write_terminator)"
    and wf: "\<forall>it \<in> set its. wf_item it" and wf': "\<forall>it \<in> set its'. wf_item it"
  shows "out \<noteq> concat (map (frame B verify) its') @ write_terminator @ rest"
proof
  assume o: "out = concat (map (frame B verify) its') @ write_terminator @ rest"
  from p obtain z zs where "concat (map (frame B verify) its) @ write_terminator = out @ z # zs"
    by (elim strict_prefixE')
  with o have "concat (map (frame B verify) its) @ write_terminator @ [] =
      concat (map (frame B verify) its') @ write_terminator @ rest @ z # zs" by simp
  from stream_unique [OF B this wf wf'] show False by simp
qed

lemma silent_unless_stream:
  assumes e: "receive_entries B k dest verify durable s = (r, s')" and B: "blake3_ok B absorbed"
    and no: "\<And>its rest. \<forall>it \<in> set its. wf_item it \<Longrightarrow>
      staged_rem (n_in s) \<noteq> concat (map (frame B verify) its) @ write_terminator @ rest"
  shows "outgoing (s_stream (n_in s')) = outgoing (s_stream (n_in s)) \<and> (\<exists>err. r = Inl err)"
proof -
  obtain t where t: "new_registry durable s = (Inr (), t)" "n_in t = n_in s"
    by (simp add: new_registry_def)
  obtain x u where x: "run_pipeline B k dest verify durable t = (x, u)"
    by (cases "run_pipeline B k dest verify durable t")
  from run_pipeline_log [OF x B] obtain its fbs rest pre new where
    l: "received dest pre its fbs" "staged_rem (n_in t) = concat (map (frame B verify) its) @ rest"
      "same_out (n_in t) (n_in u)"
      "case x of Inl _ \<Rightarrow> \<exists>ok. session_log durable fbs ok new
       | Inr st \<Rightarrow> session_log durable fbs True new \<and> st = foldl count_item stats_default its \<and>
           rest = write_terminator @ staged_rem (n_in u)"
    by blast
  have "\<forall>it \<in> set its. wf_item it" using l(1) by (simp add: received_def)
  with no l(2,4) t(2) have "\<exists>err. x = Inl err" by (cases x) auto
  with e t x l(3) show ?thesis by (auto simp: receive_entries_def)
qed


text \<open>A file that shrank since the walk.\<close>

lemma sample_fill:
  "fill 5 [] \<lparr>df_rest = [1, 2, 3], df_events = [Avail 3, Fail EINTR]\<rparr> = (Inr [1, 2, 3], \<lparr>df_rest = [], df_events = []\<rparr>)"
  by (subst fill.simps, simp add: disk_read_def, subst fill.simps, simp add: disk_read_def,
      subst fill.simps, simp add: disk_read_def)

abbreviation sample_shrank :: io_error where
  "sample_shrank \<equiv> IoError InvalidData (FileShrank (ascii ''a/b'') 5 3)"

lemma sample_chunk:
  assumes "rd_pool s = replicate 5 (False, buf)"
  shows "chunk_loop 5 \<lparr>e_kind = File, e_path = ascii ''a/b'', e_size = 5, e_mode = 0x81A4, e_mtime = 9\<rparr> 0
      \<lparr>df_rest = [1, 2, 3], df_events = [Avail 3, Fail EINTR]\<rparr> s = (Inl sample_shrank, s\<lparr>rd_pool := replicate 4 (False, buf)\<rparr>)"
proof -
  have "replicate 5 (False, buf) = (False, buf) # replicate 4 (False, buf)" by (simp add: numeral_eq_Suc)
  with assms have "rd_pool s = (False, buf) # replicate 4 (False, buf)" by simp
  moreover   have "unat (min (5 :: u64) (word_of_nat CHUNK)) = 5" by (simp add: CHUNK_def min_def)
  ultimately show ?thesis
    using sample_fill by (subst chunk_loop.simps) (simp add: pool_recv_def Let_def)
qed

lemma sample_short:
  obtains t where
    "send_lane fold_hasher True sample_src (sample_lane [1, 2, 3] []) = (Inl sample_shrank, t)"
    "closes_after_failure fold_hasher True sample_src stats_default (sample_lane [1, 2, 3] [])"
proof -
  define rd where "rd = run_reader fold_hasher True sample_src (sample_lane [1, 2, 3] [])"
  have rd: "rd_hung rd = None \<and>
      rd_sent rd = map (Inr \<circ> Header \<circ> i_header) sample_src @ [Inl sample_shrank]"
    unfolding rd_def run_reader_def rd_start_def sample_lane_def sample_src_def
    by (simp add: make_item_def Let_def rd_progress_def tx_send_def rd_count_def rd_look_def send_payload_def
        stream_file_def sample_sight_def NOCACHE_MIN_def sample_chunk io_bind_def)
  obtain r t where r: "send_lane fold_hasher True sample_src (sample_lane [1, 2, 3] []) = (r, t)"
    by (cases "send_lane fold_hasher True sample_src (sample_lane [1, 2, 3] [])")
  have "r = Inl sample_shrank"
    using r rd unfolding send_lane_def send_lane_inner_def Let_def rd_def [symmetric]
    by (simp add: to_socket_def sample_src_def ln_write_def zoom_def sock_write_all_def sample_lane_def
        ln_count_def io_bind_def)
  moreover have "closes_after_failure fold_hasher True sample_src stats_default (sample_lane [1, 2, 3] [])"
    using rd unfolding closes_after_failure_def Let_def rd_def [symmetric] by simp
  ultimately show ?thesis using r that by blast
qed

text \<open>
  C14. A flow that fails is never acknowledged: a receiver that is given every byte the
  failed flow put on the connection, on any file system and however the bytes arrive,
  answers with an error and not with the acknowledgement.
\<close>

theorem failed_flow_not_acknowledged:
  assumes "send_lane B verify items s = (Inl err, t)" and "blake3_ok B absorbed"
    and "\<forall>i \<in> set items. sound_item i \<and> wf_entry (i_entry i)"
    and "closes_after_failure B verify items stats_default s"
    and "outgoing (ln_sock t) = outgoing (ln_sock s) @ staged_rem (n_in n)"
    and "receive_entries B k dest verify durable n = (r, n')"
  shows "outgoing (s_stream (n_in n')) = outgoing (s_stream (n_in n)) \<and> (\<exists>e. r = Inl e)"
proof -
  from send_lane_log [OF assms(1) [unfolded send_lane_def] assms(2) _ assms(4)] assms(3) obtain out ps where
    o: "outgoing (ln_sock t) = outgoing (ln_sock s) @ out" "length ps = length items"
      "\<forall>it \<in> set (items_of items ps). length (snd it) = payload_len (fst it)"
      "strict_prefix out (frames B verify items ps @ write_terminator)"
    by (auto simp: lane_says_def sent_on_def)
  have "\<forall>it \<in> set (items_of items ps). wf_item it" using wf_frames [OF o(2) _ o(3)] assms(3) by blast
  from strict_prefix_no_stream [OF assms(2) o(4) [unfolded frames_def] this] o(1) assms(5)
  have "staged_rem (n_in n) \<noteq> concat (map (frame B verify) its) @ write_terminator @ rest"
    if "\<forall>it \<in> set its. wf_item it" for its rest using that by simp
  from silent_unless_stream [OF assms(6,2) this] show ?thesis by blast
qed

theorem failed_flow_not_acknowledged_witness:
  "\<exists>t n r n'. send_lane fold_hasher True sample_src (sample_lane [1, 2, 3] []) = (Inl sample_shrank, t) \<and>
     staged_rem (n_in n) = outgoing (ln_sock t) \<and>
     receive_entries fold_hasher sample_kernel (ascii ''/in'') True False n = (Inl r, n') \<and>
     outgoing (s_stream (n_in n')) = []"
proof (rule sample_short)
  fix t
  assume e: "send_lane fold_hasher True sample_src (sample_lane [1, 2, 3] []) = (Inl sample_shrank, t)"
    and c: "closes_after_failure fold_hasher True sample_src stats_default (sample_lane [1, 2, 3] [])"
  let ?n = "sample_net (outgoing (ln_sock t))"
  have o: "outgoing (ln_sock t) = outgoing (ln_sock (sample_lane [1, 2, 3] [])) @ staged_rem (n_in ?n)"
    by (simp add: sample_rem) (simp add: sample_lane_def)
  have s: "\<forall>i \<in> set sample_src. sound_item i \<and> wf_entry (i_entry i)"
    using sample_src_sound sample_src_wf by blast
  obtain r n' where r: "receive_entries fold_hasher sample_kernel (ascii ''/in'') True False ?n = (r, n')"
    by (cases "receive_entries fold_hasher sample_kernel (ascii ''/in'') True False ?n")
  have z: "outgoing (s_stream (n_in ?n)) = []" by (simp add: sample_net_def sample_stream_def)
  from failed_flow_not_acknowledged [OF e fold_hasher_ok s c o r] e r z sample_rem show ?thesis by metis
qed

section \<open>The manifest bits\<close>

text \<open>
  C15. The answer to the manifest is applied to the right files: an item is dropped exactly
  when it is a file whose bit -- the one at its position among the files, in order -- is
  there and set. Directories and links take no bits and always stay, a short answer drops
  nothing of the rest, the order is kept, and the counters are those of the dropped files.
\<close>

theorem bits_line_up:
  assumes "keep_unskipped items bits = (kept, st)"
  shows "kept = nths items {n. \<not> answered items bits n} \<and>
    st_skipped_files st = word_of_nat (length (nths items {n. answered items bits n})) \<and>
    st_skipped_bytes st = sum_list (map (\<lambda>i. e_size (i_entry i)) (nths items {n. answered items bits n})) \<and>
    st_files st = 0 \<and> st_bytes st = 0"
  using keep_loop_nths [OF assms [unfolded keep_unskipped_def]] by (simp add: stats_default_def)

theorem bits_line_up_witness:
  "let f = make_item [] [0x66] File 7 0 0; g = make_item [] [0x67] File 9 0 0; d = make_item [] [0x64] Dir 0 0 0
   in keep_unskipped [d, f, d, g] [True] = ([d, d, g], stats_default\<lparr>st_skipped_files := 1, st_skipped_bytes := 7\<rparr>) \<and>
      [d, d, g] = nths [d, f, d, g] {n. \<not> answered [d, f, d, g] [True] n}"
proof -
  let ?f = "make_item [] [0x66] File 7 0 0" and ?g = "make_item [] [0x67] File 9 0 0" and ?d = "make_item [] [0x64] Dir 0 0 0"
  have k: "keep_unskipped [?d, ?f, ?d, ?g] [True] =
      ([?d, ?d, ?g], stats_default\<lparr>st_skipped_files := 1, st_skipped_bytes := 7\<rparr>)"
    by (simp add: keep_unskipped_def make_item_def Let_def stats_default_def)
  from bits_line_up [OF this] k show ?thesis unfolding Let_def by blast
qed

section \<open>Dealing\<close>

text \<open>
  C16. The items are dealt round-robin: flow \<open>l\<close> of \<open>cnt\<close> gets exactly the items whose
  position is \<open>l\<close> modulo \<open>cnt\<close>, in their order, so every item goes to exactly one flow and
  none is lost or sent twice.
\<close>

theorem dealt_round_robin:
  assumes "0 < cnt"
  shows "deal cnt items = map (\<lambda>l. nths items {n. n mod cnt = l}) [0..<cnt] \<and>
    mset (concat (deal cnt items)) = mset items"
proof
  show "deal cnt items = map (\<lambda>l. nths items {n. n mod cnt = l}) [0..<cnt]"
    by (rule nth_equalityI)
      (use assms in \<open>simp_all add: deal_def length_deal_loop deal_loop_nths\<close>)
  show "mset (concat (deal cnt items)) = mset items"
    using deal_loop_mset [OF assms, of "replicate cnt []" 0 items] by (simp add: deal_def del: mset_concat)
qed

theorem dealt_round_robin_witness:
  "let i = (\<lambda>n. make_item [] [n] File 0 0 0)
   in deal 2 [i 1, i 2, i 3] = [[i 1, i 3], [i 2]] \<and>
      mset (concat (deal 2 [i 1, i 2, i 3])) = mset [i 1, i 2, i 3]"
proof -
  let ?i = "\<lambda>n. make_item [] [n] File 0 0 0"
  have "deal 2 [?i 1, ?i 2, ?i 3] = [[?i 1, ?i 3], [?i 2]]"
    by (simp add: deal_def numeral_2_eq_2)
  moreover have "mset (concat (deal 2 [?i 1, ?i 2, ?i 3])) = mset [?i 1, ?i 2, ?i 3]"
    by (rule conjunct2 [OF dealt_round_robin]) simp
  ultimately show ?thesis unfolding Let_def by blast
qed

end
