(* ===== verification/EndToEnd.thy ===== *)
theory EndToEnd
  imports Sending Session
begin

text \<open>
  The two ends together. Each end is a function of what arrives on its connection; joining
  them is saying that what arrives at one end is what the other put on the wire. The sender
  writes its handshake and its manifest before it reads anything, the receiver's answer is a
  function of those alone (\<open>answer_bits\<close>), and only then does the data flow: so the bytes
  each end waits for are there, whatever the kernels do with the pieces.
\<close>

section \<open>The answer as a function of the manifest\<close>

fun answer_bits ::
  "'w kernel \<Rightarrow> fd \<Rightarrow> parent_cache \<Rightarrow> entry list \<Rightarrow> 'w os \<Rightarrow> bool list" where
  "answer_bits k root cache [] s = []"
| "answer_bits k root cache (e # es) s =
     (if e_kind e \<noteq> File then answer_bits k root cache es s
      else (case file_held k root cache e s of
              (Inr (b, cache'), t) \<Rightarrow> b # answer_bits k root cache' es t
            | (Inl _, t) \<Rightarrow> answer_bits k root cache es t))"

lemma goes_file_held: "goes (file_held k root cache e)"
  unfolding goes_def
proof
  fix s
  obtain r s' where "file_held k root cache e s = (r, s')" by fastforce
  with file_held_log [OF this] show "\<exists>v s'. file_held k root cache e s = (Inr v, s')" by auto
qed

lemma length_answer_bits: "length (answer_bits k root cache es s) = length (offered es)"
proof (induction es arbitrary: cache s)
  case (Cons e es)
  obtain v t where "file_held k root cache e s = (Inr v, t)"
    using goes_file_held unfolding goes_def by blast
  with Cons show ?case by (cases v) simp
qed simp

lemma skipped_simps:
  "skipped [] bits = []"
  "e_kind e \<noteq> File \<Longrightarrow> skipped (e # es) bits = skipped es bits"
  "e_kind e = File \<Longrightarrow> skipped (e # es) (b # bits) = (if b then [e] else []) @ skipped es bits"
  by (simp_all add: skipped_def)

lemma manifest_loop_live:
  "ready s \<Longrightarrow> \<forall>e \<in> set es. wf_entry e \<Longrightarrow>
   staged_rem (n_in s) = manifest_bytes es @ rest \<Longrightarrow> length es < fuel \<Longrightarrow>
   bits' = answer_bits k root cache es (os_of s) \<Longrightarrow>
   \<exists>s'. manifest_loop fuel k root cache (bits, fs, bytes) s =
       (Inr (bits @ bits', fs + word_of_nat (length (skipped es bits')),
             bytes + sum_list (map e_size (skipped es bits'))), s') \<and>
     ready s' \<and> n_pool s' = n_pool s \<and> staged_rem (n_in s') = rest \<and> same_out (n_in s) (n_in s') \<and>
     (\<exists>new. trace (os_of s') = trace (os_of s) @ new)"
proof (induction es arbitrary: fuel cache bits fs bytes s bits')
  case Nil
  then obtain n where n: "fuel = Suc n" by (cases fuel) auto
  have h: "staged_healthy (n_in s)" and r: "staged_rem (n_in s) = write_terminator @ rest"
    using Nil by (simp_all add: ready_def manifest_bytes_def)
  from staged.decode_terminator [OF h r] obtain i where
    i: "entry_decode staged_read_exact (n_in s) = (Inr None, i)" "staged_healthy i" "staged_rem i = rest" by auto
  obtain u where u: "net_in (entry_decode staged_read_exact) s = (Inr None, u)" "ready u" "n_in u = i" "n_pool u = n_pool s"
    by (rule net_in_ready [of "entry_decode staged_read_exact" s None i]) (use i Nil in auto)
  have "same_out (n_in s) i" using specD [OF entry_decode_eats [of "\<lambda>_. True"] _ i(1)] by simp
  moreover have "os_of u = os_of s" using net_in_frame [OF u(1)] by auto
  ultimately show ?case using n u i Nil.prems(5) by (intro exI [of _ u]) (auto simp: skipped_simps)
next
  case (Cons e es)
  then obtain n where n: "fuel = Suc n" by (cases fuel) auto
  have wf: "wf_entry e" using Cons.prems(2) by simp
  have h: "staged_healthy (n_in s)" using Cons.prems(1) by (simp add: ready_def)
  have r: "staged_rem (n_in s) = entry_encode e @ manifest_bytes es @ rest"
    using Cons.prems(3) by (simp add: manifest_bytes_def)
  from staged.decode_encode [OF h r wf] obtain i where
    i: "entry_decode staged_read_exact (n_in s) = (Inr (Some e), i)" "staged_healthy i"
      "staged_rem i = manifest_bytes es @ rest" by auto
  obtain t where t: "net_in (entry_decode staged_read_exact) s = (Inr (Some e), t)" "ready t" "n_in t = i"
      "n_pool t = n_pool s"
    by (rule net_in_ready [of "entry_decode staged_read_exact" s "Some e" i]) (use i Cons.prems(1) in auto)
  have so: "same_out (n_in s) i" using specD [OF entry_decode_eats [of "\<lambda>_. True"] _ i(1)] by simp
  have ot: "os_of t = os_of s" using net_in_frame [OF t(1)] by auto
  show ?case
  proof (cases "e_kind e = File")
    case False
    from Cons.IH [OF t(2), of n bits' cache bits fs bytes] Cons.prems False i t ot n so show ?thesis
      by (auto simp: skipped_simps)
  next
    case True
    obtain v u where u: "net_os (file_held k root cache e) t = (Inr v, u)" "ready u" "n_in u = n_in t"
        "n_pool u = n_pool t"
      by (rule calm_ready [OF calm_os [OF goes_file_held] t(2)])
    obtain b cache' where v: "v = (b, cache')" by (cases v)
    from net_os_state [OF u(1)] obtain o' where
      o': "file_held k root cache e (os_of t) = (Inr v, o')" "os_of u = o'" by auto
    from file_held_log [OF o'(1)] o'(2) obtain pre where pre: "trace (os_of u) = trace (os_of t) @ pre" by auto
    let ?bs = "answer_bits k root cache' es (os_of u)"
    have bits': "bits' = b # ?bs" using Cons.prems(5) True o' ot v by simp
    let ?fs = "if b then fs + 1 else fs" and ?bytes = "if b then bytes + e_size e else bytes"
    have "\<forall>e \<in> set es. wf_entry e" "staged_rem (n_in u) = manifest_bytes es @ rest" "length es < n"
      using Cons.prems i t u n by simp_all
    from Cons.IH [OF u(2) this refl, where bits = "bits @ [b]" and fs = ?fs and bytes = ?bytes] obtain q where
      q: "manifest_loop n k root cache' (bits @ [b], ?fs, ?bytes) u =
          (Inr ((bits @ [b]) @ ?bs, ?fs + word_of_nat (length (skipped es ?bs)),
             ?bytes + sum_list (map e_size (skipped es ?bs))), q)"
        "ready q" "n_pool q = n_pool u" "staged_rem (n_in q) = rest" "same_out (n_in u) (n_in q)"
        "\<exists>new. trace (os_of q) = trace (os_of u) @ new" by blast
    have "manifest_loop fuel k root cache (bits, fs, bytes) s = manifest_loop n k root cache' (bits @ [b], ?fs, ?bytes) u"
      using n t(1) u(1) v True by (cases b) simp_all
    moreover have "word_of_nat (length (skipped (e # es) bits')) =
        (if b then 1 else 0) + (word_of_nat (length (skipped es ?bs)) :: u64)"
      and "sum_list (map e_size (skipped (e # es) bits')) =
        (if b then e_size e else 0) + sum_list (map e_size (skipped es ?bs))"
      using bits' True by (simp_all add: skipped_simps)
    ultimately show ?thesis using q u t so pre ot bits' by (cases b) (auto simp: add_ac)
  qed
qed

section \<open>The receiver's session\<close>

text \<open>What the receiver answers, as a function of the entries offered and the kernel's state.\<close>

definition the_answer :: "'w kernel \<Rightarrow> bytes \<Rightarrow> entry list \<Rightarrow> 'w os \<Rightarrow> bool list" where
  "the_answer k dest es s =
     (case open_dir k dest s of
        (Inr root, t) \<Rightarrow> answer_bits k root parent_cache_default es t
      | (Inl _, t) \<Rightarrow> [])"

lemma stream_write_live:
  assumes "ready s" "write_events (s_stream (n_in s)) = []"
  shows "\<exists>t. stream_write bs s = (Inr (), t) \<and> ready t \<and> n_pool t = n_pool s \<and> n_sh t = n_sh s \<and>
    staged_rem (n_in t) = staged_rem (n_in s) \<and> write_events (s_stream (n_in t)) = [] \<and>
    outgoing (s_stream (n_in t)) = outgoing (s_stream (n_in s)) @ bs"
  using assms
  by (auto simp: stream_write_def net_in_def zoom_def sock_write_all_def ready_def staged_healthy_def
      staged_inv_def sock_healthy_def staged_rem_def)

lemma manifest_bytes_long: "length es \<le> length (manifest_bytes es)"
proof (induction es)
  case (Cons e es)
  then show ?case by (simp add: manifest_bytes_def entry_encode_def)
qed simp

lemma answer_manifest_live:
  assumes k: "willing k" and dest: "utf8_valid dest" "0 \<notin> set dest" and s: "ready s"
    and es: "\<forall>e \<in> set es. wf_entry e" and r: "staged_rem (n_in s) = manifest_bytes es @ rest"
    and w: "write_events (s_stream (n_in s)) = []" and b: "bits = the_answer k dest es (os_of s)"
  shows "\<exists>s'. answer_manifest k dest s =
      (Inr (word_of_nat (length (skipped es bits)), sum_list (map e_size (skipped es bits))), s') \<and>
    ready s' \<and> n_pool s' = n_pool s \<and> staged_rem (n_in s') = rest \<and>
    write_events (s_stream (n_in s')) = [] \<and>
    outgoing (s_stream (n_in s')) = outgoing (s_stream (n_in s)) @ encode_bitmap bits \<and>
    (\<exists>new. trace (os_of s') = trace (os_of s) @ new)"
proof -
  obtain root t where t: "net_os (open_dir k dest) s = (Inr root, t)" "ready t" "n_in t = n_in s" "n_pool t = n_pool s"
    by (rule calm_ready [OF calm_os [OF goes_open_dir [OF k dest]] s])
  from net_os_state [OF t(1)] obtain o' where o': "open_dir k dest (os_of s) = (Inr root, o')" "os_of t = o'" by auto
  with b have b': "bits = answer_bits k root parent_cache_default es (os_of t)" by (simp add: the_answer_def)
  from specD [OF open_dir_reads [of "\<lambda>_. True"] _ o'(1)] obtain pre where
    pre: "trace (os_of t) = trace (os_of s) @ pre" using o'(2) by (auto simp: adds_def)
  have "staged_rem (n_in t) = manifest_bytes es @ rest" using r t by simp
  moreover have "length es < Suc (length (staged_rem (n_in t)))"
    using manifest_bytes_long [of es] r t(3) by simp
  ultimately obtain u where u: "manifest_loop (Suc (length (staged_rem (n_in t)))) k root parent_cache_default ([], 0, 0) t =
      (Inr ([] @ bits, 0 + word_of_nat (length (skipped es bits)), 0 + sum_list (map e_size (skipped es bits))), u)"
      "ready u" "n_pool u = n_pool t" "staged_rem (n_in u) = rest" "same_out (n_in t) (n_in u)"
      "\<exists>new. trace (os_of u) = trace (os_of t) @ new"
    using manifest_loop_live [OF t(2) es _ _ b', of rest "Suc (length (staged_rem (n_in t)))" "[]" 0 0] by blast
  have "write_events (s_stream (n_in u)) = []" using u(5) t(3) w by simp
  from stream_write_live [OF u(2) this, of "encode_bitmap bits"] obtain v where
    v: "stream_write (encode_bitmap bits) u = (Inr (), v)" "ready v" "n_pool v = n_pool u" "n_sh v = n_sh u"
      "staged_rem (n_in v) = staged_rem (n_in u)" "write_events (s_stream (n_in v)) = []"
      "outgoing (s_stream (n_in v)) = outgoing (s_stream (n_in u)) @ encode_bitmap bits" by blast
  have "answer_manifest k dest s =
      (Inr (word_of_nat (length (skipped es bits)), sum_list (map e_size (skipped es bits))), v)"
    using t(1) u(1) v(1) by (simp add: answer_manifest_def)
  with v u t pre show ?thesis by auto
qed

text \<open>Reading a socket writes nothing.\<close>

abbreviation only_reads :: "sock \<Rightarrow> sock \<Rightarrow> bool" where
  "only_reads c c' \<equiv> outgoing c' = outgoing c \<and> write_events c' = write_events c"

interpretation only_reads: effect only_reads
  by unfold_locales auto

lemma sock_read_only: "sock_read n c = (r, c') \<Longrightarrow> only_reads c c'"
  by (auto simp: sock_read_def Let_def split: list.splits sock_event.splits)

lemma read_exact_only: "read_exact_fuel fuel sock_read n c = (r, c') \<Longrightarrow> only_reads c c'"
proof (induction fuel arbitrary: n c r)
  case (Suc fuel)
  obtain x t where x: "sock_read n c = (x, t)" by (cases "sock_read n c")
  have more: "only_reads c c'" if "read_exact_fuel fuel sock_read m t = (y, c')" for m y
    using Suc.IH [OF that] sock_read_only [OF x] by simp
  show ?case
    using Suc.prems x sock_read_only [OF x] more
    by (cases x) (auto split: if_splits prod.splits sum.splits)
qed simp

lemma sock_read_exact_only: "spec only_reads P (sock_read_exact n) (\<lambda>_ _. True)"
  by (rule specI) (unfold sock_read_exact_def, blast dest: read_exact_only)

lemma read_handshake_only: "spec only_reads P (read_handshake sock_read_exact) (\<lambda>_ _. True)"
proof -
  have "spec only_reads (\<lambda>_. True) (case decode_handshake buf of
         Inl e \<Rightarrow> io_throw e
       | Inr (version, flags, token) \<Rightarrow>
           if version = VERSION_MULTI then
             io_bind (sock_read_exact STREAMS_EXTRA_LEN) (\<lambda>tail.
             io_return \<lparr>hs_version = version, hs_flags = flags, hs_token = token,
                        hs_streams = Some (decode_streams tail)\<rparr>)
           else
             io_return \<lparr>hs_version = version, hs_flags = flags, hs_token = token,
                        hs_streams = None\<rparr>) (\<lambda>_ _. True)" for buf
    by (cases "decode_handshake buf")
      (auto intro!: only_reads.spec_throw only_reads.spec_return only_reads.spec_bind [OF sock_read_exact_only]
        split: prod.splits simp del: io_return_simp io_throw_simp)
  then show ?thesis
    unfolding read_handshake_def by (intro only_reads.spec_bind [OF sock_read_exact_only])
qed

lemma verify_handshake_live:
  assumes "sock_healthy c" "length token = TOKEN_LEN"
    and "incoming c = encode_handshake (flags_of verify) token @ rest"
  shows "\<exists>c'. verify_handshake token c = (Inr (verify, None), c') \<and> sock_healthy c' \<and> incoming c' = rest \<and>
    outgoing c' = outgoing c \<and> write_events c' = write_events c"
proof -
  have "flags_known (flags_of verify)" by (simp add: flags_of_def flags_known_iff)
  from sock.read_handshake_v3 [OF assms(1,2) this assms(3)] obtain c' where
    c': "read_handshake sock_read_exact c = (Inr \<lparr>hs_version = VERSION, hs_flags = flags_of verify, hs_token = token,
        hs_streams = None\<rparr>, c')" "sock_healthy c'" "incoming c' = rest" by blast
  have "verify_handshake token c = (Inr (verify, None), c')"
    using c'(1) by (simp add: verify_handshake_def check_streams_def ct_eq_iff flags_of_def FLAG_NO_VERIFY_def)
  with c' specD [OF read_handshake_only [of "\<lambda>_. True"] _ c'(1)] show ?thesis by auto
qed

text \<open>A receiver that can take the transfer of \<open>items\<close>, and the connection it takes it on.\<close>

definition receiver_fit :: "source_item list \<Rightarrow> 'w host \<Rightarrow> bool" where
  "receiver_fit items s \<longleftrightarrow>
     n_room (h_net s) = None \<and> (\<forall>b \<in> set (n_pool (h_net s)). snd b \<noteq> []) \<and>
     sum_list (map buffers_of items) \<le> length (n_pool (h_net s)) \<and>
     (\<exists>c cs. h_conns s = c # cs \<and> c_setup c = None \<and> c_idle c = None \<and> sock_healthy (c_sock c) \<and>
        outgoing (c_sock c) = [] \<and> write_events (c_sock c) = [])"

text \<open>What the peer's bytes are.\<close>

definition wired :: "bytes \<Rightarrow> 'w host \<Rightarrow> 'w host" where
  "wired bs s =
     (case h_conns s of
        [] \<Rightarrow> s
      | c # cs \<Rightarrow> s\<lparr>h_conns := c\<lparr>c_sock := (c_sock c)\<lparr>incoming := bs\<rparr>\<rparr> # cs\<rparr>)"

lemma accept_one_live:
  assumes k: "willing k" and B: "blake3_ok B absorbed" and dest: "utf8_valid dest" "0 \<notin> set dest"
    and tok: "length token = TOKEN_LEN" and s: "receiver_fit items s"
    and es: "\<forall>e \<in> set es. wf_entry e" and its: "\<forall>it \<in> set its. sendable it"
    and b: "bits = the_answer k dest es (os_of (h_net s))"
    and p: "sum_list (map bufs_of its) \<le> length (n_pool (h_net s))"
  shows "\<exists>s'. accept_one B k dest token durable (wired (encode_handshake (flags_of verify) token @
      manifest_bytes es @ concat (map (frame B verify) its) @ write_terminator) s) =
      (Inr ((foldl count_item stats_default its)\<lparr>st_skipped_files := word_of_nat (length (skipped es bits)),
         st_skipped_bytes := sum_list (map e_size (skipped es bits))\<rparr>), s') \<and>
    outgoing (s_stream (n_in (h_net s'))) = encode_bitmap bits @ [ACK] \<and>
    staged_rem (n_in (h_net s')) = [] \<and>
    (\<exists>new. trace (os_of (h_net s')) = trace (os_of (h_net s)) @ new \<and> filed dest durable its new)"
proof -
  let ?data = "concat (map (frame B verify) its) @ write_terminator"
  from s obtain c cs where c: "h_conns s = c # cs" "c_setup c = None" "c_idle c = None" "sock_healthy (c_sock c)"
      "outgoing (c_sock c) = []" "write_events (c_sock c) = []" by (auto simp: receiver_fit_def)
  let ?c = "(c_sock c)\<lparr>incoming := encode_handshake (flags_of verify) token @ manifest_bytes es @ ?data\<rparr>"
  have "sock_healthy ?c" using c(4) by (simp add: sock_healthy_def)
  from verify_handshake_live [OF this tok, of verify "manifest_bytes es @ ?data"] obtain q where
    q: "verify_handshake token ?c = (Inr (verify, None), q)" "sock_healthy q" "incoming q = manifest_bytes es @ ?data"
      "outgoing q = []" "write_events q = []" using c(5,6) by auto
  let ?n = "(h_net s)\<lparr>n_in := staged_new q\<rparr>"
  have n: "ready ?n" using s staged_new_healthy [OF q(2)] by (simp add: ready_def receiver_fit_def)
  have r: "staged_rem (n_in ?n) = manifest_bytes es @ ?data" using q(3) by simp
  have st: "s_stream (n_in ?n) = q" by (simp add: staged_new_def)
  have wn: "write_events (s_stream (n_in ?n)) = []" and bn: "bits = the_answer k dest es (os_of ?n)"
    using st q(5) b by simp_all
  from answer_manifest_live [OF k dest n es r wn bn] st q(4) obtain t where
    t: "answer_manifest k dest ?n =
        (Inr (word_of_nat (length (skipped es bits)), sum_list (map e_size (skipped es bits))), t)"
      "ready t" "n_pool t = n_pool (h_net s)" "staged_rem (n_in t) = ?data"
      "write_events (s_stream (n_in t)) = []" "outgoing (s_stream (n_in t)) = encode_bitmap bits"
      "\<exists>new. trace (os_of t) = trace (os_of (h_net s)) @ new" by auto
  have t4: "staged_rem (n_in t) = concat (map (frame B verify) its) @ write_terminator @ []" using t(4) by simp
  from receive_entries_delivers [OF k B t(2,5) dest its t4, of durable] p t(3) obtain u where
    u: "receive_entries B k dest verify durable t = (Inr (foldl count_item stats_default its), u)"
      "outgoing (s_stream (n_in u)) = encode_bitmap bits @ [ACK]" "staged_rem (n_in u) = []"
      "\<exists>new. trace (os_of u) = trace (os_of t) @ new \<and> filed dest durable its new"
    using t(6) by auto
  have "accept_one B k dest token durable (wired (encode_handshake (flags_of verify) token @
      manifest_bytes es @ ?data) s) =
      (Inr ((foldl count_item stats_default its)\<lparr>st_skipped_files := word_of_nat (length (skipped es bits)),
         st_skipped_bytes := sum_list (map e_size (skipped es bits))\<rparr>), s\<lparr>h_conns := cs, h_net := u\<rparr>)"
    using c q(1) t(1) u(1)
    by (simp add: accept_one_def wired_def accept_conn_def sock_option_def on_sock_def take_stream_def on_net_def
        zoom_def io_bind_def)
  with u t(7) show ?thesis by (auto intro: filed_prepend)
qed

section \<open>The sender's session\<close>

interpretation lane: reader ln_read_exact "\<lambda>s. incoming (ln_sock s)" "\<lambda>s. sock_healthy (ln_sock s)"
proof
  fix n s bs s' assume "ln_read_exact n s = (Inr bs, s')"
  then have "sock_read_exact n (ln_sock s) = (Inr bs, ln_sock s')" by (auto simp: ln_read_exact_def zoom_eq)
  from sock.re_ok [folded sock_read_exact_def, OF this]
  show "length bs = n \<and> incoming (ln_sock s) = bs @ incoming (ln_sock s')" .
next
  fix n and s :: lane assume "sock_healthy (ln_sock s)" "n \<le> length (incoming (ln_sock s))"
  from sock.re_healthy [folded sock_read_exact_def, OF this] show "\<exists>bs s'. ln_read_exact n s = (Inr bs, s') \<and> sock_healthy (ln_sock s')"
    by (auto simp: ln_read_exact_def zoom_def)
next
  fix n and s :: lane assume "sock_healthy (ln_sock s)" "length (incoming (ln_sock s)) < n"
  from sock.re_eof [folded sock_read_exact_def, OF this] show "\<exists>s'. ln_read_exact n s = (Inl eof_error, s')"
    by (auto simp: ln_read_exact_def zoom_def)
qed

text \<open>What only concerns the socket and is not written.\<close>

lemma ln_read_exact_frame:
  "ln_read_exact n s = (r, t) \<Longrightarrow> only_reads (ln_sock s) (ln_sock t) \<and> t = s\<lparr>ln_sock := ln_sock t\<rparr>"
  using specD [OF sock_read_exact_only [of "\<lambda>_. True"]] by (fastforce simp: ln_read_exact_def zoom_eq)

text \<open>
  A connection over which the sender can do its part, once it got these bits: it takes
  every write, the disk still shows what is to be sent, and the links among it name what
  the kernel and the wire can take.
\<close>

fun links_named :: "(nat \<Rightarrow> sight) \<Rightarrow> source_item list \<Rightarrow> bool" where
  "links_named disk [] \<longleftrightarrow> True"
| "links_named disk (i # is) \<longleftrightarrow>
     (e_kind (i_entry i) = Symlink \<longrightarrow>
        (\<forall>t. si_link (disk 0) = Inr t \<longrightarrow> utf8_valid t \<and> 0 \<notin> set t)) \<and>
     links_named (\<lambda>n. disk (Suc n)) is"

definition sender_fit :: "source_item list \<Rightarrow> bool list \<Rightarrow> session \<Rightarrow> bool" where
  "sender_fit items bits s \<longleftrightarrow>
     (\<exists>d ds. se_dials s = d # ds \<and> dl_setup d = None \<and> dl_room d = None \<and> sock_healthy (dl_sock d) \<and>
        outgoing (dl_sock d) = [] \<and> write_events (dl_sock d) = [] \<and>
        incoming (dl_sock d) = encode_bitmap bits @ [ACK] \<and>
        sum_list (map buffers_of items) \<le> length (dl_pool d) \<and>
        all_there (dl_disk d) (fst (keep_unskipped items bits)) \<and>
        links_named (dl_disk d) (fst (keep_unskipped items bits)))"

lemma keep_loop_skipped:
  "length bits = length (offered (map i_entry items)) \<Longrightarrow> keep_loop st items bits = (kept, st') \<Longrightarrow>
   set kept \<subseteq> set items \<and> sum_list (map buffers_of kept) \<le> sum_list (map buffers_of items) \<and>
   st' = st\<lparr>st_skipped_files := st_skipped_files st + word_of_nat (length (skipped (map i_entry items) bits)),
            st_skipped_bytes := st_skipped_bytes st + sum_list (map e_size (skipped (map i_entry items) bits))\<rparr>"
proof (induction items arbitrary: st bits kept st')
  case Nil
  then show ?case by (simp add: skipped_simps)
next
  case (Cons i items)
  show ?case
  proof (cases "e_kind (i_entry i) = File")
    case False
    obtain k q where k: "keep_loop st items bits = (k, q)" by fastforce
    with Cons.prems False have "kept = i # k" "st' = q" by auto
    with Cons.IH [OF _ k] Cons.prems(1) False show ?thesis by (auto simp: skipped_simps)
  next
    case True
    with Cons.prems(1) obtain b bs where b: "bits = b # bs" "length bs = length (offered (map i_entry items))"
      by (cases bits) auto
    show ?thesis
    proof (cases b)
      case True
      with Cons.prems b \<open>e_kind (i_entry i) = File\<close> have
        "keep_loop (st\<lparr>st_skipped_files := st_skipped_files st + 1,
            st_skipped_bytes := st_skipped_bytes st + e_size (i_entry i)\<rparr>) items bs = (kept, st')" by simp
      from Cons.IH [OF b(2) this] True b \<open>e_kind (i_entry i) = File\<close> show ?thesis
        by (auto simp: skipped_simps add_ac)
    next
      case False
      obtain k q where k: "keep_loop st items bs = (k, q)" by fastforce
      with Cons.prems False b \<open>e_kind (i_entry i) = File\<close> have "kept = i # k" "st' = q" by auto
      with Cons.IH [OF b(2) k] False b \<open>e_kind (i_entry i) = File\<close> show ?thesis
        by (auto simp: skipped_simps)
    qed
  qed
qed

lemma ln_write_live:
  assumes "write_events (ln_sock s) = []"
  shows "\<exists>t. ln_write bs s = (Inr (), t) \<and> sent_on s bs t \<and> t = s\<lparr>ln_sock := ln_sock t\<rparr>"
  using assms by (auto simp: ln_write_def zoom_def sock_write_all_def sent_on_def)

lemma manifest_of_bytes:
  "\<forall>i \<in> set items. sound_item i \<Longrightarrow> manifest_of items = manifest_bytes (map i_entry items)"
  by (auto simp: manifest_of_def manifest_bytes_def sound_item_def intro: arg_cong [where f = concat])

lemma offer_manifest_live:
  assumes snd: "\<forall>i \<in> set items. sound_item i" and bits: "length bits = length (offered (map i_entry items))"
    and w: "write_events (ln_sock s) = []" and h: "sock_healthy (ln_sock s)"
    and i: "incoming (ln_sock s) = encode_bitmap bits @ rest"
  shows "\<exists>t. offer_manifest items s = (Inr (keep_unskipped items bits), t) \<and>
    outgoing (ln_sock t) = outgoing (ln_sock s) @ manifest_bytes (map i_entry items) \<and>
    incoming (ln_sock t) = rest \<and> sock_healthy (ln_sock t) \<and> write_events (ln_sock t) = [] \<and>
    ln_pool t = ln_pool s \<and> ln_room t = ln_room s \<and> ln_disk t = ln_disk s"
proof -
  from ln_write_live [OF w] obtain u where
    u: "ln_write (manifest_of items) s = (Inr (), u)" "sent_on s (manifest_of items) u" "u = s\<lparr>ln_sock := ln_sock u\<rparr>"
    by blast
  have n: "length bits = length (filter (\<lambda>i. e_kind (i_entry i) = File) items)"
    using bits by (simp add: filter_map o_def)
  have "sock_healthy (ln_sock u)" "incoming (ln_sock u) = encode_bitmap bits @ rest"
    using u(2) h i by (auto simp: sent_on_def sock_healthy_def)
  from lane.read_bitmap_roundtrip [OF this] obtain v where
    v: "read_bitmap ln_read_exact (length bits) u = (Inr bits, v)" "sock_healthy (ln_sock v)" "incoming (ln_sock v) = rest"
    by blast
  then obtain bs where "ln_read_exact (div_ceil8 (length bits)) u = (Inr bs, v)"
    by (auto simp: read_bitmap_def io_bind_eq)
  from ln_read_exact_frame [OF this] have fv: "only_reads (ln_sock u) (ln_sock v)" "v = u\<lparr>ln_sock := ln_sock v\<rparr>"
    by blast+
  obtain kept st where k: "keep_unskipped items bits = (kept, st)" by fastforce
  let ?t = "v\<lparr>ln_prog := set_totals (word_of_nat (length kept)) (sum_list (map (\<lambda>i. e_size (i_entry i)) kept)) (ln_prog v)\<rparr>"
  have "offer_manifest items s = (Inr (kept, st), ?t)"
    using u(1) v(1) k n by (simp add: offer_manifest_def ln_progress_def)
  moreover have "ln_pool v = ln_pool s" "ln_room v = ln_room s" "ln_disk v = ln_disk s"
    using fv(2) u(3) by (metis lane.ext_inject lane.surjective lane.update_convs(1))+
  ultimately show ?thesis
    using u(2) v fv(1) k w manifest_of_bytes [OF snd]
    by (intro exI [of _ ?t]) (simp add: sent_on_def)
qed

lemma open_session_live:
  assumes walk: "fst (walk look paths) = Inr items" and snd: "\<forall>i \<in> set items. sound_item i"
    and bits: "length bits = length (offered (map i_entry items))"
    and d: "se_dials s = d # ds" "dl_setup d = None" "sock_healthy (dl_sock d)" "outgoing (dl_sock d) = []"
      "write_events (dl_sock d) = []" "incoming (dl_sock d) = encode_bitmap bits @ rest"
  shows "\<exists>c. open_session look paths hs s = (Inr (keep_unskipped items bits), s\<lparr>se_dials := ds, se_lane := c\<rparr>) \<and>
    outgoing (ln_sock c) = hs @ manifest_bytes (map i_entry items) \<and> incoming (ln_sock c) = rest \<and>
    sock_healthy (ln_sock c) \<and> write_events (ln_sock c) = [] \<and> ln_pool c = dl_pool d \<and> ln_room c = dl_room d \<and>
    ln_disk c = dl_disk d"
proof -
  let ?a = "lane_of d (se_lane s)"
  have a: "ln_sock ?a = dl_sock d" "ln_pool ?a = dl_pool d" "ln_room ?a = dl_room d" "ln_disk ?a = dl_disk d"
    by (simp_all add: lane_of_def)
  from ln_write_live [of ?a hs] a(1) d(5) obtain b where
    b: "ln_write hs ?a = (Inr (), b)" "sent_on ?a hs b" "b = ?a\<lparr>ln_sock := ln_sock b\<rparr>" by auto
  have b': "write_events (ln_sock b) = []" "sock_healthy (ln_sock b)" "incoming (ln_sock b) = encode_bitmap bits @ rest"
      "outgoing (ln_sock b) = hs"
    using b(2) a(1) d(3-6) by (simp_all add: sent_on_def sock_healthy_def)
  have bl: "ln_pool b = dl_pool d" "ln_room b = dl_room d" "ln_disk b = dl_disk d"
    using b(3) a(2-4) by (metis lane.ext_inject lane.surjective lane.update_convs(1))+
  from offer_manifest_live [OF snd bits b'(1-3)] b'(4) bl obtain c where
    c: "offer_manifest items b = (Inr (keep_unskipped items bits), c)"
      "outgoing (ln_sock c) = hs @ manifest_bytes (map i_entry items)" "incoming (ln_sock c) = rest"
      "sock_healthy (ln_sock c)" "write_events (ln_sock c) = []" "ln_pool c = dl_pool d" "ln_room c = dl_room d"
      "ln_disk c = dl_disk d" by auto
  have "open_session look paths hs s = (Inr (keep_unskipped items bits), s\<lparr>se_dials := ds, se_lane := c\<rparr>)"
    using walk d(1,2) b(1) c(1)
    by (simp add: open_session_def connect_def use_primary_def on_lane_def zoom_def io_bind_def)
  with c show ?thesis by blast
qed

lemma read_ack_live:
  assumes "sock_healthy (ln_sock t)" "incoming (ln_sock t) = [ACK]"
  shows "\<exists>u. read_ack t = (Inr (), u) \<and> outgoing (ln_sock u) = outgoing (ln_sock t)"
proof -
  have "incoming (ln_sock t) = [ACK] @ []" using assms(2) by simp
  from lane.re_exact [OF assms(1) this, of 1] obtain u where u: "ln_read_exact 1 t = (Inr [ACK], u)" by auto
  with ln_read_exact_frame [OF u] show ?thesis by (intro exI [of _ u]) (simp add: read_ack_def)
qed

lemma send_v3_live:
  assumes B: "blake3_ok B absorbed" and tok: "length token = TOKEN_LEN"
    and walk: "fst (walk look paths) = Inr items" and snd: "\<forall>i \<in> set items. sound_item i"
    and bits: "length bits = length (offered (map i_entry items))" and s: "sender_fit items bits s"
    and kept: "kept = fst (keep_unskipped items bits)"
  shows "\<exists>t ps. send_v3 B look paths token verify s =
      (Inr ((foldl count_item stats_default (items_of kept ps))
         \<lparr>st_skipped_files := word_of_nat (length (skipped (map i_entry items) bits)),
          st_skipped_bytes := sum_list (map e_size (skipped (map i_entry items) bits))\<rparr>), t) \<and>
    outgoing (ln_sock (se_lane t)) = encode_handshake (flags_of verify) token @
      manifest_bytes (map i_entry items) @ frames B verify kept ps @ write_terminator \<and>
    length ps = length kept \<and> (\<forall>it \<in> set (items_of kept ps). length (snd it) = payload_len (fst it)) \<and>
    shown (dl_disk (hd (se_dials s))) kept ps"
proof -
  from s obtain d ds where d: "se_dials s = d # ds" "dl_setup d = None" "sock_healthy (dl_sock d)"
      "outgoing (dl_sock d) = []" "write_events (dl_sock d) = []" "incoming (dl_sock d) = encode_bitmap bits @ [ACK]"
      "dl_room d = None" "sum_list (map buffers_of items) \<le> length (dl_pool d)" "all_there (dl_disk d) kept"
    unfolding sender_fit_def kept by blast
  let ?hs = "encode_handshake (flags_of verify) token"
  obtain st where k: "keep_unskipped items bits = (kept, st)" using kept by (metis prod.collapse)
  note sk = keep_loop_skipped [OF bits k [unfolded keep_unskipped_def]]
  from open_session_live [OF walk snd bits d(1-6), of ?hs] k d(7) obtain c where
    c: "open_session look paths ?hs s = (Inr (kept, st), s\<lparr>se_dials := ds, se_lane := c\<rparr>)"
      "outgoing (ln_sock c) = ?hs @ manifest_bytes (map i_entry items)" "incoming (ln_sock c) = [ACK]"
      "sock_healthy (ln_sock c)" "write_events (ln_sock c) = []" "ln_pool c = dl_pool d" "ln_room c = None"
      "ln_disk c = dl_disk d" by auto
  have "\<forall>i \<in> set kept. sound_item i" "all_there (ln_disk c) kept" "sum_list (map buffers_of kept) \<le> length (ln_pool c)"
    using sk snd c d(8,9) by auto
  from send_lane_live [OF B c(7,5) this, of verify stats_default] c(8) obtain t ps where
    t: "send_lane_inner B verify kept stats_default c = (Inr (foldl count_item stats_default (items_of kept ps)), t)"
      "length ps = length kept" "\<forall>it \<in> set (items_of kept ps). length (snd it) = payload_len (fst it)"
      "sent_on c (frames B verify kept ps @ write_terminator) t" "shown (dl_disk d) kept ps"
    by auto
  have "sock_healthy (ln_sock t)" "incoming (ln_sock t) = [ACK]"
    using t(4) c(3,4) by (simp_all add: sent_on_def sock_healthy_def)
  from read_ack_live [OF this] obtain u where u: "read_ack t = (Inr (), u)" "outgoing (ln_sock u) = outgoing (ln_sock t)"
    by blast
  let ?m = "foldl count_item stats_default (items_of kept ps)"
  let ?sum = "st\<lparr>st_files := st_files st + st_files ?m, st_bytes := st_bytes st + st_bytes ?m\<rparr>"
  have "send_v3 B look paths token verify s = (Inr ?sum, s\<lparr>se_dials := ds, se_lane := u\<rparr>)"
    using c(1) t(1) u(1) by (simp add: send_v3_def send_lane_def on_lane_def zoom_def io_bind_def)
  moreover have "?sum = ?m\<lparr>st_skipped_files := word_of_nat (length (skipped (map i_entry items) bits)),
      st_skipped_bytes := sum_list (map e_size (skipped (map i_entry items) bits))\<rparr>"
    using sk by (cases ?m) (simp add: stats_default_def)
  ultimately show ?thesis
    using u(2) t c(2) d(1) by (intro exI [of _ "s\<lparr>se_dials := ds, se_lane := u\<rparr>"] exI [of _ ps]) (simp add: sent_on_def)
qed

section \<open>Both ends\<close>

text \<open>What the walk lists, paths and links within the wire's limit, both ends take.\<close>

lemma walked_fit:
  assumes "walk look paths = (Inr items, warned)" and "\<forall>p \<in> set paths. tidy (look p) \<and> 0 \<notin> set p"
    and "\<forall>i \<in> set items. length (e_path (i_entry i)) \<le> MAX_PATH_LEN \<and>
      (e_kind (i_entry i) = Symlink \<longrightarrow> e_size (i_entry i) \<le> word_of_nat MAX_PATH_LEN)"
  shows "\<forall>i \<in> set items. sound_item i \<and> wf_entry (i_entry i) \<and> (\<exists>cs. sanitize (e_path (i_entry i)) = Inr cs)"
  using walked_accepted [OF assms(1,2)] assms(3) by (fastforce simp: sound_item_def wf_entry_def)

lemma length_the_answer:
  assumes "willing k" "utf8_valid dest" "0 \<notin> set dest"
  shows "length (the_answer k dest es s) = length (offered es)"
proof -
  obtain root t where "open_dir k dest s = (Inr root, t)"
    using goes_open_dir [OF assms] unfolding goes_def by blast
  then show ?thesis by (simp add: the_answer_def length_answer_bits)
qed

text \<open>What the sender shows of its items the receiver can take.\<close>

lemma shown_sendable:
  "shown disk items ps \<Longrightarrow> links_named disk items \<Longrightarrow> all_there disk items \<Longrightarrow>
   \<forall>it \<in> set (items_of items ps). length (snd it) = payload_len (fst it) \<Longrightarrow>
   \<forall>i \<in> set items. wf_entry (i_entry i) \<and> (\<exists>cs. sanitize (e_path (i_entry i)) = Inr cs) \<Longrightarrow>
   \<forall>it \<in> set (items_of items ps). sendable it"
proof (induction items arbitrary: disk ps)
  case (Cons i items)
  from Cons.prems(1) obtain p qs where p: "ps = p # qs" "shows_payload (disk 0) (i_entry i) p"
      "shown (\<lambda>n. disk (Suc n)) items qs" by auto
  have "e_kind (i_entry i) = Symlink \<longrightarrow> utf8_valid p \<and> 0 \<notin> set p"
    using Cons.prems(2) p(2) by (auto simp: shows_payload_def lossy_valid)
  moreover have "length p = payload_len (i_entry i)" using Cons.prems(4) p(1) by (simp add: items_of_def)
  ultimately have "sendable (i_entry i, p)"
    using Cons.prems(5) by (simp add: sendable_def wf_item_def safe_item_def)
  moreover have "\<forall>it \<in> set (items_of items qs). sendable it"
    by (rule Cons.IH [OF p(3)]) (use Cons.prems p(1) in \<open>auto simp: items_of_def\<close>)
  ultimately show ?case using p(1) by (simp add: items_of_def)
qed (simp add: items_of_def)

lemma bufs_of_items:
  "length ps = length items \<Longrightarrow> \<forall>it \<in> set (items_of items ps). length (snd it) = payload_len (fst it) \<Longrightarrow>
   sum_list (map bufs_of (items_of items ps)) = sum_list (map buffers_of items)"
proof (induction items arbitrary: ps)
  case (Cons i items)
  then obtain p qs where p: "ps = p # qs" by (cases ps) auto
  have "bufs_of (i_entry i, p) = buffers_of i"
    using Cons.prems(2) p by (simp add: items_of_def bufs_of_def buffers_of_def payload_len_def)
  with Cons.IH [of qs] Cons.prems p show ?case by (simp add: items_of_def)
qed (simp add: items_of_def)

text \<open>
  C1. A transfer works. Let the walk have listed some trees, every path and link within the
  wire's limit, and let the receiver wait with this session's token, on a kernel that fails
  no call but in the ways the code is ready for. Then there are bits, its answer to the
  manifest, such that for every sender's disk that still shows what those bits leave to
  send, joining the two connections makes both sessions succeed, with digests or without,
  durable or not, however the bytes are cut into reads: the sender gets the acknowledgement
  and the receiver has read everything; both count the same files, bytes and skips; and the
  receiver's log brings, one complete file log after the other, the bytes the sender's disk
  showed of every file not skipped under that file's name: the log opened the directory that
  the file's path names below the destination, created a scratch file in it, wrote the bytes
  to the descriptor this creation handed out, and renamed that scratch file to the path's
  last component in that directory (\<open>filed\<close>, \<open>carries\<close>, \<open>placed\<close>).
\<close>

theorem transfer_end_to_end:
  assumes "willing k" and "blake3_ok B absorbed" and "utf8_valid dest" and "0 \<notin> set dest"
    and "length token = TOKEN_LEN" and "walk look paths = (Inr items, warned)"
    and "\<forall>p \<in> set paths. tidy (look p) \<and> 0 \<notin> set p"
    and "\<forall>i \<in> set items. length (e_path (i_entry i)) \<le> MAX_PATH_LEN \<and>
      (e_kind (i_entry i) = Symlink \<longrightarrow> e_size (i_entry i) \<le> word_of_nat MAX_PATH_LEN)"
    and "receiver_fit items s"
    and "bits = the_answer k dest (map i_entry items) (os_of (h_net s))"
    and "kept = fst (keep_unskipped items bits)" and "sender_fit items bits t"
  shows "\<exists>st t' s' ps new. send_v3 B look paths token verify t = (Inr st, t') \<and>
    accept_one B k dest token durable (wired (outgoing (ln_sock (se_lane t'))) s) = (Inr st, s') \<and>
    outgoing (s_stream (n_in (h_net s'))) = encode_bitmap bits @ [ACK] \<and> staged_rem (n_in (h_net s')) = [] \<and>
    st_files st = word_of_nat (length kept) \<and>
    shown (dl_disk (hd (se_dials t))) kept ps \<and>
    trace (os_of (h_net s')) = trace (os_of (h_net s)) @ new \<and> filed dest durable (items_of kept ps) new"
proof -
  note ok = walked_fit [OF assms(6-8)]
  then have snd: "\<forall>i \<in> set items. sound_item i" and wf: "\<forall>e \<in> set (map i_entry items). wf_entry e" by auto
  have len: "length bits = length (offered (map i_entry items))"
    unfolding assms(10) by (rule length_the_answer [OF assms(1,3,4)])
  have w: "fst (walk look paths) = Inr items" using assms(6) by simp
  from send_v3_live [OF assms(2,5) w snd len assms(12,11), of verify] obtain t' ps where
    t: "send_v3 B look paths token verify t =
      (Inr ((foldl count_item stats_default (items_of kept ps))
         \<lparr>st_skipped_files := word_of_nat (length (skipped (map i_entry items) bits)),
          st_skipped_bytes := sum_list (map e_size (skipped (map i_entry items) bits))\<rparr>), t')"
      "outgoing (ln_sock (se_lane t')) = encode_handshake (flags_of verify) token @
        manifest_bytes (map i_entry items) @ frames B verify kept ps @ write_terminator"
      "length ps = length kept" "\<forall>it \<in> set (items_of kept ps). length (snd it) = payload_len (fst it)"
      "shown (dl_disk (hd (se_dials t))) kept ps" by blast
  have kp: "set kept \<subseteq> set items" "sum_list (map buffers_of kept) \<le> sum_list (map buffers_of items)"
    using keep_loop_skipped [OF len] assms(11) unfolding keep_unskipped_def by (metis prod.collapse)+
  from assms(11,12) have ln: "links_named (dl_disk (hd (se_dials t))) kept" "all_there (dl_disk (hd (se_dials t))) kept"
    by (auto simp: sender_fit_def)
  have sd: "\<forall>it \<in> set (items_of kept ps). sendable it"
    by (rule shown_sendable [OF t(5) ln t(4)]) (use ok kp(1) in blast)
  have "sum_list (map bufs_of (items_of kept ps)) \<le> length (n_pool (h_net s))"
    using bufs_of_items [OF t(3,4)] kp(2) assms(9) by (simp add: receiver_fit_def)
  from accept_one_live [OF assms(1-5,9) wf sd assms(10) this, of durable verify] obtain s' where
    s': "accept_one B k dest token durable (wired (outgoing (ln_sock (se_lane t'))) s) =
      (Inr ((foldl count_item stats_default (items_of kept ps))
         \<lparr>st_skipped_files := word_of_nat (length (skipped (map i_entry items) bits)),
          st_skipped_bytes := sum_list (map e_size (skipped (map i_entry items) bits))\<rparr>), s')"
      "outgoing (s_stream (n_in (h_net s'))) = encode_bitmap bits @ [ACK]" "staged_rem (n_in (h_net s')) = []"
      "\<exists>new. trace (os_of (h_net s')) = trace (os_of (h_net s)) @ new \<and> filed dest durable (items_of kept ps) new"
    unfolding t(2) frames_def by auto
  have cnt: "st_files (foldl count_item st0 its) = st_files st0 + word_of_nat (length its)" for st0 its
    by (induction its arbitrary: st0) (simp_all add: count_item_def)
  have "length (items_of kept ps) = length kept" using t(3) by (simp add: items_of_def)
  then have "st_files (foldl count_item stats_default (items_of kept ps)) = word_of_nat (length kept)"
    using cnt [of stats_default] by (simp add: stats_default_def)
  with t(1,5) s' show ?thesis by fastforce
qed

section \<open>A transfer\<close>

text \<open>
  The tree of the walk's example, to a receiver whose destination holds other files of these
  names: nothing is skipped.
\<close>

definition sample_receiver :: "nat host" where
  "sample_receiver =
     \<lparr>h_net = (sample_net [])\<lparr>n_pool := replicate 6 (False, [0, 0, 0])\<rparr>,
      h_conns = [\<lparr>c_sock = sample_sock [], c_setup = None, c_idle = None\<rparr>], h_flows = []\<rparr>"

definition sample_dial :: "bytes \<Rightarrow> dial" where
  "sample_dial bs =
     \<lparr>dl_setup = None,
      dl_sock = \<lparr>incoming = bs, events = [Avail 1, Fail EINTR], outgoing = [], write_events = []\<rparr>,
      dl_pool = replicate 6 (False, [0, 0, 0]), dl_room = None,
      dl_disk = (\<lambda>_. \<lparr>si_link = Inr [0x64], si_file = Inr \<lparr>df_rest = [1, 2, 3], df_events = [Avail 2]\<rparr>\<rparr>)\<rparr>"

definition sample_session :: "bool list \<Rightarrow> session" where
  "sample_session bits =
     \<lparr>se_lane = sample_lane [] [], se_dials = [sample_dial (encode_bitmap bits @ [ACK])], se_bands = []\<rparr>"

lemma sample_receiver_fit: "receiver_fit sample_walked sample_receiver"
  by (auto simp: receiver_fit_def sample_receiver_def sample_net_def sample_walked_def buffers_of_def make_item_def
      sample_sock_def sock_healthy_def Let_def)

lemma sample_answer:
  "the_answer sample_kernel (ascii ''/in'') (map i_entry sample_walked) (os_of (h_net sample_receiver)) = [False, False]"
  by (simp add: the_answer_def open_dir_def utf8_ascii ascii_def cstr_def call_fd_def call_def call_raw_def io_bind_def
      sample_walked_def make_item_def Let_def file_held_def sanitize_def MAX_PATH_LEN_def SLASH_def DOT_def
      parent_get_def parent_cache_default_def open_dir_chain_def dup_fd_def open_dir_at_def stat_file_in_dir_def
      S_IFMT_def S_IFREG_def sample_receiver_def sample_net_def sample_shared_def)

lemma sample_sender_fit: "sender_fit sample_walked [False, False] (sample_session [False, False])"
  by (simp add: sender_fit_def sample_session_def sample_dial_def sample_walked_def make_item_def Let_def keep_unskipped_def
      still_there_def file_healthy_def sock_healthy_def buffers_of_def to_string_lossy.simps utf8_valid.simps)

lemma sample_kept: "fst (keep_unskipped sample_walked [False, False]) = sample_walked"
  by (simp add: sample_walked_def make_item_def Let_def keep_unskipped_def)

theorem transfer_end_to_end_witness:
  "\<exists>st t' s' ps new.
     send_v3 fold_hasher (\<lambda>_. sample_tree) [[0x2F, 0x74]] sample_token True (sample_session [False, False]) = (Inr st, t') \<and>
     accept_one fold_hasher sample_kernel (ascii ''/in'') sample_token True
       (wired (outgoing (ln_sock (se_lane t'))) sample_receiver) = (Inr st, s') \<and>
     outgoing (s_stream (n_in (h_net s'))) = [0, ACK] \<and> staged_rem (n_in (h_net s')) = [] \<and> st_files st = 5 \<and>
     length ps = 5 \<and> trace (os_of (h_net s')) = new \<and> filed (ascii ''/in'') True (items_of sample_walked ps) new"
proof -
  have tk: "length sample_token = TOKEN_LEN" by (simp add: sample_token_def TOKEN_LEN_def)
  have td: "\<forall>p \<in> set [[0x2F, 0x74]]. tidy ((\<lambda>_ :: bytes. sample_tree) p) \<and> 0 \<notin> set p"
    by (simp add: sample_tidy)
  have sz: "\<forall>i \<in> set sample_walked. length (e_path (i_entry i)) \<le> MAX_PATH_LEN \<and>
      (e_kind (i_entry i) = Symlink \<longrightarrow> e_size (i_entry i) \<le> word_of_nat MAX_PATH_LEN)"
    by (simp add: sample_walked_def make_item_def Let_def MAX_PATH_LEN_def)
  have bm: "encode_bitmap [False, False] = [0]"
    by (simp add: encode_bitmap_def div_ceil8_def)
  have tr: "trace (os_of (h_net sample_receiver)) = []"
    by (simp add: sample_receiver_def sample_net_def sample_shared_def)
  note w = transfer_end_to_end [OF sample_willing fold_hasher_ok sample_dest tk sample_walk td sz
      sample_receiver_fit sample_answer [symmetric] refl sample_sender_fit, of True True, unfolded sample_kept bm]
  have "length sample_walked = 5" by (simp add: sample_walked_def)
  moreover have "length ps = length sample_walked" if "shown disk sample_walked ps" for disk ps
    using that by (auto simp: sample_walked_def)
  ultimately show ?thesis using w tr by fastforce
qed

end
