(* ===== verification/Phrase.thy ===== *)
theory Phrase
  imports Wire
begin

text \<open>
  \<open>src/phrase.rs\<close>: the word list, the phrase, and the SHA-256 that both ends apply to it
  to derive the wire token. The hash is written out in the source, so it is written out
  here, on \<open>32 word\<close> values whose addition wraps as \<open>wrapping_add\<close> does.
\<close>

section \<open>The phrase\<close>

definition WORDS :: "string list" where
  "WORDS = [
    ''apple'', ''arrow'', ''atlas'', ''autumn'', ''bacon'', ''badge'', ''bamboo'', ''barn'',
    ''basil'', ''beach'', ''beacon'', ''berry'', ''birch'', ''bloom'', ''breeze'', ''brick'',
    ''bridge'', ''brook'', ''butter'', ''cabin'', ''cactus'', ''camel'', ''candle'', ''canyon'',
    ''castle'', ''cedar'', ''chalk'', ''charm'', ''cherry'', ''cider'', ''cinder'', ''circle'',
    ''cliff'', ''cloud'', ''clover'', ''coast'', ''cocoa'', ''comet'', ''copper'', ''coral'',
    ''cotton'', ''crater'', ''creek'', ''crystal'', ''daisy'', ''dance'', ''dawn'', ''delta'',
    ''desert'', ''dew'', ''dolphin'', ''dove'', ''drift'', ''drum'', ''dune'', ''dusk'',
    ''eagle'', ''echo'', ''ember'', ''fable'', ''falcon'', ''fern'', ''field'', ''finch'',
    ''flame'', ''flint'', ''flood'', ''flute'', ''foam'', ''forest'', ''forge'', ''fox'',
    ''frost'', ''gale'', ''garden'', ''gate'', ''glacier'', ''glen'', ''gold'', ''goose'',
    ''granite'', ''grape'', ''grass'', ''grove'', ''gulf'', ''hail'', ''harbor'', ''hazel'',
    ''heron'', ''hill'', ''honey'', ''horse'', ''island'', ''ivory'', ''jasmine'', ''jewel'',
    ''juniper'', ''kayak'', ''kestrel'', ''kite'', ''lagoon'', ''lake'', ''larch'', ''laurel'',
    ''leaf'', ''lemon'', ''lilac'', ''lily'', ''linden'', ''lodge'', ''lotus'', ''lunar'',
    ''maple'', ''marble'', ''marsh'', ''meadow'', ''melon'', ''merlin'', ''mesa'', ''mist'',
    ''moss'', ''moth'', ''mountain'', ''mouse'', ''mushroom'', ''nectar'', ''needle'', ''north'',
    ''oak'', ''oasis'', ''ocean'', ''olive'', ''onyx'', ''opal'', ''orchid'', ''otter'', ''owl'',
    ''palm'', ''panda'', ''paper'', ''park'', ''parrot'', ''path'', ''peach'', ''peak'',
    ''pearl'', ''pebble'', ''pelican'', ''pepper'', ''perch'', ''petal'', ''pine'', ''plain'',
    ''planet'', ''plow'', ''plum'', ''pond'', ''poplar'', ''poppy'', ''prairie'', ''puffin'',
    ''quail'', ''quartz'', ''quince'', ''rabbit'', ''rain'', ''raven'', ''reed'', ''ridge'',
    ''river'', ''robin'', ''rock'', ''rose'', ''rowan'', ''ruby'', ''sage'', ''salmon'',
    ''sand'', ''seal'', ''shadow'', ''shell'', ''shore'', ''silk'', ''silver'', ''sky'',
    ''slate'', ''smoke'', ''snow'', ''solar'', ''south'', ''sparrow'', ''spring'', ''spruce'',
    ''star'', ''steel'', ''stone'', ''storm'', ''stream'', ''summer'', ''summit'', ''sun'',
    ''swan'', ''swift'', ''thorn'', ''tide'', ''timber'', ''topaz'', ''trail'', ''trout'',
    ''tulip'', ''tuna'', ''valley'', ''vapor'', ''velvet'', ''vine'', ''violet'', ''viper'',
    ''walnut'', ''wasp'', ''wave'', ''west'', ''wheat'', ''willow'', ''wind'', ''winter'',
    ''wolf'', ''wren'', ''yard'', ''yarn'', ''yellow'', ''zebra'', ''zephyr'', ''zinc'',
    ''acorn'', ''amber'', ''anchor'', ''antler'', ''aspen'', ''azure'', ''bison'', ''blaze'',
    ''bluff'', ''boulder'', ''branch'', ''bramble'', ''broom'', ''carp'', ''cay'', ''clay'',
    ''cove'', ''crane'', ''crow'', ''dale'', ''dell'', ''fawn'', ''hedge''
  ]"

definition DASH :: byte where "DASH = 0x2D"

text \<open>The three random bytes are read from the system; the phrase is a function of them.\<close>

definition generate_phrase :: "byte \<Rightarrow> byte \<Rightarrow> byte \<Rightarrow> bytes" where
  "generate_phrase b0 b1 b2 =
     ascii (WORDS ! unat b0) @ [DASH] @ ascii (WORDS ! unat b1) @ [DASH] @ ascii (WORDS ! unat b2)"

section \<open>SHA-256\<close>

definition K :: "u32 list" where
  "K =
    [0x428a2f98, 0x71374491, 0xb5c0fbcf, 0xe9b5dba5, 0x3956c25b, 0x59f111f1, 0x923f82a4] @
    [0xab1c5ed5, 0xd807aa98, 0x12835b01, 0x243185be, 0x550c7dc3, 0x72be5d74, 0x80deb1fe] @
    [0x9bdc06a7, 0xc19bf174, 0xe49b69c1, 0xefbe4786, 0x0fc19dc6, 0x240ca1cc, 0x2de92c6f] @
    [0x4a7484aa, 0x5cb0a9dc, 0x76f988da, 0x983e5152, 0xa831c66d, 0xb00327c8, 0xbf597fc7] @
    [0xc6e00bf3, 0xd5a79147, 0x06ca6351, 0x14292967, 0x27b70a85, 0x2e1b2138, 0x4d2c6dfc] @
    [0x53380d13, 0x650a7354, 0x766a0abb, 0x81c2c92e, 0x92722c85, 0xa2bfe8a1, 0xa81a664b] @
    [0xc24b8b70, 0xc76c51a3, 0xd192e819, 0xd6990624, 0xf40e3585, 0x106aa070, 0x19a4c116] @
    [0x1e376c08, 0x2748774c, 0x34b0bcb5, 0x391c0cb3, 0x4ed8aa4a, 0x5b9cca4f, 0x682e6ff3] @
    [0x748f82ee, 0x78a5636f, 0x84c87814, 0x8cc70208, 0x90befffa, 0xa4506ceb, 0xbef9a3f7] @
    [0xc67178f2]"

definition H0 :: "u32 list" where
  "H0 = [0x6a09e667, 0xbb67ae85, 0x3c6ef372, 0xa54ff53a, 0x510e527f, 0x9b05688c, 0x1f83d9ab,
    0x5be0cd19]"

text \<open>\<open>u32::rotate_right\<close>, for amounts between 1 and 31.\<close>

definition rotate_right :: "u32 \<Rightarrow> nat \<Rightarrow> u32" where
  "rotate_right x n = drop_bit n x OR push_bit (32 - n) x"

lemma pad_gap: "(n :: nat) mod 64 \<noteq> 56 \<Longrightarrow> Suc ((n + 7) mod 64) \<noteq> 64"
proof
  assume a: "n mod 64 \<noteq> 56" and "Suc ((n + 7) mod 64) = 64"
  then have e: "(n mod 64 + 7) mod 64 = 63" by (simp add: mod_add_left_eq)
  have lt: "n mod 64 < 64" by simp
  show False
  proof (cases "n mod 64 + 7 < 64")
    case True
    with e have "n mod 64 + 7 = 63" by (simp only: mod_less)
    with a show False by simp
  next
    case False
    then have "(n mod 64 + 7) mod 64 = (n mod 64 + 7 - 64) mod 64" by (simp only: le_mod_geq not_less)
    also have "\<dots> = n mod 64 + 7 - 64" using lt by (intro mod_less) linarith
    finally show False using e lt by linarith
  qed
qed

text \<open>The padding loop: a zero at a time until 56 bytes into a block.\<close>

function pad_zeros :: "bytes \<Rightarrow> bytes" where
  "pad_zeros msg = (if length msg mod 64 \<noteq> 56 then pad_zeros (msg @ [0]) else msg)"
  by pat_completeness auto

termination
proof (relation "measure (\<lambda>msg. 64 - (length msg + 7) mod 64)")
  fix msg :: bytes
  let ?r = "(length msg + 7) mod 64"
  assume "length msg mod 64 \<noteq> 56"
  then have "Suc ?r \<noteq> 64" by (rule pad_gap)
  then have "Suc (length msg + 7) mod 64 = Suc ?r" by (simp only: mod_Suc if_False)
  moreover have "?r < 64" by simp
  ultimately have "64 - (length (msg @ [0]) + 7) mod 64 < 64 - ?r"
    by (simp add: diff_less_mono2)
  then show "(msg @ [0], msg) \<in> measure (\<lambda>msg. 64 - (length msg + 7) mod 64)" by simp
qed simp

declare pad_zeros.simps [simp del]

definition sha_pad :: "bytes \<Rightarrow> bytes" where
  "sha_pad data = pad_zeros (data @ [0x80]) @ u64_to_be (word_of_nat (length data) * 8)"

text \<open>\<open>chunks_exact(64)\<close> on the padded message.\<close>

fun blocks :: "bytes \<Rightarrow> bytes list" where
  "blocks msg = (if 64 \<le> length msg then take 64 msg # blocks (drop 64 msg) else [])"

declare blocks.simps [simp del]

definition block_word :: "bytes \<Rightarrow> nat \<Rightarrow> u32" where
  "block_word block i =
     u32_from_be [block ! (4 * i), block ! (4 * i + 1), block ! (4 * i + 2), block ! (4 * i + 3)]"

text \<open>The message schedule, extended one word at a time.\<close>

definition schedule_word :: "u32 list \<Rightarrow> nat \<Rightarrow> u32" where
  "schedule_word w i =
     (let s0 = rotate_right (w ! (i - 15)) 7 XOR rotate_right (w ! (i - 15)) 18
               XOR drop_bit 3 (w ! (i - 15));
          s1 = rotate_right (w ! (i - 2)) 17 XOR rotate_right (w ! (i - 2)) 19
               XOR drop_bit 10 (w ! (i - 2))
      in w ! (i - 16) + s0 + w ! (i - 7) + s1)"

definition schedule :: "bytes \<Rightarrow> u32 list" where
  "schedule block =
     foldl (\<lambda>w i. w[i := schedule_word w i])
       (map (block_word block) [0..<16] @ replicate 48 0) [16..<64]"

type_synonym regs8 = "u32 \<times> u32 \<times> u32 \<times> u32 \<times> u32 \<times> u32 \<times> u32 \<times> u32"

definition sha_round :: "u32 list \<Rightarrow> regs8 \<Rightarrow> nat \<Rightarrow> regs8" where
  "sha_round w = (\<lambda>(a, b, c, d, e, f, g, hh) i.
     let s1 = rotate_right e 6 XOR rotate_right e 11 XOR rotate_right e 25;
         ch = (e AND f) XOR ((NOT e) AND g);
         t1 = hh + s1 + ch + K ! i + w ! i;
         s0 = rotate_right a 2 XOR rotate_right a 13 XOR rotate_right a 22;
         maj = (a AND b) XOR (a AND c) XOR (b AND c);
         t2 = s0 + maj
     in (t1 + t2, a, b, c, d + t1, e, f, g))"

definition compress :: "u32 list \<Rightarrow> bytes \<Rightarrow> u32 list" where
  "compress h block =
     (let (a, b, c, d, e, f, g, hh) =
            foldl (sha_round (schedule block))
              (h ! 0, h ! 1, h ! 2, h ! 3, h ! 4, h ! 5, h ! 6, h ! 7) [0..<64]
      in [h ! 0 + a, h ! 1 + b, h ! 2 + c, h ! 3 + d, h ! 4 + e, h ! 5 + f, h ! 6 + g,
          h ! 7 + hh])"

definition sha256 :: "bytes \<Rightarrow> bytes" where
  "sha256 data = concat (map u32_to_be (foldl compress H0 (blocks (sha_pad data))))"

section \<open>The token\<close>

text \<open>
  \<open>derive_token\<close> trims and lower-cases first. \<open>str::to_lowercase\<close> follows the Unicode
  case tables of the standard library, which are a parameter of the model; all the
  source relies on is that ASCII letters are lowered and other ASCII is left alone.
\<close>

definition ascii_lower_byte :: "byte \<Rightarrow> byte" where
  "ascii_lower_byte b = (if 0x41 \<le> b \<and> b \<le> 0x5A then b + 0x20 else b)"

definition is_ascii :: "bytes \<Rightarrow> bool" where
  "is_ascii s \<longleftrightarrow> list_all (\<lambda>b. b \<le> 0x7F) s"

definition lowercase_ok :: "(bytes \<Rightarrow> bytes) \<Rightarrow> bool" where
  "lowercase_ok lower \<longleftrightarrow> (\<forall>s. is_ascii s \<longrightarrow> lower s = map ascii_lower_byte s)"

definition derive_token :: "(bytes \<Rightarrow> bytes) \<Rightarrow> bytes \<Rightarrow> bytes" where
  "derive_token lower phrase = sha256 (lower (trim phrase))"

section \<open>Padding\<close>

lemma pad_zeros_append: "\<exists>n < 64. pad_zeros msg = msg @ replicate n 0 \<and> (length msg + n) mod 64 = 56"
proof (induction "64 - (length msg + 7) mod 64" arbitrary: msg rule: less_induct)
  case less
  show ?case
  proof (cases "length msg mod 64 = 56")
    case True
    then show ?thesis by (intro exI [of _ 0]) (subst pad_zeros.simps, simp)
  next
    case False
    define r where "r = (length msg + 7) mod 64"
    from False have g: "Suc r \<noteq> 64" unfolding r_def by (rule pad_gap)
    then have s: "(length (msg @ [0 :: byte]) + 7) mod 64 = Suc r"
      unfolding length_append_singleton by (simp only: add_Suc mod_Suc r_def if_False)
    have r64: "r < 64" by (simp add: r_def)
    have "64 - (length (msg @ [0 :: byte]) + 7) mod 64 < 64 - (length msg + 7) mod 64"
      unfolding s r_def [symmetric] using r64 by linarith
    from less [OF this] obtain n where n: "n < 64"
        "pad_zeros (msg @ [0]) = (msg @ [0]) @ replicate n 0"
        "(length (msg @ [0 :: byte]) + n) mod 64 = 56" by blast
    have eq: "pad_zeros msg = msg @ replicate (Suc n) 0"
      using False n(2) by (subst pad_zeros.simps) simp
    have "Suc n \<noteq> 64"
    proof
      assume "Suc n = 64"
      then have "length (msg @ [0 :: byte]) + n = length msg + 64" by simp
      with n(3) False show False by simp
    qed
    with n eq show ?thesis by (intro exI [of _ "Suc n"]) simp
  qed
qed

lemma length_sha_pad: "length (sha_pad data) mod 64 = 0"
proof -
  obtain n where n: "pad_zeros (data @ [0x80]) = (data @ [0x80]) @ replicate n 0"
      "(length (data @ [0x80 :: byte]) + n) mod 64 = 56"
    using pad_zeros_append by blast
  have "length (sha_pad data) = (length (data @ [0x80 :: byte]) + n) + 8"
    by (simp add: sha_pad_def n(1))
  also have "\<dots> mod 64 = ((length (data @ [0x80 :: byte]) + n) mod 64 + 8) mod 64"
    by (simp only: mod_add_left_eq)
  finally have "length (sha_pad data) mod 64 = (56 + 8) mod 64" by (simp only: n(2))
  also have "(56 + 8) mod 64 = (0 :: nat)" by simp
  finally show ?thesis .
qed

lemma length_compress [simp]: "length (compress h block) = 8"
  by (simp add: compress_def split: prod.splits)

lemma length_sha256: "length (sha256 data) = TOKEN_LEN"
proof -
  have "length (foldl compress h bs) = 8" if "length h = 8" for h bs
    using that by (induction bs arbitrary: h) simp_all
  from this [of H0] have "length (foldl compress H0 (blocks (sha_pad data))) = 8"
    by (simp add: H0_def)
  then show ?thesis
    by (simp add: sha256_def length_concat comp_def sum_list_triv TOKEN_LEN_def)
qed

section \<open>The standard's hash\<close>

text \<open>
  FIPS 180-4 as the standard writes it: rotations as a library operation, the schedule as
  a recurrence on the word index, the padding by its length equation. The source's loops
  are shown equal to it.
\<close>

definition fips_sigma0 :: "u32 \<Rightarrow> u32" where
  "fips_sigma0 x = word_rotr 7 x XOR word_rotr 18 x XOR drop_bit 3 x"
definition fips_sigma1 :: "u32 \<Rightarrow> u32" where
  "fips_sigma1 x = word_rotr 17 x XOR word_rotr 19 x XOR drop_bit 10 x"
definition fips_Sigma0 :: "u32 \<Rightarrow> u32" where
  "fips_Sigma0 x = word_rotr 2 x XOR word_rotr 13 x XOR word_rotr 22 x"
definition fips_Sigma1 :: "u32 \<Rightarrow> u32" where
  "fips_Sigma1 x = word_rotr 6 x XOR word_rotr 11 x XOR word_rotr 25 x"
definition fips_Ch :: "u32 \<Rightarrow> u32 \<Rightarrow> u32 \<Rightarrow> u32" where
  "fips_Ch x y z = (x AND y) XOR (NOT x AND z)"
definition fips_Maj :: "u32 \<Rightarrow> u32 \<Rightarrow> u32 \<Rightarrow> u32" where
  "fips_Maj x y z = (x AND y) XOR (x AND z) XOR (y AND z)"

fun fips_W :: "bytes \<Rightarrow> nat \<Rightarrow> u32" where
  "fips_W M t =
     (if t < 16 then u32_from_be (take 4 (drop (4 * t) M))
      else fips_sigma1 (fips_W M (t - 2)) + fips_W M (t - 7)
         + fips_sigma0 (fips_W M (t - 15)) + fips_W M (t - 16))"

declare fips_W.simps [simp del]

fun fips_step :: "bytes \<Rightarrow> nat \<Rightarrow> regs8 \<Rightarrow> regs8" where
  "fips_step M t (a, b, c, d, e, f, g, h) =
     (let T1 = h + fips_Sigma1 e + fips_Ch e f g + K ! t + fips_W M t;
          T2 = fips_Sigma0 a + fips_Maj a b c
      in (T1 + T2, a, b, c, d + T1, e, f, g))"

definition fips_block :: "u32 list \<Rightarrow> bytes \<Rightarrow> u32 list" where
  "fips_block H M =
     (case fold (fips_step M) [0..<64] (H ! 0, H ! 1, H ! 2, H ! 3, H ! 4, H ! 5, H ! 6, H ! 7)
      of (a, b, c, d, e, f, g, h) \<Rightarrow> map2 (+) H [a, b, c, d, e, f, g, h])"

text \<open>The padding: a one bit, \<open>k\<close> zero bytes, the bit length; the least \<open>k\<close> that fits.\<close>

definition fips_padding :: "bytes \<Rightarrow> nat \<Rightarrow> bytes" where
  "fips_padding data k =
     data @ 0x80 # replicate k 0 @ be_bytes 8 (8 * length data mod 2 ^ 64)"

definition fips_blocks :: "bytes \<Rightarrow> bytes list" where
  "fips_blocks msg = map (\<lambda>i. take 64 (drop (64 * i) msg)) [0..<length msg div 64]"

subsection \<open>The loops compute it\<close>

lemma rotate_right_rotr:
  assumes "0 < n" and "n < 32"
  shows "rotate_right x n = word_rotr n x"
proof (rule bit_word_eqI)
  fix i assume "i < LENGTH(32)"
  then have i: "i < 32" by simp
  have "bit (rotate_right x n) i \<longleftrightarrow> bit x (i + n) \<and> i + n < 32 \<or> 32 - n \<le> i \<and> bit x (i - (32 - n))"
    using i by (auto simp: rotate_right_def bit_simps add.commute dest: bit_imp_le_length)
  also have "\<dots> \<longleftrightarrow> bit x ((i + n) mod 32)"
  proof (cases "i + n < 32")
    case False
    with i assms have "(i + n) mod 32 = i - (32 - n)" by (simp add: le_mod_geq mod_less)
    with False show ?thesis by auto
  qed auto
  also have "\<dots> \<longleftrightarrow> bit (word_rotr n x) i"
    using i assms by (simp add: bit_word_rotr_iff)
  finally show "bit (rotate_right x n) i \<longleftrightarrow> bit (word_rotr n x) i" .
qed

lemma blocks_fips: "length msg mod 64 = 0 \<Longrightarrow> blocks msg = fips_blocks msg"
proof (induction msg rule: blocks.induct)
  case (1 msg)
  show ?case
  proof (cases "64 \<le> length msg")
    case True
    then have d: "length msg div 64 = Suc ((length msg - 64) div 64)" by (simp add: le_div_geq)
    have "(length msg - 64) mod 64 = 0" using "1.prems" True by (simp add: le_mod_geq)
    then have "blocks (drop 64 msg) = fips_blocks (drop 64 msg)"
      using "1.IH" True by simp
    then have "blocks msg = take 64 msg # fips_blocks (drop 64 msg)"
      using True by (subst blocks.simps) simp
    also have "\<dots> = fips_blocks msg"
      unfolding fips_blocks_def d
      by (simp add: upt_conv_Cons map_Suc_upt [symmetric] comp_def add.commute del: upt_Suc)
    finally show ?thesis .
  next
    case False
    with "1.prems" show ?thesis
      by (subst blocks.simps) (simp add: fips_blocks_def)
  qed
qed

lemma schedule_word_fips:
  assumes "16 \<le> i" and "\<forall>t < i. w ! t = fips_W M t"
  shows "schedule_word w i = fips_W M i"
proof -
  have "schedule_word w i = fips_W M (i - 16) + fips_sigma0 (fips_W M (i - 15))
      + fips_W M (i - 7) + fips_sigma1 (fips_W M (i - 2))"
    using assms
    by (simp add: schedule_word_def Let_def fips_sigma0_def fips_sigma1_def rotate_right_rotr)
  then show ?thesis using assms(1) by (subst fips_W.simps) (simp add: algebra_simps)
qed

lemma schedule_loop:
  assumes "16 \<le> i" and "i \<le> j" and "j \<le> length w" and "\<forall>t < i. w ! t = fips_W M t"
  shows "let w' = foldl (\<lambda>w i. w[i := schedule_word w i]) w [i..<j]
         in length w' = length w \<and> (\<forall>t < j. w' ! t = fips_W M t)"
  using assms(2,3)
proof (induction j rule: dec_induct)
  case base
  then show ?case using assms by simp
next
  case (step j)
  let ?w = "foldl (\<lambda>w i. w[i := schedule_word w i]) w [i..<j]"
  from step have w: "length ?w = length w" "\<forall>t < j. ?w ! t = fips_W M t"
    by (auto simp: Let_def)
  have "schedule_word ?w j = fips_W M j"
    using w(2) assms(1) step.hyps by (intro schedule_word_fips) auto
  then show ?case
    using w step.hyps step.prems by (auto simp: Let_def nth_list_update less_Suc_eq)
qed

lemma block_word_fips:
  assumes "length M = 64" and "t < 16"
  shows "block_word M t = u32_from_be (take 4 (drop (4 * t) M))"
proof -
  have "take 4 (drop (4 * t) M) = [M ! (4 * t), M ! (4 * t + 1), M ! (4 * t + 2), M ! (4 * t + 3)]"
    using assms by (auto intro!: nth_equalityI simp: less_Suc_eq numeral_eq_Suc)
  then show ?thesis by (simp add: block_word_def)
qed

lemma schedule_fips:
  assumes "length M = 64" and "t < 64"
  shows "schedule M ! t = fips_W M t"
proof -
  define w where "w = map (block_word M) [0..<16] @ replicate 48 0"
  have len: "length w = 64" unfolding w_def by (simp only: length_append length_map length_upt length_replicate)
  have "w ! t = fips_W M t" if "t < 16" for t
  proof -
    have "w ! t = block_word M t"
      using that unfolding w_def by (simp add: nth_append del: upt_rec_numeral)
    also have "\<dots> = fips_W M t"
      using that assms(1) by (simp add: block_word_fips fips_W.simps)
    finally show ?thesis .
  qed
  then have "let w' = foldl (\<lambda>w i. w[i := schedule_word w i]) w [16..<64]
         in length w' = length w \<and> (\<forall>t < 64. w' ! t = fips_W M t)"
    using len by (intro schedule_loop) simp_all
  then show ?thesis
    using assms(2) unfolding schedule_def w_def [symmetric] by (simp only: Let_def)
qed

lemma sha_round_fips:
  assumes "length M = 64" and "t < 64"
  shows "sha_round (schedule M) r t = fips_step M t r"
proof -
  obtain a b c d e f gh where r: "r = (a, b, c, d, e, f, gh)" by (rule prod_cases7)
  obtain g h where gh: "gh = (g, h)" by (cases gh)
  show ?thesis unfolding r gh
    using assms
    by (simp add: sha_round_def Let_def schedule_fips fips_Sigma0_def fips_Sigma1_def fips_Ch_def
        fips_Maj_def rotate_right_rotr algebra_simps)
qed

lemma compress_fips:
  assumes "length M = 64" and "length H = 8"
  shows "compress H M = fips_block H M"
proof -
  have *: "foldl (sha_round (schedule M)) r ts = fold (fips_step M) ts r"
    if "\<forall>t \<in> set ts. t < 64" for r ts
    using that by (induction ts arbitrary: r) (simp_all add: sha_round_fips assms(1))
  have "foldl (sha_round (schedule M)) r [0..<64] = fold (fips_step M) [0..<64] r" for r
    by (rule *) (metis atLeastLessThan_iff set_upt)
  moreover obtain a b c d e f g h where "H = [a, b, c, d, e, f, g, h]"
    using assms(2) by (auto simp: length_Suc_conv numeral_eq_Suc)
  ultimately show ?thesis
    by (simp add: compress_def fips_block_def del: upt_rec_numeral split: prod.splits)
qed

lemma foldl_compress_fips:
  "length H = 8 \<Longrightarrow> \<forall>M \<in> set Ms. length M = 64 \<Longrightarrow>
   foldl compress H Ms = foldl fips_block H Ms"
proof (induction Ms arbitrary: H)
  case (Cons M Ms)
  then have "compress H M = fips_block H M" by (simp add: compress_fips)
  moreover have "length (compress H M) = 8" by simp
  ultimately show ?case using Cons by simp
qed simp

lemma fips_blocks_length: "M \<in> set (fips_blocks msg) \<Longrightarrow> length M = 64"
proof -
  assume "M \<in> set (fips_blocks msg)"
  then obtain i where i: "i < length msg div 64" "M = take 64 (drop (64 * i) msg)"
    by (auto simp: fips_blocks_def)
  then have "64 * Suc i \<le> 64 * (length msg div 64)" by simp
  also have "\<dots> \<le> length msg" by simp
  finally have "64 * Suc i \<le> length msg" .
  with i show ?thesis by simp
qed

lemma sha_pad_fips:
  "\<exists>k < 64. sha_pad data = fips_padding data k \<and> (length data + 1 + k) mod 64 = 56"
proof -
  obtain n where n: "n < 64" "pad_zeros (data @ [0x80]) = (data @ [0x80]) @ replicate n 0"
      "(length (data @ [0x80 :: byte]) + n) mod 64 = 56"
    using pad_zeros_append by blast
  have "u64_to_be (word_of_nat (length data) * 8) = be_bytes 8 (8 * length data mod 2 ^ 64)"
    by (simp add: u64_to_be_def unat_word_ariths unat_of_nat mod_mult_left_eq mod_mult_right_eq mult.commute)
  with n have "sha_pad data = fips_padding data n"
    by (simp add: sha_pad_def fips_padding_def)
  with n show ?thesis by auto
qed

section \<open>The word list\<close>

text \<open>
  That the 256 words differ is evaluated, by inserting them one after the other into a
  binary trie over their letters' low bits and finding each slot free.
\<close>

fun letter_bits :: "string \<Rightarrow> bool list" where
  "letter_bits [] = []"
| "letter_bits (c # cs) =
     digit0 c # digit1 c # digit2 c # digit3 c # digit4 c # letter_bits cs"

datatype (plugins only: code size) btrie = Leaf | Node bool btrie btrie

fun trie_insert :: "bool list \<Rightarrow> btrie \<Rightarrow> btrie option" where
  "trie_insert [] Leaf = Some (Node True Leaf Leaf)"
| "trie_insert [] (Node b l r) = (if b then None else Some (Node True l r))"
| "trie_insert (x # xs) Leaf =
     (if x then map_option (Node False Leaf) (trie_insert xs Leaf)
      else map_option (\<lambda>l. Node False l Leaf) (trie_insert xs Leaf))"
| "trie_insert (x # xs) (Node b l r) =
     (if x then map_option (Node b l) (trie_insert xs r)
      else map_option (\<lambda>l'. Node b l' r) (trie_insert xs l))"

fun trie_has :: "btrie \<Rightarrow> bool list \<Rightarrow> bool" where
  "trie_has Leaf ys = False"
| "trie_has (Node b l r) [] = b"
| "trie_has (Node b l r) (y # ys) = trie_has (if y then r else l) ys"

fun trie_all :: "bool list list \<Rightarrow> btrie \<Rightarrow> bool" where
  "trie_all [] t = True"
| "trie_all (x # xs) t =
     (case trie_insert x t of None \<Rightarrow> False | Some t' \<Rightarrow> trie_all xs t')"

lemma trie_insert_Some:
  "trie_insert xs t = Some t' \<Longrightarrow>
   \<not> trie_has t xs \<and> (\<forall>ys. trie_has t' ys \<longleftrightarrow> ys = xs \<or> trie_has t ys)"
proof (induction xs t arbitrary: t' rule: trie_insert.induct)
  case 1
  then have t': "t' = Node True Leaf Leaf" by simp
  show ?case unfolding t' by (auto elim: trie_has.elims)
next
  case (2 b l r)
  then have "\<not> b" and t': "t' = Node True l r" by (auto split: if_splits)
  have "trie_has (Node True l r) ys \<longleftrightarrow> ys = [] \<or> trie_has (Node b l r) ys" for ys
    using \<open>\<not> b\<close> by (cases ys) auto
  with t' \<open>\<not> b\<close> show ?case by simp
next
  case (3 x xs)
  then obtain u where u: "trie_insert xs Leaf = Some u"
      and t': "t' = (if x then Node False Leaf u else Node False u Leaf)"
    by (auto split: if_splits)
  have "\<forall>ys. trie_has u ys \<longleftrightarrow> ys = xs" using 3 u by (cases x) auto
  then have "trie_has t' ys \<longleftrightarrow> ys = x # xs" for ys
    unfolding t' by (cases ys) auto
  then show ?case by simp
next
  case (4 x xs b l r)
  let ?s = "if x then r else l"
  from 4 obtain u where u: "trie_insert xs ?s = Some u"
      and t': "t' = (if x then Node b l u else Node b u r)"
    by (auto split: if_splits)
  have h: "\<not> trie_has ?s xs \<and> (\<forall>ys. trie_has u ys \<longleftrightarrow> ys = xs \<or> trie_has ?s ys)"
    using 4 u by (cases x) auto
  have "trie_has t' ys \<longleftrightarrow> ys = x # xs \<or> trie_has (Node b l r) ys" for ys
    unfolding t' using h by (cases ys) auto
  with h show ?case by simp
qed

lemma trie_all_distinct:
  "trie_all xs t \<Longrightarrow> distinct xs \<and> (\<forall>x \<in> set xs. \<not> trie_has t x)"
proof (induction xs arbitrary: t)
  case (Cons x xs)
  then obtain t' where t': "trie_insert x t = Some t'" "trie_all xs t'"
    by (auto split: option.splits)
  from trie_insert_Some [OF t'(1)] Cons.IH [OF t'(2)] show ?case by auto
qed simp

lemma WORDS_trie: "trie_all (map letter_bits WORDS) Leaf"
  by code_simp

lemma distinct_WORDS: "distinct WORDS"
  using trie_all_distinct [OF WORDS_trie] by (simp add: distinct_map)

lemma length_WORDS: "length WORDS = 256"
  by (simp only: WORDS_def list.size)

text \<open>Every word is a non-empty run of bytes between 0x60 and 0x7F: no dash, no space, no capital.\<close>

lemma WORDS_low: "list_all (\<lambda>w. w \<noteq> [] \<and> list_all (\<lambda>c. \<not> digit7 c \<and> digit6 c \<and> digit5 c) w) WORDS"
  by code_simp

lemma unat_of_char: "unat (of_char c :: byte) = of_char c"
proof -
  have "(of_char c :: byte) = word_of_nat (of_char c)" by (simp only: of_nat_of_char)
  then have "unat (of_char c :: byte) = of_char c mod 2 ^ LENGTH(8)" by (simp only: unat_of_nat)
  then show ?thesis by simp
qed

lemma ascii_inject: "ascii s = ascii t \<longleftrightarrow> s = t"
proof -
  have "inj (of_char :: char \<Rightarrow> byte)"
    by (rule injI) (metis of_char_eq_iff unat_of_char)
  then show ?thesis by (simp add: ascii_def inj_map_eq_map)
qed

lemma low_char: "\<not> digit7 c \<Longrightarrow> digit6 c \<Longrightarrow> digit5 c \<Longrightarrow> 0x60 \<le> (of_char c :: byte) \<and> (of_char c :: byte) \<le> 0x7F"
proof (cases c)
  fix b0 b1 b2 b3 b4 b5 b6 b7
  assume c: "c = Char b0 b1 b2 b3 b4 b5 b6 b7" and "\<not> digit7 c" "digit6 c" "digit5 c"
  then have "\<not> b7" b6 b5 by simp_all
  then have "0x60 \<le> (of_char c :: nat) \<and> (of_char c :: nat) \<le> 0x7F"
    unfolding c by (cases b0; cases b1; cases b2; cases b3; cases b4) simp_all
  then show ?thesis by (simp add: word_le_nat_alt unat_of_char)
qed

text \<open>The shape of a word of the list, as bytes.\<close>

definition lower_word :: "bytes \<Rightarrow> bool" where
  "lower_word w \<longleftrightarrow> w \<noteq> [] \<and> (\<forall>b \<in> set w. 0x60 \<le> b \<and> b \<le> 0x7F)"

lemma WORDS_lower: "lower_word (ascii (WORDS ! unat (b :: byte)))"
proof -
  have "WORDS ! unat b \<in> set WORDS" using unat_byte_lt [of b] by (simp add: length_WORDS)
  then have "WORDS ! unat b \<noteq> []"
      "\<forall>c \<in> set (WORDS ! unat b). \<not> digit7 c \<and> digit6 c \<and> digit5 c"
    using WORDS_low by (auto simp: list_all_iff)
  then show ?thesis by (auto simp: lower_word_def ascii_def dest: low_char)
qed

lemma lower_word_no_dash: "lower_word w \<Longrightarrow> DASH \<notin> set w"
  by (auto simp: lower_word_def DASH_def)

lemma append_sep_eq:
  "c \<notin> set a \<Longrightarrow> c \<notin> set b \<Longrightarrow> a @ c # x = b @ c # y \<longleftrightarrow> a = b \<and> x = y"
  by (induction a arbitrary: b) (case_tac b; auto)+

lemma WORDS_nth_inject: "ascii (WORDS ! unat (a :: byte)) = ascii (WORDS ! unat b) \<longleftrightarrow> a = b"
  using nth_eq_iff_index_eq [OF distinct_WORDS] unat_byte_lt [of a] unat_byte_lt [of b]
  by (simp add: ascii_inject length_WORDS word_unat_eq_iff)

section \<open>Trimming what the user typed\<close>

definition ascii_ws :: "byte \<Rightarrow> bool" where
  "ascii_ws b \<longleftrightarrow> b \<in> {0x09, 0x0A, 0x0B, 0x0C, 0x0D, 0x20}"

text \<open>A pattern list in which an ASCII space starts no pattern but its own.\<close>

definition ws_patterns :: "bytes list \<Rightarrow> bool" where
  "ws_patterns ws \<longleftrightarrow>
     (\<forall>w \<in> set ws. w \<noteq> [] \<and> ((length w = 1 \<and> ascii_ws (hd w)) \<or> 0x80 \<le> hd w)) \<and>
     (\<forall>b. ascii_ws b \<longrightarrow> [b] \<in> set ws)"

lemma ws_patterns_fwd: "ws_patterns white_space"
  by (auto simp: ws_patterns_def white_space_def ascii_ws_def)

lemma ws_patterns_bwd: "ws_patterns (map rev white_space)"
  by (auto simp: ws_patterns_def white_space_def ascii_ws_def)

lemma ascii_ws_lt: "ascii_ws b \<Longrightarrow> b < 0x80"
  by (auto simp: ascii_ws_def)

lemma starts_with_Cons: "starts_with w (b # s) \<Longrightarrow> w \<noteq> [] \<Longrightarrow> hd w = b"
  by (cases w) auto

lemma strip_stops:
  assumes "ws_patterns ws" and "s = [] \<or> (hd s < 0x80 \<and> \<not> ascii_ws (hd s))"
  shows "strip_prefixes ws s = s"
proof -
  have "filter (\<lambda>w. w \<noteq> [] \<and> starts_with w s) ws = []"
  proof (cases s)
    case Nil
    have "\<not> starts_with w []" if "w \<noteq> []" for w using that by (cases w) auto
    with Nil show ?thesis by (auto simp: filter_empty_conv)
  next
    case (Cons b r)
    with assms(2) have b: "b < 0x80" "\<not> ascii_ws b" by simp_all
    have "\<not> starts_with w s" if w: "w \<in> set ws" for w
    proof
      assume "starts_with w s"
      moreover have ne: "w \<noteq> []" and sh: "(length w = 1 \<and> ascii_ws (hd w)) \<or> 0x80 \<le> hd w"
        using assms(1) w by (auto simp: ws_patterns_def)
      ultimately have "hd w = b" using Cons by (simp add: starts_with_Cons)
      with sh b show False by (auto simp: not_less [symmetric])
    qed
    then show ?thesis by (auto simp: filter_empty_conv)
  qed
  then show ?thesis by (subst strip_prefixes.simps) simp
qed

lemma strip_space:
  assumes p: "ws_patterns ws" and b: "ascii_ws b"
  shows "strip_prefixes ws (b # s) = strip_prefixes ws s"
proof -
  let ?F = "filter (\<lambda>w. w \<noteq> [] \<and> starts_with w (b # s)) ws"
  have "[b] \<in> set ?F" using assms by (auto simp: ws_patterns_def)
  then obtain w r where F: "?F = w # r" by (cases ?F) auto
  then have w: "w \<in> set ws" "w \<noteq> []" "starts_with w (b # s)"
    using filter_hd_member [OF F] by auto
  then have "hd w = b" by (blast dest: starts_with_Cons)
  with p w(1) ascii_ws_lt [OF b] have "length w = 1"
    by (auto simp: ws_patterns_def not_less [symmetric])
  with F show ?thesis by (subst strip_prefixes.simps) (simp add: drop_Cons')
qed

lemma strip_spaces:
  "ws_patterns ws \<Longrightarrow> \<forall>b \<in> set pre. ascii_ws b \<Longrightarrow>
   strip_prefixes ws (pre @ s) = strip_prefixes ws s"
  by (induction pre) (simp_all add: strip_space)

lemma trim_spaces:
  assumes "\<forall>b \<in> set pre. ascii_ws b" and "\<forall>b \<in> set post. ascii_ws b"
    and "v \<noteq> []" and "hd v < 0x80 \<and> \<not> ascii_ws (hd v)" and "last v < 0x80 \<and> \<not> ascii_ws (last v)"
  shows "trim (pre @ v @ post) = v"
proof -
  have "strip_prefixes white_space (pre @ v @ post) = v @ post"
    using assms by (simp add: strip_spaces ws_patterns_fwd strip_stops)
  moreover have "strip_prefixes (map rev white_space) (rev post @ rev v) = rev v"
    using assms by (simp add: strip_spaces ws_patterns_bwd strip_stops hd_rev)
  ultimately show ?thesis by (simp add: trim_def)
qed

lemma ascii_lower_le: "ascii_lower_byte b \<le> 0x7F \<Longrightarrow> b \<le> 0x7F"
  by (auto simp: ascii_lower_byte_def word_le_nat_alt split: if_splits)

lemma ascii_lower_not_ws: "0x60 \<le> ascii_lower_byte b \<Longrightarrow> \<not> ascii_ws b"
  by (auto simp: ascii_lower_byte_def ascii_ws_def split: if_splits)

lemma lower_word_fixed: "lower_word w \<Longrightarrow> map ascii_lower_byte w = w"
  by (rule map_idI) (auto simp: lower_word_def ascii_lower_byte_def word_le_nat_alt)

lemma phrase_parts:
  "\<exists>x y z. lower_word x \<and> lower_word y \<and> lower_word z \<and>
     generate_phrase b0 b1 b2 = x @ [DASH] @ y @ [DASH] @ z"
  unfolding generate_phrase_def using WORDS_lower by blast

lemma phrase_shape:
  "generate_phrase b0 b1 b2 \<noteq> [] \<and>
   0x60 \<le> hd (generate_phrase b0 b1 b2) \<and> 0x60 \<le> last (generate_phrase b0 b1 b2) \<and>
   (\<forall>b \<in> set (generate_phrase b0 b1 b2). b \<le> 0x7F) \<and>
   map ascii_lower_byte (generate_phrase b0 b1 b2) = generate_phrase b0 b1 b2"
proof -
  obtain x y z where w: "lower_word x" "lower_word y" "lower_word z"
    and g: "generate_phrase b0 b1 b2 = x @ [DASH] @ y @ [DASH] @ z"
    using phrase_parts by blast
  have "ascii_lower_byte DASH = DASH" by (simp add: ascii_lower_byte_def DASH_def)
  then show ?thesis
    using w lower_word_fixed [OF w(1)] lower_word_fixed [OF w(2)] lower_word_fixed [OF w(3)]
    unfolding g by (auto simp: lower_word_def DASH_def)
qed

lemma trim_phrase_like:
  assumes v: "map ascii_lower_byte v = generate_phrase b0 b1 b2"
    and ws: "\<forall>b \<in> set pre. ascii_ws b" "\<forall>b \<in> set post. ascii_ws b"
  shows "trim (pre @ v @ post) = v \<and> is_ascii v"
proof -
  note g = phrase_shape [of b0 b1 b2, folded v]
  have ne: "v \<noteq> []" using g by simp
  have asc: "\<forall>b \<in> set v. b \<le> 0x7F" using g ascii_lower_le by auto
  have "0x60 \<le> ascii_lower_byte (hd v)" "0x60 \<le> ascii_lower_byte (last v)"
    using g ne by (auto simp: hd_map last_map)
  then have "\<not> ascii_ws (hd v)" "\<not> ascii_ws (last v)" using ascii_lower_not_ws by blast+
  moreover have "b < 0x80" if "b \<in> set v" for b
    using asc that by (auto simp: word_less_nat_alt word_le_nat_alt)
  ultimately have "trim (pre @ v @ post) = v" using ws ne by (intro trim_spaces) auto
  with asc show ?thesis by (simp add: is_ascii_def list_all_iff)
qed

section \<open>Properties\<close>

text \<open>
  C29. The hand-written SHA-256 is the hash of FIPS 180-4: for every input there is a
  padding length below one block that meets the standard's length equation, and the
  digest is the standard's block function folded over the padded blocks.
\<close>

theorem sha256_is_fips:
  "\<exists>k < 64. (length data + 1 + k) mod 64 = 56 \<and>
     sha256 data = concat (map u32_to_be (foldl fips_block H0 (fips_blocks (fips_padding data k))))"
proof -
  obtain k where k: "k < 64" "sha_pad data = fips_padding data k"
      "(length data + 1 + k) mod 64 = 56"
    using sha_pad_fips by blast
  have "blocks (sha_pad data) = fips_blocks (sha_pad data)"
    using length_sha_pad by (rule blocks_fips)
  moreover have "foldl compress H0 (fips_blocks (sha_pad data)) = foldl fips_block H0 (fips_blocks (sha_pad data))"
    by (rule foldl_compress_fips) (auto simp: H0_def dest: fips_blocks_length)
  ultimately have "sha256 data = concat (map u32_to_be (foldl fips_block H0 (fips_blocks (sha_pad data))))"
    by (simp add: sha256_def)
  with k show ?thesis by auto
qed

text \<open>
  C33. The phrase carries all three random bytes: different bytes give different phrases,
  so there are 256 cubed of them and one guess hits with probability 2 to the minus 24.
\<close>

theorem phrase_injective:
  "generate_phrase a0 a1 a2 = generate_phrase b0 b1 b2 \<longleftrightarrow> a0 = b0 \<and> a1 = b1 \<and> a2 = b2"
proof -
  have nd: "DASH \<notin> set (ascii (WORDS ! unat (b :: byte)))" for b
    using WORDS_lower by (rule lower_word_no_dash)
  show ?thesis
    by (auto simp: generate_phrase_def append_sep_eq nd WORDS_nth_inject)
qed

text \<open>
  Whatever case the letters are typed in, and whatever ASCII white space surrounds them, a
  typed phrase gives the token of the phrase that was shown.
\<close>

lemma typed_phrase_token:
  assumes "lowercase_ok lower"
    and "map ascii_lower_byte typed = generate_phrase b0 b1 b2"
    and "\<forall>b \<in> set pre. ascii_ws b" and "\<forall>b \<in> set post. ascii_ws b"
  shows "derive_token lower (pre @ typed @ post) = derive_token lower (generate_phrase b0 b1 b2)"
proof -
  let ?g = "generate_phrase b0 b1 b2"
  have t: "trim (pre @ typed @ post) = typed" "is_ascii typed"
    using trim_phrase_like assms(2-4) by blast+
  have "map ascii_lower_byte ?g = ?g" using phrase_shape by blast
  then have g: "trim ?g = ?g" "is_ascii ?g"
    using trim_phrase_like [of ?g b0 b1 b2 "[]" "[]"] by simp_all
  have "lower typed = lower ?g"
    using assms(1,2) t(2) g(2) phrase_shape [of b0 b1 b2] by (simp add: lowercase_ok_def)
  then show ?thesis by (simp add: derive_token_def t g)
qed

end
