(* ===== verification/Iface.thy ===== *)
theory Iface
  imports Wire
begin

text \<open>
  \<open>src/iface.rs\<close>: the Thunderbolt interface and the UDP discovery exchange. What the
  system calls deliver (the interface list, received datagrams) is an input of the
  functions; IPv4 addresses are 32-bit words in host order.
\<close>

section \<open>The interface\<close>

type_synonym ipv4 = u32

record bridge =
  b_addr :: ipv4
  b_netmask :: ipv4
  b_mtu :: "u32 option"

definition broadcast :: "bridge \<Rightarrow> ipv4" where
  "broadcast b = b_addr b OR NOT (b_netmask b)"

definition contains :: "bridge \<Rightarrow> ipv4 \<Rightarrow> bool" where
  "contains b other \<longleftrightarrow> (b_addr b AND b_netmask b) = (other AND b_netmask b)"

text \<open>
  One node of the \<open>getifaddrs\<close> list, with the pointers the loop tests as options: the
  name, and the address by family (\<open>AF_INET\<close> with its netmask, \<open>AF_LINK\<close> with the
  interface data, anything else).
\<close>

datatype sockaddr = AfInet ipv4 "ipv4 option" | AfLink "u32 option" | AfOther

record ifaddr =
  ifa_name :: "bytes option"
  ifa_addr :: "sockaddr option"

fun find_bridge_loop ::
  "bytes \<Rightarrow> (ipv4 \<times> ipv4) option \<Rightarrow> u32 option \<Rightarrow> ifaddr list
    \<Rightarrow> (ipv4 \<times> ipv4) option \<times> u32 option" where
  "find_bridge_loop name found mtu [] = (found, mtu)"
| "find_bridge_loop name found mtu (entry # rest) =
     (case ifa_name entry of
        None \<Rightarrow> find_bridge_loop name found mtu rest
      | Some entry_name \<Rightarrow>
          if entry_name \<noteq> name then find_bridge_loop name found mtu rest
          else case ifa_addr entry of
            None \<Rightarrow> find_bridge_loop name found mtu rest
          | Some (AfInet addr (Some netmask)) \<Rightarrow> find_bridge_loop name (Some (addr, netmask)) mtu rest
          | Some (AfLink (Some m)) \<Rightarrow> find_bridge_loop name found (Some m) rest
          | Some _ \<Rightarrow> find_bridge_loop name found mtu rest)"

text \<open>\<open>getifaddrs\<close> fails with an \<open>errno\<close> or delivers the list.\<close>

definition find_bridge :: "bytes \<Rightarrow> errno + ifaddr list \<Rightarrow> bridge result" where
  "find_bridge name listing =
     (case listing of
        Inl e \<Rightarrow> Inl (OsError e)
      | Inr list \<Rightarrow>
          (case find_bridge_loop name None None list of
             (None, _) \<Rightarrow> Inl (IoError NotFound (NoBridge name))
           | (Some (addr, netmask), mtu) \<Rightarrow>
               Inr \<lparr>b_addr = addr, b_netmask = netmask, b_mtu = mtu\<rparr>))"

section \<open>Discovery\<close>

definition PROBE :: byte where "PROBE = 0x3F"
definition REPLY :: byte where "REPLY = 0x21"
definition DISCOVERY_PORT :: u16 where "DISCOVERY_PORT = 47654"

text \<open>
  \<open>recv_from\<close> into the eight-byte buffer: the datagram is cut to the buffer and what it
  does not overwrite stays from before.
\<close>

definition recv_into :: "bytes \<Rightarrow> bytes \<Rightarrow> nat \<times> bytes" where
  "recv_into buf datagram =
     (let len = min (length buf) (length datagram)
      in (len, take len datagram @ drop len buf))"

definition discovery_reply :: "u16 \<Rightarrow> bytes" where
  "discovery_reply tcp_port = u32_to_le MAGIC @ [REPLY] @ u16_to_le tcp_port"

definition discovery_probe :: "bytes" where
  "discovery_probe = u32_to_le MAGIC @ [PROBE]"

text \<open>
  One turn of the responder's loop: the buffer before, a datagram and its IPv4 source
  (\<open>None\<close> for any other address family); the buffer after and the reply, if any.
\<close>

definition serve_step ::
  "bridge \<Rightarrow> u16 \<Rightarrow> bytes \<Rightarrow> bytes \<Rightarrow> ipv4 option \<Rightarrow> bytes \<times> bytes option" where
  "serve_step bridge tcp_port buf datagram source =
     (let (len, buf') = recv_into buf datagram in
      case source of
        None \<Rightarrow> (buf', None)
      | Some ip \<Rightarrow>
          if \<not> contains bridge ip then (buf', None)
          else if len < 5 \<or> u32_from_le (take 4 buf') \<noteq> MAGIC \<or> buf' ! 4 \<noteq> PROBE
            then (buf', None)
          else (buf', Some (discovery_reply tcp_port)))"

fun serve_discovery ::
  "bridge \<Rightarrow> u16 \<Rightarrow> bytes \<Rightarrow> (bytes \<times> ipv4 option) list \<Rightarrow> (ipv4 \<times> bytes) list" where
  "serve_discovery bridge tcp_port buf [] = []"
| "serve_discovery bridge tcp_port buf ((datagram, source) # rest) =
     (case serve_step bridge tcp_port buf datagram source of
        (buf', reply) \<Rightarrow>
          (case (source, reply) of
             (Some ip, Some r) \<Rightarrow> [(ip, r)]
           | _ \<Rightarrow> []) @ serve_discovery bridge tcp_port buf' rest)"

text \<open>
  The searching side: up to three probes to the bridge's broadcast address. The environment
  answers each with a failed send, or a received datagram with its source, or a failed
  receive; when the list of its answers ends, the rest are time-outs. What was sent, and
  where to, is returned beside the result.
\<close>

datatype peer_event = SendFails errno | RecvFrom bytes "ipv4 option" | RecvFails errno

type_synonym probes = "(bytes \<times> ipv4 \<times> u16) list"

definition sends :: "bytes \<times> ipv4 \<times> u16 \<Rightarrow> probes \<times> 'a \<Rightarrow> probes \<times> 'a" where
  "sends d x = (case x of (ds, r) \<Rightarrow> (d # ds, r))"

fun find_peer_loop ::
  "nat \<Rightarrow> bytes \<times> ipv4 \<times> u16 \<Rightarrow> bytes \<Rightarrow> peer_event list \<Rightarrow> probes \<times> (ipv4 \<times> u16) result" where
  "find_peer_loop 0 probe buf evs = ([], Inl (IoError NotFound NoReceiver))"
| "find_peer_loop (Suc n) probe buf [] = sends probe (find_peer_loop n probe buf [])"
| "find_peer_loop (Suc n) probe buf (SendFails e # evs) = ([], Inl (OsError e))"
| "find_peer_loop (Suc n) probe buf (RecvFrom datagram source # evs) =
     sends probe
       (let (len, buf') = recv_into buf datagram in
        case source of
          None \<Rightarrow> find_peer_loop n probe buf' evs
        | Some ip \<Rightarrow>
            if 7 \<le> len \<and> u32_from_le (take 4 buf') = MAGIC \<and> buf' ! 4 = REPLY
            then ([], Inr (ip, u16_from_le [buf' ! 5, buf' ! 6]))
            else find_peer_loop n probe buf' evs)"
| "find_peer_loop (Suc n) probe buf (RecvFails e # evs) =
     sends probe
       (if err_kind (OsError e) = WouldBlock \<or> err_kind (OsError e) = TimedOut
        then find_peer_loop n probe buf evs else ([], Inl (OsError e)))"

definition find_peer :: "bridge \<Rightarrow> peer_event list \<Rightarrow> probes \<times> (ipv4 \<times> u16) result" where
  "find_peer bridge evs =
     find_peer_loop 3 (discovery_probe, broadcast bridge, DISCOVERY_PORT) (replicate 8 0) evs"

section \<open>Lemmas\<close>

lemma u32_eq_iff_bits: "(a :: u32) = b \<longleftrightarrow> (\<forall>i < 32. bit a i \<longleftrightarrow> bit b i)"
  by (auto intro: bit_word_eqI)

lemma find_bridge_loop_found:
  "find_bridge_loop name found mtu es = (Some (a, m), mtu') \<Longrightarrow>
   found = Some (a, m) \<or>
   (\<exists>e \<in> set es. ifa_name e = Some name \<and> ifa_addr e = Some (AfInet a (Some m)))"
  by (induction es arbitrary: found mtu)
    (fastforce split: option.splits if_splits sockaddr.splits)+

lemma find_bridge_loop_none:
  "find_bridge_loop name found mtu es = (None, mtu') \<Longrightarrow>
   found = None \<and>
   (\<forall>e \<in> set es. ifa_name e = Some name \<longrightarrow> (\<forall>a m. ifa_addr e \<noteq> Some (AfInet a (Some m))))"
  by (induction es arbitrary: found mtu)
    (fastforce split: option.splits if_splits sockaddr.splits)+

lemma recv_into_length: "recv_into buf d = (len, buf') \<Longrightarrow> length buf' = length buf"
  by (auto simp: recv_into_def Let_def)

lemma recv_into_fits:
  "length d \<le> length buf \<Longrightarrow> recv_into buf d = (length d, d @ drop (length d) buf)"
  by (simp add: recv_into_def Let_def)

lemma serve_step_reply:
  assumes "serve_step b port buf d source = (buf', Some r)"
  shows "\<exists>ip. source = Some ip \<and> contains b ip \<and> r = discovery_reply port
    \<and> 5 \<le> length d \<and> take 5 buf' = take 5 d"
proof -
  obtain len b2 where rb: "recv_into buf d = (len, b2)" by (cases "recv_into buf d")
  with assms have *: "buf' = b2" "\<exists>ip. source = Some ip \<and> contains b ip" "r = discovery_reply port"
      "5 \<le> len"
    by (auto simp: serve_step_def Let_def split: option.splits if_splits)
  from rb have len: "len = min (length buf) (length d)" "b2 = take len d @ drop len buf"
    by (auto simp: recv_into_def Let_def)
  have le: "len \<le> length d" using len(1) by simp
  with *(4) have "take 5 buf' = take 5 d" unfolding *(1) len(2) by (simp add: min_absorb1)
  with * le show ?thesis by auto
qed

lemma serve_step_probe:
  assumes "length buf = 8" and "contains b ip"
  shows "serve_step b port buf discovery_probe (Some ip)
    = (discovery_probe @ drop 5 buf, Some (discovery_reply port))"
  using assms
  by (simp add: serve_step_def recv_into_fits discovery_probe_def nth_append Let_def)

section \<open>Properties\<close>

text \<open>
  C32. The receiver binds an address that the system reported for the named interface and
  no other: \<open>find_bridge\<close> succeeds only with an IPv4 address and netmask of an entry of
  that name, and fails exactly when no such entry exists. There is no fallback.
\<close>

theorem find_bridge_only_named:
  "(case find_bridge name (Inr es) of
      Inr b \<Rightarrow> \<exists>e \<in> set es. ifa_name e = Some name \<and>
                 ifa_addr e = Some (AfInet (b_addr b) (Some (b_netmask b)))
    | Inl err \<Rightarrow> err = IoError NotFound (NoBridge name) \<and>
                 \<not> (\<exists>e \<in> set es. ifa_name e = Some name \<and>
                      (\<exists>a m. ifa_addr e = Some (AfInet a (Some m)))))"
proof -
  obtain f mtu where l: "find_bridge_loop name None None es = (f, mtu)"
    by (cases "find_bridge_loop name None None es")
  show ?thesis
  proof (cases f)
    case None
    with l have "find_bridge_loop name None None es = (None, mtu)" by simp
    from find_bridge_loop_none [OF this] show ?thesis
      using l None by (auto simp: find_bridge_def)
  next
    case (Some am)
    obtain a m where am: "am = (a, m)" by (cases am)
    with l Some have "find_bridge_loop name None None es = (Some (a, m), mtu)" by simp
    from find_bridge_loop_found [OF this] show ?thesis
      using l Some am by (simp add: find_bridge_def)
  qed
qed

text \<open>
  The broadcast address keeps the network bits of the interface and sets every host
  bit, and an address is on the subnet exactly when it agrees with the interface on
  every bit the netmask selects. So the interface and its broadcast address are on it.
\<close>

lemma subnet_bits:
  "(\<forall>i < 32. bit (broadcast b) i \<longleftrightarrow> bit (b_addr b) i \<or> \<not> bit (b_netmask b) i) \<and>
   (contains b ip \<longleftrightarrow> (\<forall>i < 32. bit (b_netmask b) i \<longrightarrow> (bit (b_addr b) i \<longleftrightarrow> bit ip i))) \<and>
   contains b (b_addr b) \<and> contains b (broadcast b)"
proof -
  have c: "contains b ip \<longleftrightarrow> (\<forall>i < 32. bit (b_netmask b) i \<longrightarrow> (bit (b_addr b) i \<longleftrightarrow> bit ip i))" for ip
    by (auto simp: contains_def u32_eq_iff_bits bit_and_iff)
  have bc: "\<forall>i < 32. bit (broadcast b) i \<longleftrightarrow> bit (b_addr b) i \<or> \<not> bit (b_netmask b) i"
    by (auto simp: broadcast_def bit_or_iff bit_not_iff)
  show ?thesis using bc by (auto simp: c)
qed

text \<open>
  C31. Every datagram the responder sends goes to an address on the Thunderbolt subnet, is
  the seven-byte reply with the bound port, and answers a datagram from that address
  that begins with the protocol's probe. Foreign or malformed datagrams get nothing.
\<close>

theorem discovery_only_answers_subnet:
  "(ip, r) \<in> set (serve_discovery b port buf ds) \<Longrightarrow>
   contains b ip \<and> r = discovery_reply port \<and> length r = 7 \<and>
   (\<exists>d. (d, Some ip) \<in> set ds \<and> take 5 d = discovery_probe)"
proof (induction b port buf ds rule: serve_discovery.induct)
  case (2 b port buf d source rest)
  obtain buf' reply where s: "serve_step b port buf d source = (buf', reply)"
    by (cases "serve_step b port buf d source")
  show ?case
  proof (cases "(ip, r) \<in> set (serve_discovery b port buf' rest)")
    case True
    with "2.IH" [OF s [symmetric]] show ?thesis by fastforce
  next
    case False
    with "2.prems" s have sr: "source = Some ip" "reply = Some r"
      by (auto split: option.splits)
    with s have "serve_step b port buf d (Some ip) = (buf', Some r)" by simp
    note f = serve_step_reply [OF this]
    have "u32_from_le (take 4 buf') = MAGIC" "buf' ! 4 = PROBE" "length buf' \<ge> 5"
      using s sr by (auto simp: serve_step_def recv_into_def Let_def split: if_splits)
    then have "take 4 buf' = u32_to_le MAGIC" "take 5 buf' = take 4 buf' @ [PROBE]"
      using u32_from_le_inverse [of "take 4 buf'"] take_Suc_conv_app_nth [of 4 buf'] by simp_all
    then show ?thesis
      using f sr by (auto simp: discovery_probe_def discovery_reply_def)
  qed
qed simp

theorem discovery_only_answers_subnet_witness:
  "let b = \<lparr>b_addr = 0xA9FE0C07, b_netmask = 0xFFFF0000, b_mtu = None\<rparr>
   in (0xA9FEC803, discovery_reply 4321) \<in>
        set (serve_discovery b 4321 [0, 0, 0, 0, 0, 0, 0, 0]
              [([1, 2], Some 0xA9FEC803), (discovery_probe, Some 0xA9FEC803)])
      \<and> contains b 0xA9FEC803"
proof -
  let ?b = "\<lparr>b_addr = 0xA9FE0C07, b_netmask = 0xFFFF0000, b_mtu = None\<rparr> :: bridge"
  have s1: "serve_step ?b 4321 [0, 0, 0, 0, 0, 0, 0, 0] [1, 2] (Some 0xA9FEC803) = ([1, 2, 0, 0, 0, 0, 0, 0], None)"
    by (simp add: serve_step_def recv_into_def Let_def contains_def)
  have s2: "serve_step ?b 4321 [1, 2, 0, 0, 0, 0, 0, 0] discovery_probe (Some 0xA9FEC803)
      = (discovery_probe @ drop 5 [1, 2, 0, 0, 0, 0, 0, 0], Some (discovery_reply 4321))"
    by (rule serve_step_probe) (simp_all add: contains_def)
  have m: "(0xA9FEC803, discovery_reply 4321) \<in>
        set (serve_discovery ?b 4321 [0, 0, 0, 0, 0, 0, 0, 0]
              [([1, 2], Some 0xA9FEC803), (discovery_probe, Some 0xA9FEC803)])"
    by (simp only: serve_discovery.simps s1 s2 prod.case option.case) simp
  show ?thesis unfolding Let_def using m discovery_only_answers_subnet [OF m] by blast
qed

text \<open>Events before the responder's answer that must not stop the search.\<close>

definition peer_noise :: "peer_event \<Rightarrow> bool" where
  "peer_noise ev \<longleftrightarrow>
     (case ev of
        RecvFrom d source \<Rightarrow> length d < 7
      | RecvFails e \<Rightarrow> e = EAGAIN \<or> e = ETIMEDOUT
      | SendFails e \<Rightarrow> False)"

lemma find_peer_noise:
  assumes "peer_noise ev" and "length buf = 8"
  shows "\<exists>buf'. length buf' = 8 \<and> find_peer_loop (Suc n) probe buf (ev # evs) = sends probe (find_peer_loop n probe buf' evs)"
proof (cases ev)
  case (RecvFrom d source)
  obtain len buf' where r: "recv_into buf d = (len, buf')" by (cases "recv_into buf d")
  with RecvFrom assms have "len < 7" "length buf' = 8"
    by (auto simp: recv_into_def peer_noise_def Let_def)
  then show ?thesis using RecvFrom r by (auto split: option.splits)
qed (use assms in \<open>auto simp: peer_noise_def\<close>)

lemma two_bytes: "length x = 2 \<Longrightarrow> [x ! 0, x ! 1] = x"
  by (auto simp: length_Suc_conv numeral_eq_Suc)

lemma find_peer_reply:
  assumes "length buf = 8"
  shows "find_peer_loop (Suc n) probe buf (RecvFrom (discovery_reply port) (Some ip) # evs) = ([probe], Inr (ip, port))"
proof -
  let ?p = "u16_to_le port"
  have len: "length (discovery_reply port) = 7" by (simp add: discovery_reply_def)
  define buf' where "buf' = discovery_reply port @ drop 7 buf"
  have r: "recv_into buf (discovery_reply port) = (7, buf')"
    using assms len by (simp add: recv_into_fits buf'_def)
  have "take 4 buf' = u32_to_le MAGIC" "buf' ! 4 = REPLY" "buf' ! 5 = ?p ! 0" "buf' ! 6 = ?p ! 1"
    by (simp_all add: buf'_def discovery_reply_def nth_append)
  moreover have "u16_from_le [?p ! 0, ?p ! 1] = port" by (simp only: two_bytes length_codecs u16_le_roundtrip)
  ultimately show ?thesis by (simp add: r sends_def)
qed

text \<open>
  C30. Discovery works end to end: \<open>find_peer\<close> sends the probe to the discovery port of its
  bridge's broadcast address, once more after every datagram or time-out that was of no use;
  the reply a responder on the subnet gives to that probe makes it stop and return that
  responder's address and exactly the port it bound, whatever two unrelated datagrams or
  time-outs came before.
\<close>

theorem discovery_end_to_end:
  assumes "contains b sender_ip" and "length buf = 8"
    and "\<forall>ev \<in> set noise. peer_noise ev" and "length noise \<le> 2"
  shows "\<exists>r. snd (serve_step b port buf discovery_probe (Some sender_ip)) = Some r \<and>
    find_peer c (noise @ RecvFrom r (Some (b_addr b)) # evs) =
      (replicate (Suc (length noise)) (discovery_probe, broadcast c, DISCOVERY_PORT), Inr (b_addr b, port))"
proof -
  let ?r = "discovery_reply port" and ?ip = "b_addr b" and ?p = "(discovery_probe, broadcast c, DISCOVERY_PORT)"
  have "find_peer_loop n ?p bf (noise @ RecvFrom ?r (Some ?ip) # evs) =
      (replicate (Suc (length noise)) ?p, Inr (?ip, port))"
    if "length bf = 8" and "length noise < n" and "\<forall>ev \<in> set noise. peer_noise ev" for n bf
    using that
  proof (induction noise arbitrary: n bf)
    case Nil
    then obtain k where "n = Suc k" by (cases n) auto
    with Nil find_peer_reply show ?case by simp
  next
    case (Cons ev noise)
    then obtain k where n: "n = Suc k" by (cases n) auto
    with Cons.prems find_peer_noise [of ev bf k ?p "noise @ RecvFrom ?r (Some ?ip) # evs"]
    obtain bf' where "length bf' = 8"
        "find_peer_loop n ?p bf ((ev # noise) @ RecvFrom ?r (Some ?ip) # evs)
           = sends ?p (find_peer_loop k ?p bf' (noise @ RecvFrom ?r (Some ?ip) # evs))"
      by auto
    with Cons n show ?case by (simp add: sends_def)
  qed
  from this [of "replicate 8 0" 3] have
    "find_peer c (noise @ RecvFrom ?r (Some ?ip) # evs) = (replicate (Suc (length noise)) ?p, Inr (?ip, port))"
    using assms(3,4) by (simp add: find_peer_def)
  then show ?thesis using serve_step_probe [OF assms(2,1)] by simp
qed

theorem discovery_end_to_end_witness:
  "let b = \<lparr>b_addr = 0xA9FE0C07, b_netmask = 0xFFFF0000, b_mtu = None\<rparr>
   in \<exists>r. snd (serve_step b 4321 [0, 0, 0, 0, 0, 0, 0, 0] discovery_probe (Some 0xA9FEC803)) = Some r \<and>
      find_peer (b\<lparr>b_addr := 0xA9FEC803\<rparr>) ([RecvFails EAGAIN, RecvFrom [1, 2] None] @ [RecvFrom r (Some (b_addr b))])
        = (replicate (Suc (length [RecvFails EAGAIN, RecvFrom [1, 2] None]))
             (discovery_probe, broadcast (b\<lparr>b_addr := 0xA9FEC803\<rparr>), DISCOVERY_PORT), Inr (b_addr b, 4321))"
  unfolding Let_def
  by (rule discovery_end_to_end [where noise = "[RecvFails EAGAIN, RecvFrom [1, 2] None]" and evs = "[]"])
    (simp_all add: contains_def peer_noise_def)

end
