(* ===== verification/Render.thy ===== *)
theory Render
  imports Progress Complex_Main
begin

text \<open>
  The rest of \<open>src/progress.rs\<close>: the line that is drawn, and the block of \<open>--stats\<close>. The
  rates are \<open>f64\<close> numbers, so the arithmetic of \<open>f64\<close> is written out first, for the values
  that occur: zero, quotients and sums of integers below \<open>2 ^ 64\<close> and of nanosecond counts,
  all without a sign and far from the ends of the exponent range, and the infinity and the
  not-a-number that a division by zero gives.
\<close>

section \<open>Doubles\<close>

datatype f64 = Fin rat | Inf | NaN

fun bit_len :: "nat \<Rightarrow> nat" where
  "bit_len n = (if n = 0 then 0 else Suc (bit_len (n div 2)))"

declare bit_len.simps [simp del]

definition round_half_even :: "rat \<Rightarrow> nat" where
  "round_half_even q =
     (let f = nat \<lfloor>q\<rfloor>; r = q - of_nat f
      in if r < 1 / 2 \<or> (r = 1 / 2 \<and> even f) then f else Suc f)"

text \<open>The nearest number with a significand of 53 bits, the even one of two.\<close>

definition unit_exponent :: "rat \<Rightarrow> int" where
  "unit_exponent q =
     (let (n, d) = quotient_of q;
          e = int (bit_len (nat n)) - int (bit_len (nat d)) - 53
      in if q / 2 powi e < 2 ^ 53 then e else e + 1)"

definition f64_of :: "rat \<Rightarrow> f64" where
  "f64_of q =
     (if q = 0 then Fin 0
      else let u = 2 powi unit_exponent q in Fin (of_nat (round_half_even (q / u)) * u))"

definition f64_of_u64 :: "u64 \<Rightarrow> f64" where
  "f64_of_u64 w = f64_of (of_nat (unat w))"

fun f64_div :: "f64 \<Rightarrow> f64 \<Rightarrow> f64" where
  "f64_div (Fin a) (Fin b) = (if b \<noteq> 0 then f64_of (a / b) else if a = 0 then NaN else Inf)"
| "f64_div (Fin a) Inf = Fin 0"
| "f64_div Inf (Fin b) = Inf"
| "f64_div _ _ = NaN"

fun f64_add :: "f64 \<Rightarrow> f64 \<Rightarrow> f64" where
  "f64_add (Fin a) (Fin b) = f64_of (a + b)"
| "f64_add NaN _ = NaN"
| "f64_add _ NaN = NaN"
| "f64_add _ _ = Inf"

fun f64_ge :: "f64 \<Rightarrow> f64 \<Rightarrow> bool" where
  "f64_ge (Fin a) (Fin b) = (b \<le> a)"
| "f64_ge Inf b = (b \<noteq> NaN)"
| "f64_ge _ _ = False"

text \<open>\<open>f64::max\<close> yields the other operand of a not-a-number.\<close>

definition f64_max :: "f64 \<Rightarrow> f64 \<Rightarrow> f64" where
  "f64_max a b = (if a = NaN then b else if b = NaN then a else if f64_ge a b then a else b)"

section \<open>Numbers as text\<close>

fun decimal :: "nat \<Rightarrow> bytes" where
  "decimal n = (if n < 10 then [] else decimal (n div 10)) @ [word_of_nat (0x30 + n mod 10)]"

declare decimal.simps [simp del]

fun padded :: "nat \<Rightarrow> nat \<Rightarrow> bytes" where
  "padded 0 n = []"
| "padded (Suc p) n = padded p (n div 10) @ [word_of_nat (0x30 + n mod 10)]"

text \<open>\<open>{:.p}\<close>: the exact value, rounded to \<open>p\<close> decimals, a tie to the even digit.\<close>

fun fixed :: "nat \<Rightarrow> f64 \<Rightarrow> bytes" where
  "fixed p (Fin q) =
     (let n = round_half_even (q * 10 ^ p)
      in decimal (n div 10 ^ p) @ [0x2E] @ padded p (n mod 10 ^ p))"
| "fixed p Inf = ascii ''inf''"
| "fixed p NaN = ascii ''NaN''"

definition giga :: f64 where "giga = Fin (10 ^ 9)"
definition mega :: f64 where "mega = Fin (10 ^ 6)"
definition kilo :: f64 where "kilo = Fin (10 ^ 3)"

definition format_bytes :: "u64 \<Rightarrow> bytes" where
  "format_bytes bytes =
     (let v = f64_of_u64 bytes
      in if f64_ge v giga then fixed 2 (f64_div v giga) @ ascii '' GB''
         else if f64_ge v mega then fixed 2 (f64_div v mega) @ ascii '' MB''
         else if f64_ge v kilo then fixed 2 (f64_div v kilo) @ ascii '' KB''
         else decimal (unat bytes) @ ascii '' B'')"

definition format_rate :: "f64 \<Rightarrow> bytes" where
  "format_rate r =
     (if f64_ge r giga then fixed 2 (f64_div r giga) @ ascii '' GB/s''
      else if f64_ge r mega then fixed 2 (f64_div r mega) @ ascii '' MB/s''
      else fixed 2 (f64_div r kilo) @ ascii '' KB/s'')"

text \<open>The micro sign is U+00B5.\<close>

definition format_nanos :: "u64 \<Rightarrow> bytes" where
  "format_nanos nanos =
     (if 1000000000 \<le> nanos then fixed 2 (f64_div (f64_of_u64 nanos) giga) @ ascii '' s''
      else if 1000000 \<le> nanos then fixed 1 (f64_div (f64_of_u64 nanos) mega) @ ascii '' ms''
      else fixed 1 (f64_div (f64_of_u64 nanos) kilo) @ [0x20, 0xC2, 0xB5, 0x73])"

section \<open>The drawn line\<close>

text \<open>
  What one turn of the loop observes: the flag, the counters and the path, each read on its
  own while the transfer goes on, and the time, in nanoseconds since the transfer started.
\<close>

record turn_seen =
  tk_done :: bool
  tk_bytes :: u64
  tk_files :: u64
  tk_total_files :: u64
  tk_now :: nat
  tk_current :: bytes

text \<open>\<open>Duration::as_secs_f64\<close>; \<open>duration_since\<close> is zero for a later instant.\<close>

definition secs_f64 :: "nat \<Rightarrow> f64" where
  "secs_f64 ns =
     f64_add (f64_of (of_nat (ns div 10 ^ 9))) (f64_div (f64_of (of_nat (ns mod 10 ^ 9))) giga)"

definition progress_line :: "bytes \<Rightarrow> u64 \<Rightarrow> nat \<Rightarrow> turn_seen \<Rightarrow> bytes" where
  "progress_line verb last_bytes last_at t =
     verb @ [0x20] @ decimal (unat (tk_files t)) @ [0x2F] @ decimal (unat (tk_total_files t)) @
     ascii '' files  '' @ format_bytes (tk_bytes t) @ ascii ''  '' @
     format_rate (f64_div (f64_of_u64 (tk_bytes t - last_bytes)) (secs_f64 (tk_now t - last_at))) @
     ascii ''  (avg '' @ format_rate (f64_div (f64_of_u64 (tk_bytes t)) (secs_f64 (tk_now t))) @
     ascii '')  '' @ truncate_middle (tk_current t) 40"

definition summary_line :: "bytes \<Rightarrow> turn_seen \<Rightarrow> bytes" where
  "summary_line verb t =
     (let elapsed = f64_max (secs_f64 (tk_now t)) (f64_of (1 / 10 ^ 6))
      in verb @ [0x20] @ format_bytes (tk_bytes t) @ ascii '' in '' @ decimal (unat (tk_files t)) @
         ascii '' files, '' @ fixed 1 elapsed @ ascii ''s ('' @
         format_rate (f64_div (f64_of_u64 (tk_bytes t)) elapsed) @ ascii '')'')"

text \<open>Carriage return and erase to the end of the line; line feed.\<close>

definition CLEAR :: bytes where "CLEAR = [0x0D, 0x1B, 0x5B, 0x4B]"
definition NL :: bytes where "NL = [0x0A]"

text \<open>
  The loop, over the turns observed so far: what it writes to the terminal, and whether it
  has returned. A failing write is ignored.
\<close>

fun render_loop ::
  "bool \<Rightarrow> bytes \<Rightarrow> u64 \<Rightarrow> nat \<Rightarrow> u32 \<Rightarrow> turn_seen list \<Rightarrow> bytes \<times> bool" where
  "render_loop tty verb last_bytes last_at until [] = ([], False)"
| "render_loop tty verb last_bytes last_at until (t # ts) =
     (let line = progress_line verb last_bytes last_at t;
          drawn = (if tty then CLEAR @ line else if until = 0 then line @ NL else []);
          until' = (if tty then until else if until = 0 then 10 else until - 1)
      in if tk_done t
         then (drawn @ (if tty then CLEAR else []) @ summary_line verb t @ NL, True)
         else case render_loop tty verb (tk_bytes t) (tk_now t) until' ts of
                (out, returned) \<Rightarrow> (drawn @ out, returned))"

definition start_render :: "bool \<Rightarrow> progress \<Rightarrow> nat \<Rightarrow> turn_seen list \<Rightarrow> bytes \<times> bool" where
  "start_render tty p now ts = render_loop tty (p_verb p) 0 now 0 ts"

section \<open>The statistics\<close>

text \<open>The accumulated times; \<open>t_total\<close> is stored once at the end.\<close>

record timings =
  t_walk :: u64
  t_meta :: u64
  t_accept :: u64
  t_total :: u64
  t_hash :: u64
  t_flush :: u64

text \<open>\<open>{:<12}\<close> of an ASCII label.\<close>

definition label :: "bytes \<Rightarrow> bytes" where
  "label l = ascii ''  '' @ l @ replicate (12 - length l) 0x20 @ [0x20]"

definition report :: "bool \<Rightarrow> diag \<Rightarrow> timings \<Rightarrow> bytes list" where
  "report sending d t =
     (let side = ascii (if sending then ''send'' else ''recv'');
          disk = ascii (if sending then ''disk read'' else ''disk written'');
          socket = ascii (if sending then ''socket out'' else ''socket in'');
          phase = ascii (if sending then ''walk'' else ''metadata'');
          nanos = (if sending then t_walk t else t_meta t);
          total = (if t_accept t \<le> t_total t then t_total t - t_accept t else 0)
      in [ascii ''stats ['' @ side @ ascii '']'',
          label disk @ format_bytes (d_disk_bytes d),
          label socket @ format_bytes (d_socket_bytes d),
          label (ascii ''entries'') @ ascii ''files '' @ decimal (unat (d_files d)) @ ascii '', dirs '' @
            decimal (unat (d_dirs d)) @ ascii '', symlinks '' @ decimal (unat (d_symlinks d)),
          label (ascii ''pool stalls'') @ decimal (unat (d_pool_stalls d)) @ ascii ''  (queue peak '' @
            decimal (unat (d_queue_peak d)) @ ascii '')'',
          label phase @ format_nanos nanos] @
         concat (map (\<lambda>(l, n). if 0 < n then [label (ascii l) @ format_nanos n] else [])
           [(''hash'', t_hash t), (''flush'', t_flush t), (''waiting'', t_accept t)]) @
         [label (ascii ''total'') @ format_nanos total])"

section \<open>What reaches the terminal\<close>

lemma plain_simps [simp]:
  "plain []" "plain (b # s) \<longleftrightarrow> 0x20 \<le> b \<and> b < 0x7F \<and> plain s" "plain (a @ s) \<longleftrightarrow> plain a \<and> plain s"
  by (simp_all add: plain_def)

lemma plain_digit: "plain [word_of_nat (0x30 + n mod 10)]"
proof -
  have m: "n mod 10 < 10" by simp
  then have "unat (word_of_nat (0x30 + n mod 10) :: byte) = 0x30 + n mod 10"
    by (simp only: unat_of_nat) simp
  with m show ?thesis by (simp add: word_le_nat_alt word_less_nat_alt del: of_nat_add)
qed

lemma plain_decimal [simp]: "plain (decimal n)"
proof (induction n rule: decimal.induct)
  case (1 n)
  then show ?case using plain_digit [of n] by (subst decimal.simps) simp
qed

lemma plain_padded [simp]: "plain (padded p n)"
  using plain_digit by (induction p n rule: padded.induct) simp_all

lemma plain_fixed [simp]: "plain (fixed p x)"
  by (cases x) (simp_all add: Let_def ascii_def)

lemma plain_format [simp]: "plain (format_bytes n)" "plain (format_rate r)"
  by (simp_all add: format_bytes_def format_rate_def Let_def ascii_def)

lemma clean_line:
  assumes "clean verb" "clean (tk_current t)"
  shows "clean (progress_line verb lb la t)"
proof -
  have "clean (concat [verb, ([0x20] @ decimal (unat (tk_files t)) @ [0x2F] @
      decimal (unat (tk_total_files t)) @ ascii '' files  '' @ format_bytes (tk_bytes t) @ ascii ''  '' @
      format_rate (f64_div (f64_of_u64 (tk_bytes t - lb)) (secs_f64 (tk_now t - la))) @
      ascii ''  (avg '' @ format_rate (f64_div (f64_of_u64 (tk_bytes t)) (secs_f64 (tk_now t))) @
      ascii '')  ''), truncate_middle (tk_current t) 40])"
    unfolding concat.simps append_Nil2
    by (intro clean_append assms clean_truncate plain_clean) (simp add: ascii_def)
  then show ?thesis by (simp add: progress_line_def)
qed

lemma clean_summary:
  assumes "clean verb"
  shows "clean (summary_line verb t)"
proof -
  let ?e = "f64_max (secs_f64 (tk_now t)) (f64_of (1 / 10 ^ 6))"
  have "clean (verb @ ([0x20] @ format_bytes (tk_bytes t) @ ascii '' in '' @ decimal (unat (tk_files t)) @
      ascii '' files, '' @ fixed 1 ?e @ ascii ''s ('' @
      format_rate (f64_div (f64_of_u64 (tk_bytes t)) ?e) @ ascii '')''))"
    by (intro clean_append assms plain_clean) (simp add: ascii_def)
  then show ?thesis by (simp add: summary_line_def Let_def)
qed

text \<open>The turns taken: up to and with the first that sees the flag.\<close>

definition turns :: "turn_seen list \<Rightarrow> nat" where
  "turns ts = length (takeWhile (Not \<circ> tk_done) ts) + of_bool (\<exists>t \<in> set ts. tk_done t)"

lemma turns_simps [simp]: "turns [] = 0" "turns (t # ts) = (if tk_done t then 1 else Suc (turns ts))"
  by (auto simp: turns_def)

text \<open>What is written, in pieces: control sequences, and text without any.\<close>

definition drawn_as :: "bytes \<Rightarrow> nat \<Rightarrow> nat \<Rightarrow> bool" where
  "drawn_as out clears lines \<longleftrightarrow>
     (\<exists>ps. out = concat ps \<and> (\<forall>p \<in> set ps. p = CLEAR \<or> p = NL \<or> clean p) \<and>
        count_list ps CLEAR = clears \<and> count_list ps NL = lines)"

lemma codes_not_clean: "\<not> clean CLEAR" "\<not> clean NL" "CLEAR \<noteq> NL"
  by (simp_all add: clean_def CLEAR_def NL_def char_width_def)

lemma drawn_as_text: "clean s \<Longrightarrow> drawn_as s 0 0"
  unfolding drawn_as_def by (rule exI [of _ "[s]"]) (use codes_not_clean in auto)

lemma drawn_as_codes: "drawn_as CLEAR 1 0" "drawn_as NL 0 1" "drawn_as [] 0 0"
  unfolding drawn_as_def using codes_not_clean(3)
  by (intro exI [of _ "[CLEAR]"] exI [of _ "[NL]"] exI [of _ "[]"]; simp)+

lemma drawn_as_append: "drawn_as a c l \<Longrightarrow> drawn_as b c' l' \<Longrightarrow> drawn_as (a @ b) (c + c') (l + l')"
  unfolding drawn_as_def
proof (elim exE conjE)
  fix ps qs
  assume "a = concat ps" "\<forall>p \<in> set ps. p = CLEAR \<or> p = NL \<or> clean p" "count_list ps CLEAR = c" "count_list ps NL = l"
    "b = concat qs" "\<forall>p \<in> set qs. p = CLEAR \<or> p = NL \<or> clean p" "count_list qs CLEAR = c'" "count_list qs NL = l'"
  then show "\<exists>ps. a @ b = concat ps \<and> (\<forall>p \<in> set ps. p = CLEAR \<or> p = NL \<or> clean p) \<and>
      count_list ps CLEAR = c + c' \<and> count_list ps NL = l + l'"
    by (intro exI [of _ "ps @ qs"]) auto
qed

text \<open>The lines of a log: one at once, and one every eleven turns.\<close>

definition log_lines :: "u32 \<Rightarrow> nat \<Rightarrow> nat" where
  "log_lines until n = (n + 10 - unat until) div 11"

lemma log_lines_step:
  assumes "until \<le> 10"
  shows "log_lines until (Suc n) =
    (if until = 0 then Suc (log_lines 10 n) else log_lines (until - 1) n)"
proof (cases "until = 0")
  case False
  then have "unat (until - 1) = unat until - 1" "0 < unat until"
    by (simp_all add: unat_minus_one word_gt_0 unat_gt_0)
  then show ?thesis using False by (simp add: log_lines_def)
qed (simp add: log_lines_def)

lemma render_loop_drawn:
  assumes "clean verb"
  shows "\<forall>t \<in> set ts. clean (tk_current t) \<Longrightarrow> until \<le> 10 \<Longrightarrow>
    render_loop tty verb lb la until ts = (out, returned) \<Longrightarrow>
    returned = (\<exists>t \<in> set ts. tk_done t) \<and>
    drawn_as out (if tty then turns ts + of_bool returned else 0)
      ((if tty then 0 else log_lines until (turns ts)) + of_bool returned)"
proof (induction ts arbitrary: lb la until out returned)
  case Nil
  then show ?case using drawn_as_codes(3) by (cases tty) (simp_all add: log_lines_def)
next
  case (Cons t ts)
  let ?line = "progress_line verb lb la t"
  let ?until = "if tty then until else if until = 0 then 10 else until - 1"
  let ?drawn = "if tty then CLEAR @ ?line else if until = 0 then ?line @ NL else []"
  let ?new = "(if tty \<or> until \<noteq> 0 then 0 else 1) :: nat"
  have "clean ?line" using assms Cons.prems(1) by (intro clean_line) simp_all
  then have line: "drawn_as ?line 0 0" by (rule drawn_as_text)
  have d: "drawn_as ?drawn (if tty then 1 else 0) ?new"
    using drawn_as_append [OF drawn_as_codes(1) line] drawn_as_append [OF line drawn_as_codes(2)] drawn_as_codes(3)
    by simp
  show ?case
  proof (cases "tk_done t")
    case True
    have s: "drawn_as (summary_line verb t @ NL) 0 1"
      using drawn_as_append [OF drawn_as_text [OF clean_summary [OF assms]] drawn_as_codes(2)] by simp
    have c: "drawn_as (if tty then CLEAR else []) (if tty then 1 else 0) 0"
      using drawn_as_codes by simp
    have "?new = (if tty then 0 else log_lines until 1)"
      using log_lines_step [OF Cons.prems(2), of 0] by (auto simp: log_lines_def word_le_nat_alt)
    with drawn_as_append [OF d drawn_as_append [OF c s]] True Cons.prems(3) show ?thesis
      by (cases tty) (auto simp: Let_def)
  next
    case False
    obtain out' ret where r: "render_loop tty verb (tk_bytes t) (tk_now t) ?until ts = (out', ret)"
      by (cases "render_loop tty verb (tk_bytes t) (tk_now t) ?until ts")
    have u: "?until \<le> 10"
      using Cons.prems(2) by (auto simp: word_le_nat_alt unat_minus_one)
    have "\<forall>t \<in> set ts. clean (tk_current t)" using Cons.prems(1) by simp
    note ih = conjunct1 [OF Cons.IH [OF this u r]] conjunct2 [OF Cons.IH [OF this u r]]
    have "out = ?drawn @ out' \<and> returned = ret"
      using r False Cons.prems(3) by (simp add: Let_def)
    moreover have "?new + (if tty then 0 else log_lines ?until (turns ts)) =
        (if tty then 0 else log_lines until (turns (t # ts)))"
      using log_lines_step [OF Cons.prems(2), of "turns ts"] False by simp
    ultimately show ?thesis
      using drawn_as_append [OF d ih(2)] ih(1) False
      by (cases tty) (simp_all add: add.assoc [symmetric])
  qed
qed

text \<open>
  C37. Whatever paths arrive, what the display writes is its own control sequences around
  text that holds no control character: on a terminal one redraw for every turn and one
  more before the summary, in a log a line at once and then one every eleven turns; and
  the loop returns, with one summary line, in the first turn that sees the flag.
\<close>

theorem display_output:
  assumes "\<forall>t \<in> set ts. \<exists>path q. utf8_valid path \<and> tk_current t = p_current (set_current path q)"
    and "clean (p_verb p)" and "start_render tty p now ts = (out, returned)"
  shows "returned = (\<exists>t \<in> set ts. tk_done t) \<and>
    (\<exists>ps. out = concat ps \<and> (\<forall>x \<in> set ps. x = CLEAR \<or> x = NL \<or> clean x) \<and>
       count_list ps CLEAR = (if tty then turns ts + of_bool returned else 0) \<and>
       count_list ps NL = (if tty then 0 else (turns ts + 10) div 11) + of_bool returned)"
proof -
  have "\<forall>t \<in> set ts. clean (tk_current t)" using assms(1) clean_current by force
  note d = render_loop_drawn [OF assms(2) this _ assms(3) [unfolded start_render_def]]
  have "(0 :: u32) \<le> 10" by simp
  from d [OF this] show ?thesis unfolding drawn_as_def log_lines_def unat_0 minus_nat.diff_0 .
qed

text \<open>A session shown in a log: a path with an escape, then the last turn.\<close>

definition sample_ticks :: "turn_seen list" where
  "sample_ticks =
     [\<lparr>tk_done = False, tk_bytes = 0, tk_files = 0, tk_total_files = 1, tk_now = 200000000,
       tk_current = p_current (set_current [0x61, 0x1B] (progress_new []))\<rparr>,
      \<lparr>tk_done = True, tk_bytes = 1500, tk_files = 1, tk_total_files = 1, tk_now = 400000000,
       tk_current = p_current (set_current [0x61, 0x1B] (progress_new []))\<rparr>]"

theorem display_output_witness:
  "case start_render False (progress_new (ascii ''receiving'')) 0 sample_ticks of (out, returned) \<Rightarrow>
     returned \<and> (\<exists>ps. out = concat ps \<and> (\<forall>x \<in> set ps. x = CLEAR \<or> x = NL \<or> clean x) \<and>
       count_list ps CLEAR = 0 \<and> count_list ps NL = Suc 1)"
proof -
  obtain out returned where
    r: "start_render False (progress_new (ascii ''receiving'')) 0 sample_ticks = (out, returned)"
    by (cases "start_render False (progress_new (ascii ''receiving'')) 0 sample_ticks")
  have v: "utf8_valid [0x61, 0x1B]" by (rule utf8_ascii) simp
  have "\<forall>t \<in> set sample_ticks. \<exists>path q. utf8_valid path \<and> tk_current t = p_current (set_current path q)"
    unfolding sample_ticks_def list.set ball_simps(5,7) turn_seen.simps using v by blast
  moreover have "clean (p_verb (progress_new (ascii ''receiving'')))"
    by (rule plain_clean) (simp add: progress_new_def ascii_def)
  ultimately have "returned = (\<exists>t \<in> set sample_ticks. tk_done t) \<and>
      (\<exists>ps. out = concat ps \<and> (\<forall>x \<in> set ps. x = CLEAR \<or> x = NL \<or> clean x) \<and>
       count_list ps CLEAR = (if False then turns sample_ticks + of_bool returned else 0) \<and>
       count_list ps NL = (if False then 0 else (turns sample_ticks + 10) div 11) + of_bool returned)"
    using r by (rule display_output)
  moreover have "\<exists>t \<in> set sample_ticks. tk_done t" "turns sample_ticks = 2"
    by (simp_all add: sample_ticks_def)
  ultimately show ?thesis unfolding r by (cases returned) simp_all
qed

end
