(* ===== verification/Commands.thy ===== *)
theory Commands
  imports EndToEnd Phrase Iface Render
begin

text \<open>
  \<open>src/main.rs\<close> and \<open>src/awake.rs\<close>: the commands \<open>tf recv\<close> and \<open>tf send\<close>. The command
  line is taken as parsed. What the machine answers in the course of a command is its
  environment; what the command does besides its session is a list of acts.
\<close>

section \<open>What a command does and is told\<close>

text \<open>
  \<open>Say\<close> is a line on the error stream, \<open>Prompt\<close> a text without a line end, \<open>Draw\<close> what the
  display thread wrote; \<open>Caffeinate\<close> spawns the child process that keeps the machine
  awake, and \<open>Release\<close> kills and reaps it; \<open>Respond\<close> spawns the discovery responder.
\<close>

datatype act =
    Say bytes
  | Prompt bytes
  | Draw bytes
  | Caffeinate
  | Release
  | MakeDirs bytes
  | Listen ipv4 u16
  | Respond bridge u16
  | Search probes
  | RunSession

datatype command =
    Recv bytes u16 bool bool
  | Send "bytes list" "(ipv4 \<times> u16) option" "bytes option" bool bool

text \<open>
  The interface list, whether \<open>caffeinate\<close> can be spawned, whether the error stream is a
  terminal, and what the display thread sees: the turns before the session ends and the
  one after; and the times the diagnostics added up.
\<close>

record machine =
  m_ifaces :: "errno + ifaddr list"
  m_caffeinate :: "errno option"
  m_tty :: bool
  m_start :: nat
  m_ticks :: "turn_seen list"
  m_last :: turn_seen
  m_timings :: timings

text \<open>
  For \<open>recv\<close>: three bytes of \<open>/dev/urandom\<close>, creating the destination, binding the
  listener, reading back its port. For \<open>send\<close>: a line of the standard input, what answers
  the discovery, and the environment variable that sets the number of flows.
\<close>

record recv_machine = machine +
  r_random :: "(byte \<times> byte \<times> byte) result"
  r_mkdirs :: "errno option"
  r_bind :: "errno option"
  r_port :: "errno + u16"

record send_machine = machine +
  s_line :: "bytes result"
  s_answers :: "peer_event list"
  s_streams :: "bytes option"

text \<open>The state of a command: what it has done, and that of its session.\<close>

record 'h cmd =
  c_acts :: "act list"
  c_session :: 'h

definition perform :: "act \<Rightarrow> ('h cmd, unit) op" where
  "perform a s = (Inr (), s\<lparr>c_acts := c_acts s @ [a]\<rparr>)"

definition answer :: "'a result \<Rightarrow> ('s, 'a) op" where
  "answer r s = (r, s)"

definition os_answer :: "errno + 'a \<Rightarrow> 'a result" where
  "os_answer r = (case r of Inl e \<Rightarrow> Inl (OsError e) | Inr v \<Rightarrow> Inr v)"

definition os_done :: "errno option \<Rightarrow> unit result" where
  "os_done r = (case r of Some e \<Rightarrow> Inl (OsError e) | None \<Rightarrow> Inr ())"

section \<open>Parts of both commands\<close>

definition IFACE :: bytes where "IFACE = ascii ''bridge0''"

definition mtu_hint :: bytes where
  "mtu_hint = ascii ''hint: '' @ IFACE @
     ascii '' MTU is 1500. Jumbo frames may help older links: set mtu 9000 on each member interface (ifconfig ''
     @ IFACE @ ascii '' | grep member), then '' @ IFACE @ ascii '', on BOTH Macs.''"

definition warn_about_mtu :: "bridge \<Rightarrow> ('h cmd, unit) op" where
  "warn_about_mtu b = (if b_mtu b = Some 1500 then perform (Say mtu_hint) else io_return ())"

text \<open>How an error is printed is left open.\<close>

definition keep_awake :: "(io_error \<Rightarrow> bytes) \<Rightarrow> errno option \<Rightarrow> ('h cmd, bool) op" where
  "keep_awake show_error r =
     (case r of
        None \<Rightarrow> io_bind (perform Caffeinate) (\<lambda>_. io_return True)
      | Some e \<Rightarrow>
          io_bind (perform (Say (ascii ''tf: could not prevent sleep (caffeinate: '' @ show_error (OsError e) @ ascii '')'')))
            (\<lambda>_. io_return False))"

text \<open>The guard is dropped when the function returns, on every path.\<close>

definition awake :: "(io_error \<Rightarrow> bytes) \<Rightarrow> errno option \<Rightarrow> ('h cmd, 'a) op \<Rightarrow> ('h cmd, 'a) op" where
  "awake show_error r body =
     io_bind (keep_awake show_error r) (\<lambda>guard s.
       case body s of (x, t) \<Rightarrow> (x, if guard then snd (perform Release t) else t))"

text \<open>
  The display runs beside the session: it is started before it and joined after \<open>finish\<close>
  has set the flag, which the turns before do not see.
\<close>

definition observed :: "'m machine_scheme \<Rightarrow> turn_seen list" where
  "observed m = map (\<lambda>t. t\<lparr>tk_done := False\<rparr>) (m_ticks m) @ [(m_last m)\<lparr>tk_done := True\<rparr>]"

definition drawn :: "'m machine_scheme \<Rightarrow> progress \<Rightarrow> bytes" where
  "drawn m p = fst (start_render (m_tty m) p (m_start m) (observed m))"

definition diag_default :: diag where
  "diag_default =
     \<lparr>d_disk_bytes = 0, d_socket_bytes = 0, d_files = 0, d_dirs = 0, d_symlinks = 0,
      d_pool_stalls = 0, d_queue_peak = 0, d_inflight = 0\<rparr>"

fun say_all :: "bytes list \<Rightarrow> ('h cmd, unit) op" where
  "say_all [] = io_return ()"
| "say_all (l # ls) = io_bind (perform (Say l)) (\<lambda>_. say_all ls)"

definition report_stats :: "diag option \<Rightarrow> timings \<Rightarrow> bool \<Rightarrow> ('h cmd, unit) op" where
  "report_stats d t sending =
     (case d of None \<Rightarrow> io_return () | Some d \<Rightarrow> say_all (report sending d t))"

section \<open>tf recv\<close>

definition show_ipv4 :: "ipv4 \<Rightarrow> bytes" where
  "show_ipv4 a =
     (let n = unat a
      in decimal (n div 2 ^ 24) @ [0x2E] @ decimal (n div 2 ^ 16 mod 256) @ [0x2E] @
         decimal (n div 2 ^ 8 mod 256) @ [0x2E] @ decimal (n mod 256))"

text \<open>\<open>Receiver::bind\<close>: the destination is made first.\<close>

definition bind_receiver ::
  "'m recv_machine_scheme \<Rightarrow> bytes \<Rightarrow> ipv4 \<Rightarrow> u16 \<Rightarrow> ('h cmd, unit) op" where
  "bind_receiver m dir addr port =
     io_bind (perform (MakeDirs dir)) (\<lambda>_.
     io_bind (answer (os_done (r_mkdirs m))) (\<lambda>_.
     io_bind (perform (Listen addr port)) (\<lambda>_.
     answer (os_done (r_bind m)))))"

text \<open>What the receiver starts from: a fresh display, and counters when they are asked for.\<close>

definition fresh_host :: "bool \<Rightarrow> 'w host \<Rightarrow> 'w host" where
  "fresh_host stats h =
     h\<lparr>h_net := (h_net h)\<lparr>n_prog := progress_new (ascii ''receiving''),
       n_sh := (n_sh (h_net h))\<lparr>sh_diag := if stats then Some diag_default else None\<rparr>\<rparr>\<rparr>"

definition finish_host :: "'w host \<Rightarrow> 'w host" where
  "finish_host h = h\<lparr>h_net := (h_net h)\<lparr>n_prog := finish (n_prog (h_net h))\<rparr>\<rparr>"

text \<open>The session, from creating its display to the report.\<close>

definition recv_session ::
  "'m recv_machine_scheme \<Rightarrow> ('w host, stats) op \<Rightarrow> bool \<Rightarrow> ('w host cmd, unit) op" where
  "recv_session m accept stats =
     io_bind (perform RunSession) (\<lambda>_ s.
       case accept (fresh_host stats (c_session s)) of
         (r, h) \<Rightarrow>
           (io_bind (perform (Draw (drawn m (progress_new (ascii ''receiving''))))) (\<lambda>_.
            io_bind (report_stats (sh_diag (n_sh (h_net h))) (m_timings m) False) (\<lambda>_.
            answer (case r of Inl e \<Rightarrow> Inl e | Inr _ \<Rightarrow> Inr ())))) (s\<lparr>c_session := finish_host h\<rparr>))"

definition receive ::
  "(io_error \<Rightarrow> bytes) \<Rightarrow> (bytes \<Rightarrow> bytes) \<Rightarrow> 'h blake3 \<Rightarrow> 'w kernel \<Rightarrow> 'm recv_machine_scheme \<Rightarrow>
   bytes \<Rightarrow> u16 \<Rightarrow> bool \<Rightarrow> bool \<Rightarrow> ('w host cmd, unit) op" where
  "receive show_error lower B k m dir port stats durable =
     io_bind (answer (find_bridge IFACE (m_ifaces m))) (\<lambda>bridge.
     io_bind (warn_about_mtu bridge) (\<lambda>_.
     awake show_error (m_caffeinate m) (
       io_bind (answer (r_random m)) (\<lambda>(b0, b1, b2).
       let phrase = generate_phrase b0 b1 b2; token = derive_token lower phrase in
       io_bind (bind_receiver m dir (b_addr bridge) port) (\<lambda>_.
       io_bind (answer (os_answer (r_port m))) (\<lambda>bound.
       io_bind (perform (Respond bridge bound)) (\<lambda>_.
       io_bind (perform (Say (ascii ''Listening on '' @ show_ipv4 (b_addr bridge) @ [0x3A] @ decimal (unat bound) @
                  [0x20, 0xE2, 0x80, 0x94] @ ascii '' writing to '' @ to_string_lossy dir))) (\<lambda>_.
       io_bind (perform (Say (ascii ''Phrase: '' @ phrase))) (\<lambda>_.
       recv_session m (accept_one B k dir token durable) stats))))))))) "

section \<open>tf send\<close>

definition prompt_for_phrase :: "'m send_machine_scheme \<Rightarrow> ('h cmd, bytes) op" where
  "prompt_for_phrase m =
     io_bind (perform (Prompt (ascii ''Phrase shown on the receiving Mac: ''))) (\<lambda>_.
     io_bind (answer (s_line m)) (\<lambda>line.
     let line = trim line in
     if line = [] then io_throw (IoError InvalidInput PhraseRequired) else io_return line))"

definition fresh_session :: "bool \<Rightarrow> session \<Rightarrow> session" where
  "fresh_session stats s =
     s\<lparr>se_lane := (se_lane s)\<lparr>ln_prog := progress_new (ascii ''sending''),
       ln_diag := if stats then Some diag_default else None\<rparr>\<rparr>"

definition finish_session :: "session \<Rightarrow> session" where
  "finish_session s = s\<lparr>se_lane := (se_lane s)\<lparr>ln_prog := finish (ln_prog (se_lane s))\<rparr>\<rparr>"

definition say_skipped :: "stats result \<Rightarrow> ('h cmd, unit) op" where
  "say_skipped r =
     (case r of
        Inr st \<Rightarrow>
          if 0 < st_skipped_files st
          then perform (Say (ascii ''skipped '' @ decimal (unat (st_skipped_files st)) @
                 ascii '' files already on the receiver ('' @ format_bytes (st_skipped_bytes st) @ ascii '')''))
          else io_return ()
      | Inl _ \<Rightarrow> io_return ())"

text \<open>
  The connections of a session are those to the address it is given; the session is
  therefore a function of it.
\<close>

definition send_session ::
  "'m send_machine_scheme \<Rightarrow> (session, stats) op \<Rightarrow> bool \<Rightarrow> (session cmd, unit) op" where
  "send_session m send stats =
     io_bind (perform RunSession) (\<lambda>_ s.
       case send (fresh_session stats (c_session s)) of
         (r, h) \<Rightarrow>
           (io_bind (perform (Draw (drawn m (progress_new (ascii ''sending''))))) (\<lambda>_.
            io_bind (report_stats (ln_diag (se_lane h)) (m_timings m) True) (\<lambda>_.
            io_bind (say_skipped r) (\<lambda>_.
            answer (case r of Inl e \<Rightarrow> Inl e | Inr _ \<Rightarrow> Inr ()))))) (s\<lparr>c_session := finish_session h\<rparr>))"

definition transmit ::
  "(io_error \<Rightarrow> bytes) \<Rightarrow> (bytes \<Rightarrow> bytes) \<Rightarrow> 'h blake3 \<Rightarrow> (bytes \<Rightarrow> node) \<Rightarrow> 'm send_machine_scheme \<Rightarrow>
   (ipv4 \<times> u16 \<Rightarrow> session) \<Rightarrow> bytes list \<Rightarrow> (ipv4 \<times> u16) option \<Rightarrow> bytes option \<Rightarrow> bool \<Rightarrow> bool \<Rightarrow>
   (session cmd, unit) op" where
  "transmit show_error lower B look m dials paths peer token stats verify =
     io_bind (answer (find_bridge IFACE (m_ifaces m))) (\<lambda>bridge.
     io_bind (warn_about_mtu bridge) (\<lambda>_.
     awake show_error (m_caffeinate m) (
       io_bind (case token of Some phrase \<Rightarrow> io_return phrase | None \<Rightarrow> prompt_for_phrase m) (\<lambda>phrase.
       let token = derive_token lower phrase in
       io_bind (case peer of
                  Some peer \<Rightarrow> io_return peer
                | None \<Rightarrow> let (probes, found) = find_peer bridge (s_answers m) in
                    io_bind (perform (Search probes)) (\<lambda>_. answer found)) (\<lambda>peer s.
       send_session m (send_to_diag B look paths token verify (s_streams m)) stats
         (s\<lparr>c_session := dials peer\<rparr>))))))"

section \<open>The program\<close>

text \<open>\<open>run\<close> dispatches; \<open>main\<close>: the exit code, after the error was printed.\<close>

fun run ::
  "(bytes \<Rightarrow> u16 \<Rightarrow> bool \<Rightarrow> bool \<Rightarrow> 'r) \<Rightarrow>
   (bytes list \<Rightarrow> (ipv4 \<times> u16) option \<Rightarrow> bytes option \<Rightarrow> bool \<Rightarrow> bool \<Rightarrow> 'r) \<Rightarrow> command \<Rightarrow> 'r" where
  "run recv send (Recv dir port stats durable) = recv dir port stats durable"
| "run recv send (Send paths peer token stats no_verify) = send paths peer token stats (\<not> no_verify)"

definition exit_code :: "(io_error \<Rightarrow> bytes) \<Rightarrow> ('h cmd, unit) op \<Rightarrow> 'h cmd \<Rightarrow> nat \<times> 'h cmd" where
  "exit_code show_error prog s =
     (case prog s of
        (Inr _, t) \<Rightarrow> (0, t)
      | (Inl e, t) \<Rightarrow> (1, snd (perform (Say (ascii ''tf: '' @ show_error e)) t)))"

section \<open>How the parts run\<close>

lemma perform_run [simp]: "perform a s = (Inr (), s\<lparr>c_acts := c_acts s @ [a]\<rparr>)"
  by (simp add: perform_def)

lemma answer_run [simp]: "answer r s = (r, s)"
  by (simp add: answer_def)

lemma say_all_run [simp]: "say_all ls s = (Inr (), s\<lparr>c_acts := c_acts s @ map Say ls\<rparr>)"
  by (induction ls arbitrary: s) simp_all

lemma report_stats_run:
  "\<exists>ls. report_stats d tm snd' s = (Inr (), s\<lparr>c_acts := c_acts s @ map Say ls\<rparr>)"
  by (cases d) (auto simp: report_stats_def intro: exI [of _ "[]"])

lemma warn_run: "\<exists>ls. warn_about_mtu b s = (Inr (), s\<lparr>c_acts := c_acts s @ map Say ls\<rparr>)"
  by (auto simp: warn_about_mtu_def intro: exI [of _ "[]"] exI [of _ "[mtu_hint]"])

lemma say_skipped_run: "\<exists>ls. say_skipped r s = (Inr (), s\<lparr>c_acts := c_acts s @ map Say ls\<rparr>)"
  by (cases r) (auto simp: say_skipped_def intro: exI [of _ "[]"] exI [of _ "[_]"])

definition unit_result :: "'a result \<Rightarrow> unit result" where
  "unit_result r = (case r of Inl e \<Rightarrow> Inl e | Inr _ \<Rightarrow> Inr ())"

lemma recv_session_run:
  assumes "accept (fresh_host stats (c_session s)) = (r, h)"
  shows "\<exists>ls. recv_session m accept stats s =
    (unit_result r, s\<lparr>c_acts := c_acts s @ [RunSession, Draw (drawn m (progress_new (ascii ''receiving'')))] @ map Say ls,
       c_session := finish_host h\<rparr>)"
proof -
  let ?t = "s\<lparr>c_session := finish_host h, c_acts := c_acts s @ [RunSession, Draw (drawn m (progress_new (ascii ''receiving'')))]\<rparr>"
  from report_stats_run obtain ls where
    "report_stats (sh_diag (n_sh (h_net h))) (m_timings m) False ?t = (Inr (), ?t\<lparr>c_acts := c_acts ?t @ map Say ls\<rparr>)"
    by blast
  with assms show ?thesis
    by (intro exI [of _ ls]) (simp add: recv_session_def unit_result_def io_bind_def)
qed

lemma send_session_run:
  assumes "send (fresh_session stats (c_session s)) = (r, h)"
  shows "\<exists>ls. send_session m send stats s =
    (unit_result r, s\<lparr>c_acts := c_acts s @ [RunSession, Draw (drawn m (progress_new (ascii ''sending'')))] @ map Say ls,
       c_session := finish_session h\<rparr>)"
proof -
  let ?t = "s\<lparr>c_session := finish_session h, c_acts := c_acts s @ [RunSession, Draw (drawn m (progress_new (ascii ''sending'')))]\<rparr>"
  from report_stats_run obtain ls where
    l: "report_stats (ln_diag (se_lane h)) (m_timings m) True ?t = (Inr (), ?t\<lparr>c_acts := c_acts ?t @ map Say ls\<rparr>)"
    by blast
  let ?u = "?t\<lparr>c_acts := c_acts ?t @ map Say ls\<rparr>"
  obtain ls' where "say_skipped r ?u = (Inr (), ?u\<lparr>c_acts := c_acts ?u @ map Say ls'\<rparr>)"
    using say_skipped_run [of r ?u] by blast
  with assms l show ?thesis
    by (intro exI [of _ "ls @ ls'"]) (simp add: send_session_def unit_result_def io_bind_def)
qed

text \<open>What is done between taking and releasing the guard.\<close>

definition unguarded :: "act list \<Rightarrow> bool" where
  "unguarded as \<longleftrightarrow> Caffeinate \<notin> set as \<and> Release \<notin> set as"

lemma unguarded_simps [simp]:
  "unguarded []" "unguarded (as @ bs) \<longleftrightarrow> unguarded as \<and> unguarded bs"
  "unguarded (a # as) \<longleftrightarrow> a \<noteq> Caffeinate \<and> a \<noteq> Release \<and> unguarded as" "unguarded (map Say ls)"
  by (auto simp: unguarded_def)

definition guarded :: "act list \<Rightarrow> bool" where
  "guarded as \<longleftrightarrow> unguarded as \<or> (\<exists>pre mid. as = pre @ [Caffeinate] @ mid @ [Release] \<and> unguarded pre \<and> unguarded mid)"

text \<open>Acts are added, and the session's state changes only when the session runs.\<close>

definition goes_on :: "'h cmd \<Rightarrow> 'h cmd \<Rightarrow> bool" where
  "goes_on s t \<longleftrightarrow> (\<exists>new. c_acts t = c_acts s @ new \<and> unguarded new \<and>
     (RunSession \<notin> set new \<longrightarrow> c_session t = c_session s))"

interpretation on: effect "goes_on"
proof
  fix s t u :: "'a cmd"
  show "goes_on s s" by (simp add: goes_on_def)
  assume "goes_on s t" "goes_on t u"
  then show "goes_on s u" by (fastforce simp: goes_on_def)
qed

abbreviation has_run :: "'a \<Rightarrow> 'h cmd \<Rightarrow> bool" where
  "has_run v s \<equiv> RunSession \<in> set (c_acts s)"

lemma perform_goes: "unguarded [a] \<Longrightarrow> spec goes_on P (perform a) (\<lambda>_ _. True)"
  by (rule specI) (auto simp: goes_on_def)

lemma answer_goes: "spec goes_on P (answer r) (\<lambda>_ _. True)"
  by (rule specI) (auto simp: goes_on_def)

lemma on_bind:
  "spec goes_on P m (\<lambda>_ _. True) \<Longrightarrow> (\<And>v. spec goes_on (\<lambda>_. True) (f v) Q) \<Longrightarrow> spec goes_on P (io_bind m f) Q"
  by (rule on.spec_bind)

lemma recv_session_goes: "spec goes_on P (recv_session m accept stats) has_run"
proof (rule specI)
  fix s r t assume e: "recv_session m accept stats s = (r, t)"
  obtain x h where "accept (fresh_host stats (c_session s)) = (x, h)"
    by (cases "accept (fresh_host stats (c_session s))")
  from recv_session_run [where accept = accept and s = s and m = m, OF this] e show "goes_on s t \<and> (\<forall>v. r = Inr v \<longrightarrow> has_run v t)"
    by (auto simp: goes_on_def)
qed

lemma send_session_goes:
  "spec goes_on P (\<lambda>s. send_session m send stats (s\<lparr>c_session := d\<rparr>)) has_run"
proof (rule specI)
  fix s r t assume e: "send_session m send stats (s\<lparr>c_session := d\<rparr>) = (r, t)"
  obtain x h where "send (fresh_session stats (c_session (s\<lparr>c_session := d\<rparr>))) = (x, h)"
    by (cases "send (fresh_session stats (c_session (s\<lparr>c_session := d\<rparr>)))")
  from send_session_run [where send = send and s = "s\<lparr>c_session := d\<rparr>" and m = m, OF this] e show "goes_on s t \<and> (\<forall>v. r = Inr v \<longrightarrow> has_run v t)"
    by (auto simp: goes_on_def)
qed

lemma prompt_goes: "spec goes_on P (prompt_for_phrase m) (\<lambda>_ _. True)"
  unfolding prompt_for_phrase_def Let_def
  by (intro on_bind perform_goes answer_goes spec_if on.spec_throw on.spec_return) simp_all

lemma bind_goes: "spec goes_on P (bind_receiver m dir addr port) (\<lambda>_ _. True)"
  unfolding bind_receiver_def by (intro on_bind perform_goes answer_goes) simp_all

text \<open>What surrounds the guarded part: nothing but hints before, and nothing after.\<close>

definition command_done :: "'h cmd \<Rightarrow> unit result \<Rightarrow> 'h cmd \<Rightarrow> bool" where
  "command_done s r t \<longleftrightarrow>
     guarded (c_acts t) \<and>
     (RunSession \<notin> set (c_acts t) \<longrightarrow> c_session t = c_session s \<and> (\<exists>e. r = Inl e))"

lemma keep_awake_run:
  "\<exists>ls. keep_awake show_error c s =
    (Inr (c = None), s\<lparr>c_acts := c_acts s @ map Say ls @ (if c = None then [Caffeinate] else [])\<rparr>)"
proof (cases c)
  case (Some e)
  let ?l = "ascii ''tf: could not prevent sleep (caffeinate: '' @ show_error (OsError e) @ ascii '')''"
  from Some show ?thesis by (intro exI [of _ "[?l]"]) (simp add: keep_awake_def io_bind_def)
qed (auto simp: keep_awake_def io_bind_def intro: exI [of _ "[]"])

lemma awake_done:
  assumes "spec goes_on (\<lambda>_. True) body has_run" and "awake show_error c body s = (r, t)"
    and "c_acts s = map Say hints"
  shows "command_done s r t"
proof -
  define g where "g = (c = None)"
  from keep_awake_run [of show_error c s] obtain ls0 where
    k0: "keep_awake show_error c s = (Inr g, s\<lparr>c_acts := c_acts s @ map Say ls0 @ (if g then [Caffeinate] else [])\<rparr>)"
    unfolding g_def by blast
  define s' where "s' = s\<lparr>c_acts := c_acts s @ map Say ls0 @ (if g then [Caffeinate] else [])\<rparr>"
  have k: "keep_awake show_error c s = (Inr g, s')" "c_session s' = c_session s"
    using k0 by (simp_all add: s'_def)
  define ls where "ls = hints @ ls0"
  have ls: "c_acts s' = map Say ls @ (if g then [Caffeinate] else [])"
    by (simp add: s'_def ls_def assms(3))
  obtain x u where b: "body s' = (x, u)" by (cases "body s'")
  from assms(2) k(1) b have rt: "r = x" "t = (if g then snd (perform Release u) else u)"
    by (auto simp: awake_def io_bind_def)
  from specD [OF assms(1) _ b] obtain new where
    n: "c_acts u = c_acts s' @ new" "unguarded new" "RunSession \<notin> set new \<longrightarrow> c_session u = c_session s'"
    by (auto simp: goes_on_def)
  have "guarded (c_acts t)"
  proof (cases g)
    case True
    then have "c_acts t = map Say ls @ [Caffeinate] @ new @ [Release]" using rt n ls by simp
    moreover have "unguarded (map Say ls)" by simp
    ultimately show ?thesis unfolding guarded_def using n(2) by blast
  next
    case False
    with rt n ls show ?thesis by (simp add: guarded_def)
  qed
  moreover have "c_session t = c_session u" using rt by simp
  moreover have "set (c_acts t) \<inter> {RunSession} = set new \<inter> {RunSession}"
    using rt n(1) ls by auto
  moreover have "\<exists>e. r = Inl e" if "RunSession \<notin> set (c_acts u)"
  proof (cases x)
    case (Inr v)
    with b have "body s' = (Inr v, u)" by simp
    from specE [OF assms(1) _ this] that show ?thesis by simp
  qed (use rt in simp)
  ultimately show ?thesis
    using n(1,3) k(2) rt ls by (auto simp: command_done_def split: if_splits)
qed

section \<open>The commands\<close>

lemma hints_then_awake:
  assumes "c_acts s = []"
    and "io_bind (answer b) (\<lambda>b. io_bind (warn_about_mtu b) (\<lambda>_. awake show_error c (body b))) s = (r, t)"
    and "\<And>b. spec goes_on (\<lambda>_. True) (body b) has_run"
  shows "command_done s r t"
proof (cases b)
  case (Inl e)
  with assms(1,2) show ?thesis by (auto simp: command_done_def guarded_def io_bind_def)
next
  case (Inr br)
  obtain ls where w: "warn_about_mtu br s = (Inr (), s\<lparr>c_acts := c_acts s @ map Say ls\<rparr>)"
    using warn_run by blast
  let ?s = "s\<lparr>c_acts := c_acts s @ map Say ls\<rparr>"
  from assms(2) Inr w have "awake show_error c (body br) ?s = (r, t)" by (simp add: io_bind_def)
  from awake_done [OF assms(3) this, of ls] assms(1) show ?thesis by (simp add: command_done_def)
qed

text \<open>
  C36. Either command, in its whole course: the child that keeps the machine awake is
  spawned at most once, and then killed and reaped at the very end, however the command
  goes, a refused bridge, phrase, listener or session included; and a command that ends
  before its session has failed, and has not touched what its session works on.
\<close>

theorem commands_guarded:
  assumes "c_acts s = []" and "receive show_error lower B k mr dir port stats durable s = (r, t)"
    and "c_acts s' = []"
    and "transmit show_error lower B' look ms dials paths peer token stats' verify s' = (r', t')"
  shows "command_done s r t \<and> command_done s' r' t'"
proof
  show "command_done s r t"
    by (rule hints_then_awake [OF assms(1) assms(2) [unfolded receive_def]])
      (rule on_bind [OF answer_goes], simp only: split_beta Let_def,
        intro on_bind answer_goes bind_goes perform_goes recv_session_goes, simp_all)
  show "command_done s' r' t'"
    by (rule hints_then_awake [OF assms(3) assms(4) [unfolded transmit_def]])
      (simp only: Let_def split_beta, intro on_bind spec_case_option on.spec_return prompt_goes send_session_goes
          perform_goes answer_goes, simp_all)
qed

text \<open>A machine on which every step before the session succeeds.\<close>

definition recv_ready :: "'m recv_machine_scheme \<Rightarrow> bridge \<Rightarrow> byte \<times> byte \<times> byte \<Rightarrow> u16 \<Rightarrow> bool" where
  "recv_ready m b bs port \<longleftrightarrow>
     find_bridge IFACE (m_ifaces m) = Inr b \<and> r_random m = Inr bs \<and> r_mkdirs m = None \<and>
     r_bind m = None \<and> r_port m = Inr port"

definition send_ready ::
  "'m send_machine_scheme \<Rightarrow> bridge \<Rightarrow> bytes option \<Rightarrow> bytes \<Rightarrow> (ipv4 \<times> u16) option \<Rightarrow> ipv4 \<times> u16 \<Rightarrow> bool" where
  "send_ready m b token typed peer dest \<longleftrightarrow>
     find_bridge IFACE (m_ifaces m) = Inr b \<and>
     (case token of Some p \<Rightarrow> p = typed | None \<Rightarrow> s_line m = Inr typed) \<and>
     (case peer of Some p \<Rightarrow> p = dest | None \<Rightarrow> snd (find_peer b (s_answers m)) = Inr dest)"

lemma receive_run:
  assumes "recv_ready m b (b0, b1, b2) bound"
    and "accept_one B k dir (derive_token lower (generate_phrase b0 b1 b2)) durable
      (fresh_host stats (c_session s)) = (r, h)"
    and "receive show_error lower B k m dir port stats durable s = (q, t)"
  shows "q = unit_result r \<and> c_session t = finish_host h \<and>
    (\<exists>pre mid post. c_acts t = pre @ [MakeDirs dir, Listen (b_addr b) port, Respond b bound] @ mid @
       [Say (ascii ''Phrase: '' @ generate_phrase b0 b1 b2), RunSession] @ post)"
proof -
  let ?phrase = "generate_phrase b0 b1 b2"
  let ?accept = "accept_one B k dir (derive_token lower ?phrase) durable"
  let ?hear = "Say (ascii ''Listening on '' @ show_ipv4 (b_addr b) @ [0x3A] @ decimal (unat bound) @
      [0x20, 0xE2, 0x80, 0x94] @ ascii '' writing to '' @ to_string_lossy dir)"
  let ?body = "io_bind (answer (r_random m)) (\<lambda>(b0, b1, b2).
       let phrase = generate_phrase b0 b1 b2; token = derive_token lower phrase in
       io_bind (bind_receiver m dir (b_addr b) port) (\<lambda>_.
       io_bind (answer (os_answer (r_port m))) (\<lambda>bound.
       io_bind (perform (Respond b bound)) (\<lambda>_.
       io_bind (perform (Say (ascii ''Listening on '' @ show_ipv4 (b_addr b) @ [0x3A] @ decimal (unat bound) @
                  [0x20, 0xE2, 0x80, 0x94] @ ascii '' writing to '' @ to_string_lossy dir))) (\<lambda>_.
       io_bind (perform (Say (ascii ''Phrase: '' @ phrase))) (\<lambda>_.
       recv_session m (accept_one B k dir token durable) stats))))))"
  let ?new = "[MakeDirs dir, Listen (b_addr b) port, Respond b bound, ?hear, Say (ascii ''Phrase: '' @ ?phrase)]"
  have body: "?body u = recv_session m ?accept stats (u\<lparr>c_acts := c_acts u @ ?new\<rparr>)"  for u
    using assms(1)
    by (simp add: recv_ready_def bind_receiver_def os_done_def os_answer_def io_bind_def Let_def)
  obtain ls where w: "warn_about_mtu b s = (Inr (), s\<lparr>c_acts := c_acts s @ map Say ls\<rparr>)"
    using warn_run by blast
  let ?s = "s\<lparr>c_acts := c_acts s @ map Say ls\<rparr>"
  from keep_awake_run [of show_error "m_caffeinate m" ?s] obtain ls1 g where
    k: "keep_awake show_error (m_caffeinate m) ?s = (Inr (m_caffeinate m = None), ?s\<lparr>c_acts := g\<rparr>)" by blast
  let ?u = "?s\<lparr>c_acts := g @ ?new\<rparr>"
  have "?accept (fresh_host stats (c_session ?u)) = (r, h)" using assms(2) by simp
  from recv_session_run [where accept = ?accept and s = ?u and m = m, OF this] obtain ls2 where
    "recv_session m ?accept stats ?u = (unit_result r,
       ?u\<lparr>c_acts := c_acts ?u @ [RunSession, Draw (drawn m (progress_new (ascii ''receiving'')))] @ map Say ls2,
          c_session := finish_host h\<rparr>)" by blast
  with body [of "?s\<lparr>c_acts := g\<rparr>"] have run: "?body (?s\<lparr>c_acts := g\<rparr>) = (unit_result r,
       s\<lparr>c_acts := g @ ?new @ [RunSession, Draw (drawn m (progress_new (ascii ''receiving'')))] @ map Say ls2,
         c_session := finish_host h\<rparr>)" by simp
  let ?fin = "if m_caffeinate m = None then [Release] else []"
  have "q = unit_result r \<and> c_session t = finish_host h \<and>
      c_acts t = g @ ?new @ [RunSession, Draw (drawn m (progress_new (ascii ''receiving'')))] @ map Say ls2 @ ?fin"
    using assms(1,3) w k run
    by (cases "m_caffeinate m") (auto simp: receive_def recv_ready_def awake_def io_bind_def)
  then show ?thesis
    by (intro conjI exI [of _ g] exI [of _ "[?hear]"]
        exI [of _ "[Draw (drawn m (progress_new (ascii ''receiving'')))] @ map Say ls2 @ ?fin"]) simp_all
qed

lemma transmit_run:
  assumes "send_ready m b token typed peer dest"
    and "token = None \<Longrightarrow> trim typed \<noteq> []"
    and "send_to_diag B look paths (derive_token lower (case token of Some p \<Rightarrow> p | None \<Rightarrow> trim typed)) verify
      (s_streams m) (fresh_session stats (dials dest)) = (r, h)"
    and "transmit show_error lower B look m dials paths peer token stats verify s = (q, t)"
  shows "q = unit_result r \<and> c_session t = finish_session h"
proof -
  let ?phrase = "case token of Some p \<Rightarrow> p | None \<Rightarrow> trim typed"
  let ?send = "send_to_diag B look paths (derive_token lower ?phrase) verify (s_streams m)"
  let ?body = "io_bind (case token of Some phrase \<Rightarrow> io_return phrase | None \<Rightarrow> prompt_for_phrase m) (\<lambda>phrase.
       let token = derive_token lower phrase in
       io_bind (case peer of
                  Some peer \<Rightarrow> io_return peer
                | None \<Rightarrow> let (probes, found) = find_peer b (s_answers m) in
                    io_bind (perform (Search probes)) (\<lambda>_. answer found)) (\<lambda>peer s.
       send_session m (send_to_diag B look paths token verify (s_streams m)) stats
         (s\<lparr>c_session := dials peer\<rparr>)))"
  let ?new = "(if token = None then [Prompt (ascii ''Phrase shown on the receiving Mac: '')] else []) @
      (if peer = None then [Search (fst (find_peer b (s_answers m)))] else [])"
  have body: "?body u = send_session m ?send stats (u\<lparr>c_acts := c_acts u @ ?new, c_session := dials dest\<rparr>)" for u
    using assms(1,2)
    by (cases token; cases peer) (simp_all add: send_ready_def prompt_for_phrase_def io_bind_def Let_def split_beta)
  obtain ls where w: "warn_about_mtu b s = (Inr (), s\<lparr>c_acts := c_acts s @ map Say ls\<rparr>)"
    using warn_run by blast
  let ?s = "s\<lparr>c_acts := c_acts s @ map Say ls\<rparr>"
  from keep_awake_run [of show_error "m_caffeinate m" ?s] obtain g where
    k: "keep_awake show_error (m_caffeinate m) ?s = (Inr (m_caffeinate m = None), ?s\<lparr>c_acts := g\<rparr>)" by blast
  let ?u = "?s\<lparr>c_acts := g @ ?new, c_session := dials dest\<rparr>"
  have "?send (fresh_session stats (c_session ?u)) = (r, h)" using assms(3) by simp
  from send_session_run [where send = ?send and s = ?u and m = m, OF this] obtain v where
    v: "send_session m ?send stats ?u = (unit_result r, v)" "c_session v = finish_session h" by auto
  with body [of "?s\<lparr>c_acts := g\<rparr>"] have run: "?body (?s\<lparr>c_acts := g\<rparr>) = (unit_result r, v)" by simp
  show ?thesis
    using assms(1,4) w k run v(2)
    by (cases "m_caffeinate m") (auto simp: transmit_def send_ready_def awake_def io_bind_def)
qed

text \<open>
  C34. The two commands agree on the token. \<open>tf recv\<close> shows the phrase of three random
  bytes, once its listener is bound and the responder runs, and holds its session with the
  token of that phrase; \<open>tf send\<close>, when that phrase is typed, in letters of either case and
  among white space, at the prompt or as an argument, holds its session with the same
  token, over the connections to the peer it was given or found. What either returns is
  the result of its session.
\<close>

theorem commands_agree:
  assumes "lowercase_ok lower"
    and "recv_ready mr br (b0, b1, b2) bound" and "send_ready ms bs token (pre @ typed @ post) peer dest"
    and "map ascii_lower_byte typed = generate_phrase b0 b1 b2"
    and "\<forall>b \<in> set pre. ascii_ws b" and "\<forall>b \<in> set post. ascii_ws b"
    and "receive show_error lower B k mr dir port stats durable s = (q, t)"
    and "transmit show_error lower B' look ms dials paths peer token stats' verify s' = (q', t')"
  shows "\<exists>secret r h r' h'.
    accept_one B k dir secret durable (fresh_host stats (c_session s)) = (r, h) \<and>
    send_to_diag B' look paths secret verify (s_streams ms) (fresh_session stats' (dials dest)) = (r', h') \<and>
    q = unit_result r \<and> c_session t = finish_host h \<and>
    q' = unit_result r' \<and> c_session t' = finish_session h' \<and>
    (\<exists>a b c. c_acts t = a @ [MakeDirs dir, Listen (b_addr br) port, Respond br bound] @ b @
       [Say (ascii ''Phrase: '' @ generate_phrase b0 b1 b2), RunSession] @ c)"
proof -
  let ?secret = "derive_token lower (generate_phrase b0 b1 b2)"
  let ?typed = "case token of Some p \<Rightarrow> p | None \<Rightarrow> trim (pre @ typed @ post)"
  obtain r h where a: "accept_one B k dir ?secret durable (fresh_host stats (c_session s)) = (r, h)"
    by (cases "accept_one B k dir ?secret durable (fresh_host stats (c_session s))")
  have tr: "trim (pre @ typed @ post) = typed" using trim_phrase_like [OF assms(4-6)] by simp
  have ne: "typed \<noteq> []" using assms(4) phrase_shape [of b0 b1 b2] by auto
  have full: "derive_token lower (pre @ typed @ post) = ?secret"
    by (rule typed_phrase_token [OF assms(1,4,5,6)])
  have "derive_token lower ([] @ typed @ []) = ?secret"
    by (rule typed_phrase_token [OF assms(1,4)]) simp_all
  then have secret: "derive_token lower ?typed = ?secret"
    using full tr assms(3) by (cases token) (simp_all add: send_ready_def)
  obtain r' h' where b: "send_to_diag B' look paths (derive_token lower ?typed) verify (s_streams ms)
      (fresh_session stats' (dials dest)) = (r', h')"
    by (cases "send_to_diag B' look paths (derive_token lower ?typed) verify (s_streams ms)
      (fresh_session stats' (dials dest))")
  have line: "trim (pre @ typed @ post) \<noteq> []" using tr ne by simp
  from receive_run [OF assms(2) a assms(7)] transmit_run [OF assms(3) line b assms(8)] a b secret
  show ?thesis by (intro exI [of _ ?secret] exI [of _ r] exI [of _ h] exI [of _ r'] exI [of _ h']) auto
qed

section \<open>A sample\<close>

definition sample_machine :: "recv_machine" where
  "sample_machine =
     \<lparr>m_ifaces = Inr [\<lparr>ifa_name = Some IFACE, ifa_addr = Some (AfInet 0xA9FE0102 (Some 0xFFFF0000))\<rparr>],
      m_caffeinate = None, m_tty = False, m_start = 0, m_ticks = [],
      m_last = \<lparr>tk_done = True, tk_bytes = 0, tk_files = 0, tk_total_files = 0, tk_now = 1, tk_current = []\<rparr>,
      m_timings = \<lparr>t_walk = 0, t_meta = 0, t_accept = 0, t_total = 0, t_hash = 0, t_flush = 0\<rparr>,
      r_random = Inr (0, 1, 2), r_mkdirs = None, r_bind = None, r_port = Inr 5000\<rparr>"

definition sample_sender :: "send_machine" where
  "sample_sender =
     \<lparr>m_ifaces = m_ifaces sample_machine, m_caffeinate = Some ENOENT, m_tty = False, m_start = 0, m_ticks = [],
      m_last = m_last sample_machine, m_timings = m_timings sample_machine,
      s_line = Inr ([0x20] @ ascii ''Apple-ARROW-atlas'' @ [0x0A]), s_answers = [], s_streams = None\<rparr>"

lemma sample_commands_ready:
  "recv_ready sample_machine \<lparr>b_addr = 0xA9FE0102, b_netmask = 0xFFFF0000, b_mtu = None\<rparr> (0, 1, 2) 5000"
  "send_ready sample_sender \<lparr>b_addr = 0xA9FE0102, b_netmask = 0xFFFF0000, b_mtu = None\<rparr> None
     ([0x20] @ ascii ''Apple-ARROW-atlas'' @ [0x0A]) (Some (0xA9FE0103, 5000)) (0xA9FE0103, 5000)"
  by (simp_all add: recv_ready_def send_ready_def sample_machine_def sample_sender_def find_bridge_def)

text \<open>A destination that cannot be made, and a blank line at the prompt.\<close>

definition sample_recv :: "recv_machine \<Rightarrow> unit result \<times> nat host cmd" where
  "sample_recv m =
     receive (\<lambda>_. []) (map ascii_lower_byte) fold_hasher sample_kernel m (ascii ''/in'') 0 True True
       \<lparr>c_acts = [], c_session = sample_receiver\<rparr>"

definition sample_send :: "send_machine \<Rightarrow> (ipv4 \<times> u16) option \<Rightarrow> unit result \<times> session cmd" where
  "sample_send m peer =
     transmit (\<lambda>_. []) (map ascii_lower_byte) fold_hasher (\<lambda>_. sample_tree) m (\<lambda>_. sample_session [False, False])
       [[0x2F, 0x74]] peer None True True \<lparr>c_acts = [], c_session = sample_session []\<rparr>"

theorem commands_guarded_witness:
  "case (sample_recv (sample_machine\<lparr>r_mkdirs := Some EACCES\<rparr>), sample_send (sample_sender\<lparr>s_line := Inr [0x20]\<rparr>) None) of
     ((r, t), (r', t')) \<Rightarrow>
       r = Inl (OsError EACCES) \<and> c_acts t = [Caffeinate, MakeDirs (ascii ''/in''), Release] \<and>
       r' = Inl (IoError InvalidInput PhraseRequired) \<and>
       command_done \<lparr>c_acts = [], c_session = sample_receiver\<rparr> r t \<and>
       command_done \<lparr>c_acts = [], c_session = sample_session []\<rparr> r' t'"
proof -
  let ?m = "sample_machine\<lparr>r_mkdirs := Some EACCES\<rparr>" and ?n = "sample_sender\<lparr>s_line := Inr [0x20]\<rparr>"
  obtain r t where a: "sample_recv ?m = (r, t)" by (cases "sample_recv ?m")
  obtain r' t' where b: "sample_send ?n None = (r', t')" by (cases "sample_send ?n None")
  have "r = Inl (OsError EACCES) \<and> c_acts t = [Caffeinate, MakeDirs (ascii ''/in''), Release]"
    using a by (auto simp: sample_recv_def receive_def sample_machine_def find_bridge_def warn_about_mtu_def
        awake_def keep_awake_def bind_receiver_def os_done_def io_bind_def Let_def)
  moreover have "trim [0x20] = []" by code_simp
  with b have "r' = Inl (IoError InvalidInput PhraseRequired)"
    by (simp add: sample_send_def transmit_def sample_machine_def sample_sender_def find_bridge_def
        warn_about_mtu_def awake_def keep_awake_def prompt_for_phrase_def io_bind_def Let_def)
  ultimately show ?thesis
    using commands_guarded [OF _ a [unfolded sample_recv_def] _ b [unfolded sample_send_def]]
    unfolding a b by simp
qed

theorem commands_agree_witness:
  "\<exists>secret r h r' h'.
     accept_one fold_hasher sample_kernel (ascii ''/in'') secret True (fresh_host True sample_receiver) = (r, h) \<and>
     send_to_diag fold_hasher (\<lambda>_. sample_tree) [[0x2F, 0x74]] secret True None
       (fresh_session True (sample_session [False, False])) = (r', h') \<and>
     fst (sample_recv sample_machine) = unit_result r \<and>
     fst (sample_send sample_sender (Some (0xA9FE0103, 5000))) = unit_result r' \<and>
     Say (ascii ''Phrase: '' @ ascii ''apple-arrow-atlas'') \<in> set (c_acts (snd (sample_recv sample_machine)))"
proof -
  obtain r t where a: "sample_recv sample_machine = (r, t)" by (cases "sample_recv sample_machine")
  let ?peer = "Some (0xA9FE0103, 5000)"
  obtain r' t' where b: "sample_send sample_sender ?peer = (r', t')" by (cases "sample_send sample_sender ?peer")
  have lower: "lowercase_ok (map ascii_lower_byte)" by (simp add: lowercase_ok_def)
  have typed: "map ascii_lower_byte (ascii ''Apple-ARROW-atlas'') = generate_phrase 0 1 2"
    and g: "generate_phrase 0 1 2 = ascii ''apple-arrow-atlas''"
    by (simp_all add: generate_phrase_def WORDS_def ascii_def ascii_lower_byte_def DASH_def)
  have ws: "\<forall>b \<in> set [0x20]. ascii_ws b" "\<forall>b \<in> set [0x0A]. ascii_ws b" by (simp_all add: ascii_ws_def)
  have env: "s_streams sample_sender = None" by (simp add: sample_sender_def)
  from commands_agree [OF lower sample_commands_ready typed ws a [unfolded sample_recv_def] b [unfolded sample_send_def]]
  show ?thesis unfolding a b g env fst_conv snd_conv cmd.simps
    by (elim exE conjE) (intro exI conjI, assumption+, simp)
qed

end
