(* ===== verification/Pipeline.thy ===== *)
theory Pipeline
  imports Receiver Sender "HOL-Library.Sublist"
begin

text \<open>
  The threads of one flow under every schedule. Both ends run the same network: a first
  thread that takes buffers from a pool and sends messages, a hash stage when the session
  verifies, a last thread that uses the messages up and returns the buffers; between them
  \<open>sync_channel\<close>s of the queue's depth. On the receiver the first thread reads the socket and
  waits for the digest after each \<open>Finish\<close> (\<open>run_pipeline\<close>, \<open>hash_loop\<close>, \<open>write_loop\<close> of
  \<open>src/recv.rs\<close>); on the sender it reads the disk (\<open>send_lane_inner\<close>, \<open>hash_items\<close>,
  \<open>read_items\<close> of \<open>src/send.rs\<close>). One step is one operation on a channel, and the next step is
  any thread's that can make one; the first and the last thread may also fail at any moment.
\<close>

section \<open>The network\<close>

text \<open>What the network needs to know of a program: which messages carry a buffer, which are
  followed by waiting for a reply, and one turn of the hash stage.\<close>

record ('m, 'h) stages =
  sg_takes :: "'m \<Rightarrow> bool"
  sg_asks :: "'m \<Rightarrow> bool"
  sg_hash :: "'h \<Rightarrow> 'm \<Rightarrow> 'h \<times> 'm option \<times> bytes option"

text \<open>
  The first thread: what it still has to send, whether it holds a buffer or waits for a
  reply, whether it is still there, the replies it got. The first queue, the hasher with the
  message it is about to forward, the replies on their way. The second queue, what the last
  thread used up, and whether it has a buffer to return. The free buffers; whether a thread
  gave up.
\<close>

record ('m, 'h) pipe =
  pi_todo :: "'m list"
  pi_holds :: bool
  pi_waits :: bool
  pi_net :: bool
  pi_got :: "bytes list"
  pi_q1 :: "'m list"
  pi_state :: 'h
  pi_fwd :: "'m option"
  pi_hasher :: bool
  pi_replies :: "bytes list"
  pi_q2 :: "'m list"
  pi_used :: "'m list"
  pi_back :: bool
  pi_writer :: bool
  pi_pool :: nat
  pi_failed :: bool

definition pipe_start :: "bool \<Rightarrow> nat \<Rightarrow> 'h \<Rightarrow> 'm list \<Rightarrow> ('m, 'h) pipe" where
  "pipe_start verify buffers h ms =
     \<lparr>pi_todo = ms, pi_holds = False, pi_waits = False, pi_net = True, pi_got = [],
      pi_q1 = [], pi_state = h, pi_fwd = None, pi_hasher = verify, pi_replies = [],
      pi_q2 = [], pi_used = [], pi_back = False, pi_writer = True, pi_pool = buffers, pi_failed = False\<rparr>"

text \<open>The first thread gives up: its buffer and its ends of the channels are dropped.\<close>

definition hang_up :: "('m, 'h) pipe \<Rightarrow> ('m, 'h) pipe" where
  "hang_up s = s\<lparr>pi_net := False, pi_holds := False, pi_waits := False, pi_replies := [], pi_failed := True\<rparr>"

text \<open>The queue the first thread feeds, and the stage that feeds the last one.\<close>

definition sent_to :: "('m, 'h) stages \<Rightarrow> bool \<Rightarrow> 'm \<Rightarrow> ('m, 'h) pipe \<Rightarrow> ('m, 'h) pipe" where
  "sent_to S verify m s =
     (let t = s\<lparr>pi_todo := tl (pi_todo s), pi_holds := False, pi_waits := sg_asks S m\<rparr>
      in if verify then t\<lparr>pi_q1 := pi_q1 s @ [m]\<rparr> else t\<lparr>pi_q2 := pi_q2 s @ [m]\<rparr>)"

inductive works :: "('m, 'h) stages \<Rightarrow> bool \<Rightarrow> nat \<Rightarrow> ('m, 'h) pipe \<Rightarrow> ('m, 'h) pipe \<Rightarrow> bool"
  for S verify depth where
  takes_buffer: "pi_net s \<Longrightarrow> \<not> pi_waits s \<Longrightarrow> pi_todo s = m # ms \<Longrightarrow> sg_takes S m \<Longrightarrow> \<not> pi_holds s \<Longrightarrow>
    0 < pi_pool s \<Longrightarrow> works S verify depth s (s\<lparr>pi_holds := True, pi_pool := pi_pool s - 1\<rparr>)"
| no_buffer: "pi_net s \<Longrightarrow> \<not> pi_waits s \<Longrightarrow> pi_todo s = m # ms \<Longrightarrow> sg_takes S m \<Longrightarrow> \<not> pi_holds s \<Longrightarrow>
    pi_pool s = 0 \<Longrightarrow> \<not> pi_writer s \<Longrightarrow> works S verify depth s (hang_up s)"
| sends: "pi_net s \<Longrightarrow> \<not> pi_waits s \<Longrightarrow> pi_todo s = m # ms \<Longrightarrow> pi_holds s \<or> \<not> sg_takes S m \<Longrightarrow>
    (if verify then pi_hasher s \<and> length (pi_q1 s) < depth else pi_writer s \<and> length (pi_q2 s) < depth) \<Longrightarrow>
    works S verify depth s (sent_to S verify m s)"
| refused: "pi_net s \<Longrightarrow> \<not> pi_waits s \<Longrightarrow> pi_todo s = m # ms \<Longrightarrow> pi_holds s \<or> \<not> sg_takes S m \<Longrightarrow>
    \<not> (if verify then pi_hasher s else pi_writer s) \<Longrightarrow> works S verify depth s (hang_up s)"
| replied: "pi_net s \<Longrightarrow> pi_waits s \<Longrightarrow> pi_replies s = r # rs \<Longrightarrow>
    works S verify depth s (s\<lparr>pi_waits := False, pi_replies := rs, pi_got := pi_got s @ [r]\<rparr>)"
| unanswered: "pi_net s \<Longrightarrow> pi_waits s \<Longrightarrow> pi_replies s = [] \<Longrightarrow> \<not> pi_hasher s \<Longrightarrow>
    works S verify depth s (hang_up s)"
| ends: "pi_net s \<Longrightarrow> \<not> pi_waits s \<Longrightarrow> pi_todo s = [] \<Longrightarrow> works S verify depth s (s\<lparr>pi_net := False\<rparr>)"
| hashes: "pi_hasher s \<Longrightarrow> pi_fwd s = None \<Longrightarrow> pi_q1 s = m # q \<Longrightarrow> sg_hash S (pi_state s) m = (h, f, rep) \<Longrightarrow>
    rep = None \<or> pi_net s \<Longrightarrow>
    works S verify depth s (s\<lparr>pi_q1 := q, pi_state := h, pi_fwd := f,
      pi_replies := pi_replies s @ (case rep of None \<Rightarrow> [] | Some r \<Rightarrow> [r])\<rparr>)"
| unheard: "pi_hasher s \<Longrightarrow> pi_fwd s = None \<Longrightarrow> pi_q1 s = m # q \<Longrightarrow> sg_hash S (pi_state s) m = (h, f, Some r) \<Longrightarrow>
    \<not> pi_net s \<Longrightarrow> works S verify depth s (s\<lparr>pi_q1 := [], pi_hasher := False\<rparr>)"
| forwards: "pi_hasher s \<Longrightarrow> pi_fwd s = Some m \<Longrightarrow> pi_writer s \<Longrightarrow> length (pi_q2 s) < depth \<Longrightarrow>
    works S verify depth s (s\<lparr>pi_fwd := None, pi_q2 := pi_q2 s @ [m]\<rparr>)"
| undelivered: "pi_hasher s \<Longrightarrow> pi_fwd s = Some m \<Longrightarrow> \<not> pi_writer s \<Longrightarrow>
    works S verify depth s (s\<lparr>pi_fwd := None, pi_q1 := [], pi_hasher := False\<rparr>)"
| hash_ends: "pi_hasher s \<Longrightarrow> pi_fwd s = None \<Longrightarrow> pi_q1 s = [] \<Longrightarrow> \<not> pi_net s \<Longrightarrow>
    works S verify depth s (s\<lparr>pi_hasher := False\<rparr>)"
| uses: "pi_writer s \<Longrightarrow> \<not> pi_back s \<Longrightarrow> pi_q2 s = m # q \<Longrightarrow>
    works S verify depth s (s\<lparr>pi_q2 := q, pi_used := pi_used s @ [m], pi_back := sg_takes S m\<rparr>)"
| returns: "pi_writer s \<Longrightarrow> pi_back s \<Longrightarrow>
    works S verify depth s (s\<lparr>pi_back := False, pi_pool := pi_pool s + 1\<rparr>)"
| write_ends: "pi_writer s \<Longrightarrow> \<not> pi_back s \<Longrightarrow> pi_q2 s = [] \<Longrightarrow>
    \<not> (if verify then pi_hasher s else pi_net s) \<Longrightarrow> works S verify depth s (s\<lparr>pi_writer := False\<rparr>)"

text \<open>A read or a write that fails. The last thread drops its queue and the pool.\<close>

inductive breaks :: "('m, 'h) pipe \<Rightarrow> ('m, 'h) pipe \<Rightarrow> bool" where
  net_fails: "pi_net s \<Longrightarrow> breaks s (hang_up s)"
| writer_fails: "pi_writer s \<Longrightarrow>
    breaks s (s\<lparr>pi_writer := False, pi_q2 := [], pi_back := False, pi_failed := True\<rparr>)"

definition moves :: "('m, 'h) stages \<Rightarrow> bool \<Rightarrow> nat \<Rightarrow> ('m, 'h) pipe \<Rightarrow> ('m, 'h) pipe \<Rightarrow> bool" where
  "moves S verify depth s t \<longleftrightarrow> works S verify depth s t \<or> breaks s t"

definition ended :: "('m, 'h) pipe \<Rightarrow> bool" where
  "ended s \<longleftrightarrow> \<not> pi_net s \<and> \<not> pi_hasher s \<and> \<not> pi_writer s"

section \<open>What the hash stage makes of a list of messages\<close>

fun stage_out :: "('m, 'h) stages \<Rightarrow> 'h \<Rightarrow> 'm list \<Rightarrow> 'm list" where
  "stage_out S h [] = []"
| "stage_out S h (m # ms) =
     (case sg_hash S h m of (h', f, rep) \<Rightarrow> (case f of None \<Rightarrow> [] | Some x \<Rightarrow> [x]) @ stage_out S h' ms)"

fun stage_replies :: "('m, 'h) stages \<Rightarrow> 'h \<Rightarrow> 'm list \<Rightarrow> bytes list" where
  "stage_replies S h [] = []"
| "stage_replies S h (m # ms) =
     (case sg_hash S h m of (h', f, rep) \<Rightarrow> (case rep of None \<Rightarrow> [] | Some r \<Rightarrow> [r]) @ stage_replies S h' ms)"

fun stage_state :: "('m, 'h) stages \<Rightarrow> 'h \<Rightarrow> 'm list \<Rightarrow> 'h" where
  "stage_state S h [] = h"
| "stage_state S h (m # ms) = stage_state S (fst (sg_hash S h m)) ms"

lemma stage_append:
  "stage_out S h (xs @ ys) = stage_out S h xs @ stage_out S (stage_state S h xs) ys"
  "stage_replies S h (xs @ ys) = stage_replies S h xs @ stage_replies S (stage_state S h xs) ys"
  "stage_state S h (xs @ ys) = stage_state S (stage_state S h xs) ys"
  by (induction xs arbitrary: h) (auto split: prod.splits)

text \<open>Without verification the stage is not there.\<close>

definition outs :: "('m, 'h) stages \<Rightarrow> bool \<Rightarrow> 'h \<Rightarrow> 'm list \<Rightarrow> 'm list" where
  "outs S verify h ms = (if verify then stage_out S h ms else ms)"

definition reps :: "('m, 'h) stages \<Rightarrow> bool \<Rightarrow> 'h \<Rightarrow> 'm list \<Rightarrow> bytes list" where
  "reps S verify h ms = (if verify then stage_replies S h ms else [])"

lemma outs_prefix: "prefix xs ms \<Longrightarrow> prefix (outs S verify h xs) (outs S verify h ms)"
  by (auto simp: outs_def prefix_def stage_append)

lemma reps_prefix: "prefix xs ms \<Longrightarrow> prefix (reps S verify h xs) (reps S verify h ms)"
  by (auto simp: reps_def prefix_def stage_append)

section \<open>Every run is finite\<close>

definition work_left :: "('m, 'h) pipe \<Rightarrow> nat" where
  "work_left s =
     9 * length (pi_todo s) + of_bool (\<not> pi_holds s) + of_bool (pi_waits s) + 2 * of_bool (pi_net s) +
     6 * length (pi_q1 s) + 4 * of_bool (pi_fwd s \<noteq> None) + of_bool (pi_hasher s) + length (pi_replies s) +
     3 * length (pi_q2 s) + of_bool (pi_back s) + of_bool (pi_writer s)"

lemma of_bool_le: "of_bool b \<le> (1 :: nat)"
  by simp

lemma hang_up_less: "pi_net s \<Longrightarrow> work_left (hang_up s) < work_left s"
  using of_bool_le [of "pi_holds s"] by (simp add: work_left_def hang_up_def)

lemma sent_to_less:
  "pi_todo s = m # ms \<Longrightarrow> \<not> pi_waits s \<Longrightarrow> work_left (sent_to S verify m s) < work_left s"
  using of_bool_le [of "sg_asks S m"] by (simp add: work_left_def sent_to_def Let_def)

lemma hashed_less:
  "pi_q1 s = m # q \<Longrightarrow> pi_fwd s = None \<Longrightarrow>
   work_left (s\<lparr>pi_q1 := q, pi_state := h, pi_fwd := f,
      pi_replies := pi_replies s @ (case rep of None \<Rightarrow> [] | Some r \<Rightarrow> [r])\<rparr>) < work_left s"
  using of_bool_le [of "f \<noteq> None"] by (simp add: work_left_def split: option.split)

lemma works_less: "works S verify depth s t \<Longrightarrow> work_left t < work_left s"
proof (induction rule: works.induct)
  case (uses s m q)
  then show ?case using of_bool_le [of "sg_takes S m"] by (simp add: work_left_def)
qed (simp_all add: hang_up_less sent_to_less hashed_less, simp_all add: work_left_def)

lemma breaks_less: "breaks s t \<Longrightarrow> work_left t < work_left s"
  by (induction rule: breaks.induct) (simp_all add: hang_up_less, simp_all add: work_left_def)

lemma moves_less: "moves S verify depth s t \<Longrightarrow> work_left t < work_left s"
  unfolding moves_def using works_less breaks_less by blast

section \<open>Invariants\<close>

text \<open>The life of the threads: who can still be there, and what those who left have dropped.\<close>

definition life_inv :: "bool \<Rightarrow> ('m, 'h) pipe \<Rightarrow> bool" where
  "life_inv verify s \<longleftrightarrow>
     (pi_failed s \<longrightarrow> \<not> pi_net s \<or> \<not> pi_writer s) \<and>
     (pi_fwd s \<noteq> None \<longrightarrow> pi_hasher s) \<and>
     (\<not> verify \<longrightarrow> \<not> pi_hasher s) \<and>
     (\<not> pi_hasher s \<longrightarrow> pi_q1 s = []) \<and>
     (\<not> pi_net s \<longrightarrow> \<not> pi_waits s \<and> \<not> pi_holds s) \<and>
     (\<not> pi_writer s \<longrightarrow> pi_q2 s = [] \<and> \<not> pi_back s)"

text \<open>No thread leaves early unless one failed.\<close>

definition order_inv :: "bool \<Rightarrow> ('m, 'h) pipe \<Rightarrow> bool" where
  "order_inv verify s \<longleftrightarrow>
     (\<not> pi_failed s \<longrightarrow>
        (\<not> pi_net s \<longrightarrow> pi_todo s = []) \<and> (verify \<longrightarrow> \<not> pi_hasher s \<longrightarrow> \<not> pi_net s) \<and>
        (\<not> pi_writer s \<longrightarrow> \<not> pi_net s \<and> \<not> pi_hasher s))"

text \<open>The questions not yet answered, and the buffers that are somewhere.\<close>

definition asked :: "('m, 'h) stages \<Rightarrow> ('m, 'h) pipe \<Rightarrow> nat" where
  "asked S s = length (filter (sg_asks S) (pi_q1 s)) + length (pi_replies s)"

definition ask_inv :: "('m, 'h) stages \<Rightarrow> ('m, 'h) pipe \<Rightarrow> bool" where
  "ask_inv S s \<longleftrightarrow>
     (pi_net s \<longrightarrow> asked S s \<le> of_bool (pi_waits s)) \<and>
     (pi_net s \<longrightarrow> pi_hasher s \<longrightarrow> asked S s = of_bool (pi_waits s)) \<and>
     (\<not> pi_failed s \<longrightarrow> \<not> pi_net s \<longrightarrow> asked S s = 0)"

definition buffers :: "('m, 'h) stages \<Rightarrow> ('m, 'h) pipe \<Rightarrow> nat" where
  "buffers S s =
     pi_pool s + of_bool (pi_holds s) + length (filter (sg_takes S) (pi_q1 s)) +
     (case pi_fwd s of None \<Rightarrow> 0 | Some m \<Rightarrow> of_bool (sg_takes S m)) +
     length (filter (sg_takes S) (pi_q2 s)) + of_bool (pi_back s)"

text \<open>Only for a message that carries one is a buffer held.\<close>

definition hold_inv :: "('m, 'h) stages \<Rightarrow> ('m, 'h) pipe \<Rightarrow> bool" where
  "hold_inv S s \<longleftrightarrow> (pi_holds s \<longrightarrow> (\<exists>m ms. pi_todo s = m # ms \<and> sg_takes S m))"

definition buf_inv :: "('m, 'h) stages \<Rightarrow> nat \<Rightarrow> nat \<Rightarrow> ('m, 'h) pipe \<Rightarrow> bool" where
  "buf_inv S depth bufs s \<longleftrightarrow>
     buffers S s \<le> bufs \<and> (\<not> pi_failed s \<longrightarrow> buffers S s = bufs) \<and>
     length (pi_q1 s) \<le> depth \<and> length (pi_q2 s) \<le> depth"

text \<open>How far the messages got: the hash stage took \<open>xs\<close>.\<close>

definition took :: "('m, 'h) stages \<Rightarrow> bool \<Rightarrow> 'h \<Rightarrow> 'm list \<Rightarrow> 'm list \<Rightarrow> ('m, 'h) pipe \<Rightarrow> bool" where
  "took S verify h ms xs s \<longleftrightarrow>
     prefix xs ms \<and>
     (verify \<longrightarrow> pi_hasher s \<longrightarrow> ms = xs @ pi_q1 s @ pi_todo s \<and> pi_state s = stage_state S h xs) \<and>
     (verify \<longrightarrow> \<not> pi_hasher s \<longrightarrow> \<not> pi_failed s \<longrightarrow> xs = ms) \<and>
     (\<not> verify \<longrightarrow> ms = xs @ pi_todo s) \<and>
     (pi_writer s \<longrightarrow>
        pi_used s @ pi_q2 s @ (case pi_fwd s of None \<Rightarrow> [] | Some m \<Rightarrow> [m]) = outs S verify h xs) \<and>
     prefix (pi_used s) (outs S verify h xs) \<and>
     (\<not> pi_writer s \<longrightarrow> \<not> pi_failed s \<longrightarrow> pi_used s = outs S verify h xs) \<and>
     (pi_net s \<or> \<not> pi_failed s \<longrightarrow> pi_got s @ pi_replies s = reps S verify h xs) \<and>
     prefix (pi_got s) (reps S verify h xs)"

text \<open>What holds in every state the network reaches.\<close>

definition sound :: "('m, 'h) stages \<Rightarrow> bool \<Rightarrow> nat \<Rightarrow> nat \<Rightarrow> 'h \<Rightarrow> 'm list \<Rightarrow> ('m, 'h) pipe \<Rightarrow> bool" where
  "sound S verify depth bufs h ms s \<longleftrightarrow>
     life_inv verify s \<and> order_inv verify s \<and> hold_inv S s \<and> ask_inv S s \<and> buf_inv S depth bufs s \<and>
     (verify \<or> (\<forall>m \<in> set (pi_todo s). \<not> sg_asks S m)) \<and> (\<exists>xs. took S verify h ms xs s)"

text \<open>
  The contract of a hash stage: a buffer that comes in goes out, a question is answered and
  not forwarded, everything else is forwarded; and a stage that is not there is asked nothing.
\<close>

locale stage =
  fixes S :: "('m, 'h) stages"
  assumes takes_fwd: "sg_takes S m \<Longrightarrow> \<exists>h' x. sg_hash S h m = (h', Some x, None) \<and> sg_takes S x"
    and asks_reply: "sg_asks S m \<Longrightarrow> \<not> sg_takes S m \<and> (\<exists>h' r. sg_hash S h m = (h', None, Some r))"
    and other_fwd: "\<not> sg_takes S m \<Longrightarrow> \<not> sg_asks S m \<Longrightarrow>
      \<exists>h' x. sg_hash S h m = (h', Some x, None) \<and> \<not> sg_takes S x"

context stage begin

lemma hash_cases:
  assumes "sg_hash S h m = (h', f, rep)"
  obtains (fwd) x where "\<not> sg_asks S m" "f = Some x" "rep = None" "sg_takes S x = sg_takes S m"
    | (reply) r where "sg_asks S m" "\<not> sg_takes S m" "f = None" "rep = Some r"
proof (cases "sg_asks S m")
  case True
  with asks_reply [of m h] assms show ?thesis by (auto intro: reply)
next
  case False
  show ?thesis
  proof (cases "sg_takes S m")
    case True
    with takes_fwd [of m h] assms False show ?thesis by (auto intro: fwd)
  next
    case ff: False
    with other_fwd [of m h] assms False show ?thesis by (auto intro: fwd)
  qed
qed

lemma works_hold: "works S verify depth s t \<Longrightarrow> hold_inv S s \<Longrightarrow> hold_inv S t"
  by (induction rule: works.induct)
    (auto simp: hold_inv_def hang_up_def sent_to_def Let_def split: if_splits)

lemma breaks_hold: "breaks s t \<Longrightarrow> hold_inv S s \<Longrightarrow> hold_inv S t"
  by (induction rule: breaks.induct) (auto simp: hold_inv_def hang_up_def)

lemma works_life: "works S verify depth s t \<Longrightarrow> hold_inv S s \<Longrightarrow> life_inv verify s \<Longrightarrow> life_inv verify t"
  by (induction rule: works.induct)
    (auto simp: life_inv_def hold_inv_def hang_up_def sent_to_def Let_def split: if_splits)

lemma breaks_life: "breaks s t \<Longrightarrow> life_inv verify s \<Longrightarrow> life_inv verify t"
  by (induction rule: breaks.induct) (auto simp: life_inv_def hang_up_def)

lemma works_order:
  "works S verify depth s t \<Longrightarrow> life_inv verify s \<Longrightarrow> order_inv verify s \<Longrightarrow> order_inv verify t"
  by (induction rule: works.induct)
    (auto simp: life_inv_def order_inv_def hang_up_def sent_to_def Let_def split: if_splits)

lemma breaks_order: "breaks s t \<Longrightarrow> order_inv verify s \<Longrightarrow> order_inv verify t"
  by (induction rule: breaks.induct) (auto simp: order_inv_def hang_up_def)

lemma works_ask:
  assumes "works S verify depth s t" "life_inv verify s" "order_inv verify s" "ask_inv S s"
    and "verify \<or> (\<forall>m \<in> set (pi_todo s). \<not> sg_asks S m)"
  shows "ask_inv S t"
  using assms
proof (induction rule: works.induct)
  case (hashes s m q h f rep)
  from hashes(4) show ?case
    by (cases rule: hash_cases) (use hashes in \<open>auto simp: ask_inv_def asked_def\<close>)
next
  case (unheard s m q h f r)
  from unheard(4) show ?case
    by (cases rule: hash_cases) (use unheard in \<open>auto simp: ask_inv_def asked_def\<close>)
qed (auto simp: ask_inv_def asked_def hang_up_def sent_to_def Let_def life_inv_def order_inv_def split: if_splits)

lemma breaks_ask: "breaks s t \<Longrightarrow> life_inv verify s \<Longrightarrow> ask_inv S s \<Longrightarrow> ask_inv S t"
  by (induction rule: breaks.induct) (auto simp: ask_inv_def asked_def hang_up_def)

lemma buf_hang_up: "buf_inv S depth bufs s \<Longrightarrow> buf_inv S depth bufs (hang_up s)"
  by (simp add: buf_inv_def buffers_def hang_up_def)

lemma buf_sent_to:
  "buf_inv S depth bufs s \<Longrightarrow> pi_todo s = m # ms \<Longrightarrow> pi_holds s = sg_takes S m \<Longrightarrow>
   (if verify then length (pi_q1 s) < depth else length (pi_q2 s) < depth) \<Longrightarrow>
   buf_inv S depth bufs (sent_to S verify m s)"
  by (cases "sg_takes S m") (simp_all add: buf_inv_def buffers_def sent_to_def Let_def split: if_splits)

lemma buf_dropped:
  "buf_inv S depth bufs s \<Longrightarrow> pi_failed s \<Longrightarrow>
   buf_inv S depth bufs (s\<lparr>pi_fwd := None, pi_q1 := [], pi_hasher := False\<rparr>)"
  by (simp add: buf_inv_def buffers_def)

lemma works_buf:
  assumes "works S verify depth s t" "life_inv verify s" "order_inv verify s" "ask_inv S s" "hold_inv S s"
    "buf_inv S depth bufs s"
  shows "buf_inv S depth bufs t"
  using assms
proof (induction rule: works.induct)
  case (takes_buffer s m ms)
  then show ?case by (simp add: buf_inv_def buffers_def)
next
  case (sends s m ms)
  then have "pi_holds s = sg_takes S m" by (auto simp: hold_inv_def)
  with sends show ?case by (intro buf_sent_to) (auto split: if_splits)
next
  case (hashes s m q h f rep)
  from hashes(4) show ?case
  proof (cases rule: hash_cases)
    case (fwd x)
    with hashes show ?thesis by (cases "sg_takes S m") (simp_all add: buf_inv_def buffers_def)
  next
    case (reply r)
    with hashes show ?thesis by (simp add: buf_inv_def buffers_def)
  qed
next
  case (unheard s m q h f r)
  from unheard(4) have "sg_asks S m" by (cases rule: hash_cases) auto
  with unheard have "pi_failed s" by (auto simp: ask_inv_def asked_def)
  with unheard.prems(5) unheard(2) show ?case by (simp add: buf_inv_def buffers_def split del: if_split)
next
  case (forwards s m)
  then show ?case by (cases "sg_takes S m") (simp_all add: buf_inv_def buffers_def)
next
  case (undelivered s m)
  then have "pi_failed s" by (auto simp: order_inv_def)
  with undelivered show ?case by (intro buf_dropped)
next
  case (uses s m q)
  then show ?case by (cases "sg_takes S m") (simp_all add: buf_inv_def buffers_def)
qed (simp_all add: buf_hang_up, simp_all add: buf_inv_def buffers_def)

lemma breaks_buf: "breaks s t \<Longrightarrow> buf_inv S depth bufs s \<Longrightarrow> buf_inv S depth bufs t"
  by (induction rule: breaks.induct) (auto simp: buf_inv_def buffers_def hang_up_def)

lemma tookD:
  assumes "took S verify h ms xs s"
  shows "prefix xs ms"
    and "verify \<Longrightarrow> pi_hasher s \<Longrightarrow> ms = xs @ pi_q1 s @ pi_todo s"
    and "verify \<Longrightarrow> pi_hasher s \<Longrightarrow> pi_state s = stage_state S h xs"
    and "verify \<Longrightarrow> \<not> pi_hasher s \<Longrightarrow> \<not> pi_failed s \<Longrightarrow> xs = ms"
    and "\<not> verify \<Longrightarrow> ms = xs @ pi_todo s"
    and "pi_writer s \<Longrightarrow>
      pi_used s @ pi_q2 s @ (case pi_fwd s of None \<Rightarrow> [] | Some m \<Rightarrow> [m]) = outs S verify h xs"
    and "prefix (pi_used s) (outs S verify h xs)"
    and "\<not> pi_writer s \<Longrightarrow> \<not> pi_failed s \<Longrightarrow> pi_used s = outs S verify h xs"
    and "pi_net s \<or> \<not> pi_failed s \<Longrightarrow> pi_got s @ pi_replies s = reps S verify h xs"
    and "prefix (pi_got s) (reps S verify h xs)"
  using assms unfolding took_def by blast+

lemma tookI:
  assumes "prefix xs ms"
    and "verify \<Longrightarrow> pi_hasher s \<Longrightarrow> ms = xs @ pi_q1 s @ pi_todo s \<and> pi_state s = stage_state S h xs"
    and "verify \<Longrightarrow> \<not> pi_hasher s \<Longrightarrow> \<not> pi_failed s \<Longrightarrow> xs = ms"
    and "\<not> verify \<Longrightarrow> ms = xs @ pi_todo s"
    and "pi_writer s \<Longrightarrow>
      pi_used s @ pi_q2 s @ (case pi_fwd s of None \<Rightarrow> [] | Some m \<Rightarrow> [m]) = outs S verify h xs"
    and "prefix (pi_used s) (outs S verify h xs)"
    and "\<not> pi_writer s \<Longrightarrow> \<not> pi_failed s \<Longrightarrow> pi_used s = outs S verify h xs"
    and "pi_net s \<or> \<not> pi_failed s \<Longrightarrow> pi_got s @ pi_replies s = reps S verify h xs"
    and "prefix (pi_got s) (reps S verify h xs)"
  shows "took S verify h ms xs s"
  using assms unfolding took_def by simp

text \<open>A step that only moves messages along, or gives some of them up.\<close>

abbreviation fwd_list :: "('m, 'h) pipe \<Rightarrow> 'm list" where
  "fwd_list s \<equiv> (case pi_fwd s of None \<Rightarrow> [] | Some m \<Rightarrow> [m])"

lemma took_shift:
  assumes t: "took S verify h ms xs s"
    and "verify \<Longrightarrow> pi_hasher t \<Longrightarrow>
      pi_hasher s \<and> pi_q1 t @ pi_todo t = pi_q1 s @ pi_todo s \<and> pi_state t = pi_state s"
    and "verify \<Longrightarrow> \<not> pi_hasher t \<Longrightarrow> \<not> pi_failed t \<Longrightarrow>
      \<not> pi_hasher s \<and> \<not> pi_failed s \<or> pi_hasher s \<and> pi_q1 s @ pi_todo s = []"
    and "\<not> verify \<Longrightarrow> pi_todo t = pi_todo s"
    and "pi_writer t \<Longrightarrow>
      pi_writer s \<and> pi_used t @ pi_q2 t @ fwd_list t = pi_used s @ pi_q2 s @ fwd_list s"
    and "pi_used t = pi_used s \<or> pi_writer s \<and> (\<exists>z. pi_used t @ z = pi_used s @ pi_q2 s @ fwd_list s)"
    and "\<not> pi_writer t \<Longrightarrow> \<not> pi_failed t \<Longrightarrow>
      \<not> pi_writer s \<and> \<not> pi_failed s \<and> pi_used t = pi_used s \<or>
      pi_writer s \<and> pi_used t = pi_used s @ pi_q2 s @ fwd_list s"
    and "pi_net t \<or> \<not> pi_failed t \<Longrightarrow>
      (pi_net s \<or> \<not> pi_failed s) \<and> pi_got t @ pi_replies t = pi_got s @ pi_replies s"
    and "pi_got t = pi_got s \<or>
      (pi_net s \<or> \<not> pi_failed s) \<and> (\<exists>z. pi_got t @ z = pi_got s @ pi_replies s)"
  shows "took S verify h ms xs t"
proof (rule tookI)
  note d = tookD [OF t]
  show "prefix xs ms" by (rule d(1))
  show "ms = xs @ pi_q1 t @ pi_todo t \<and> pi_state t = stage_state S h xs" if "verify" "pi_hasher t"
    using assms(2) [OF that] d(2,3) that(1) by simp
  show "xs = ms" if v: "verify" "\<not> pi_hasher t" "\<not> pi_failed t"
    using assms(3) [OF v]
  proof
    assume "pi_hasher s \<and> pi_q1 s @ pi_todo s = []"
    with d(2) v(1) have "ms = xs @ []" by metis
    then show ?thesis by simp
  qed (use d(4) v(1) in blast)
  show "ms = xs @ pi_todo t" if "\<not> verify" using assms(4) [OF that] d(5) [OF that] by simp
  show "pi_used t @ pi_q2 t @ fwd_list t = outs S verify h xs" if "pi_writer t"
    using assms(5) [OF that] d(6) by simp
  show "prefix (pi_used t) (outs S verify h xs)"
    using assms(6) d(6,7) by (metis prefix_def)
  show "pi_used t = outs S verify h xs" if "\<not> pi_writer t" "\<not> pi_failed t"
    using assms(7) [OF that] d(6,8) by metis
  show "pi_got t @ pi_replies t = reps S verify h xs" if "pi_net t \<or> \<not> pi_failed t"
    using assms(8) [OF that] d(9) by metis
  show "prefix (pi_got t) (reps S verify h xs)"
    using assms(9) d(9,10) by (metis prefix_def)
qed

lemma took_hang_up: "took S verify h ms xs s \<Longrightarrow> took S verify h ms xs (hang_up s)"
  by (erule took_shift) (simp_all add: hang_up_def)

lemma took_hashed:
  assumes t: "took S verify h ms xs s" and w: "pi_hasher s" "pi_fwd s = None" "pi_q1 s = m # q" and v: verify
    and e: "sg_hash S (pi_state s) m = (h', f, rep)" and l: "\<not> pi_writer s \<longrightarrow> pi_failed s"
  shows "took S verify h ms (xs @ [m]) (s\<lparr>pi_q1 := q, pi_state := h', pi_fwd := f,
      pi_replies := pi_replies s @ (case rep of None \<Rightarrow> [] | Some r \<Rightarrow> [r])\<rparr>)" (is "took _ _ _ _ _ ?t")
proof -
  note d = tookD [OF t]
  have st: "pi_state s = stage_state S h xs" "ms = xs @ (m # q) @ pi_todo s"
    using d(2,3) w v by simp_all
  have o: "outs S verify h (xs @ [m]) = outs S verify h xs @ (case f of None \<Rightarrow> [] | Some x \<Rightarrow> [x])"
    and r: "reps S verify h (xs @ [m]) = reps S verify h xs @ (case rep of None \<Rightarrow> [] | Some r \<Rightarrow> [r])"
    and z: "stage_state S h (xs @ [m]) = h'"
    using e st v by (simp_all add: outs_def reps_def stage_append)
  show ?thesis
  proof (rule tookI)
    show "prefix (xs @ [m]) ms" using st(2) by (simp add: prefix_def)
    show "pi_writer ?t \<Longrightarrow> pi_used ?t @ pi_q2 ?t @ (case pi_fwd ?t of None \<Rightarrow> [] | Some m \<Rightarrow> [m]) = outs S verify h (xs @ [m])"
      using d(6) w(2) o by (simp flip: append_assoc)
    show "prefix (pi_used ?t) (outs S verify h (xs @ [m]))" using d(7) o by (simp add: prefix_append)
    show "pi_used ?t = outs S verify h (xs @ [m])" if "\<not> pi_writer ?t" "\<not> pi_failed ?t"
      using that l by simp
    show "pi_net ?t \<or> \<not> pi_failed ?t \<Longrightarrow> pi_got ?t @ pi_replies ?t = reps S verify h (xs @ [m])"
      using d(9) r by (simp flip: append_assoc)
    show "prefix (pi_got ?t) (reps S verify h (xs @ [m]))" using d(10) r by (simp add: prefix_append)
  qed (use st z v w in simp_all)
qed

lemma took_sent:
  assumes t: "took S verify h ms xs s" and m: "pi_todo s = m # rest" and l: "life_inv verify s"
    and g: "if verify then pi_hasher s else pi_writer s" and a: "verify \<or> \<not> sg_asks S m"
  shows "\<exists>xs'. took S verify h ms xs' (sent_to S verify m s)"
proof (cases verify)
  case True
  with t m g have "took S verify h ms xs (sent_to S verify m s)"
    by (elim took_shift) (simp_all add: sent_to_def Let_def)
  then show ?thesis by blast
next
  case False
  note d = tookD [OF t]
  from False l have n: "pi_fwd s = None" by (auto simp: life_inv_def)
  have o: "outs S verify h xs = xs" "outs S verify h (xs @ [m]) = xs @ [m]" "reps S verify h (xs @ [m]) = []"
      "reps S verify h xs = []" "ms = xs @ m # rest" "pi_used s @ pi_q2 s = xs"
    using False d(5,6) m n g by (simp_all add: outs_def reps_def)
  let ?t = "sent_to S verify m s"
  have f: "pi_used ?t = pi_used s" "pi_got ?t = pi_got s" "pi_replies ?t = pi_replies s" "pi_net ?t = pi_net s"
      "pi_failed ?t = pi_failed s"
    by (simp_all add: sent_to_def Let_def)
  have "took S verify h ms (xs @ [m]) ?t"
  proof (rule tookI)
    show "prefix (pi_used ?t) (outs S verify h (xs @ [m]))"
      using d(7) by (simp add: f o(1,2))
    show "pi_got ?t @ pi_replies ?t = reps S verify h (xs @ [m])" if "pi_net ?t \<or> \<not> pi_failed ?t"
      using d(9) that by (simp add: f o(3,4))
    show "prefix (pi_got ?t) (reps S verify h (xs @ [m]))"
      using d(10) by (simp add: f o(3,4))
    show "prefix (xs @ [m]) ms" using o(5) unfolding prefix_def by (intro exI [of _ rest]) simp
    have "pi_used s @ pi_q2 s @ [m] = outs S verify h (xs @ [m])" using o(6) by (simp add: o(2) flip: append_assoc)
    then show "pi_used ?t @ pi_q2 ?t @ fwd_list ?t = outs S verify h (xs @ [m])"
      using False n by (simp add: sent_to_def Let_def del: append_assoc)
  qed (use False g m o(5) in \<open>simp_all add: sent_to_def Let_def\<close>)
  then show ?thesis by blast
qed

lemma took_dropped:
  "took S verify h ms xs s \<Longrightarrow> pi_failed s \<Longrightarrow> \<not> pi_writer s \<or> pi_fwd s = None \<Longrightarrow>
   took S verify h ms xs (s\<lparr>pi_fwd := None, pi_q1 := [], pi_hasher := False\<rparr>)"
  by (erule took_shift) auto

lemma works_took:
  assumes "works S verify depth s t" "life_inv verify s" "order_inv verify s" "ask_inv S s"
    and "verify \<or> (\<forall>m \<in> set (pi_todo s). \<not> sg_asks S m)" and "took S verify h ms xs s"
  shows "\<exists>xs'. took S verify h ms xs' t"
  using assms
proof (induction rule: works.induct)
  case (takes_buffer s m rest)
  from takes_buffer.prems(5) show ?case by (intro exI [of _ xs]) (erule took_shift, simp_all)
next
  case (no_buffer s m rest)
  then show ?case by (blast intro: took_hang_up)
next
  case (sends s m rest)
  from sends.prems(5) sends(3) sends.prems(1) _ _ show ?case
    by (rule took_sent) (use sends in \<open>auto split: if_splits\<close>)
next
  case (refused s m rest)
  then show ?case by (blast intro: took_hang_up)
next
  case (replied s r rs)
  from replied.prems(5) show ?case
    by (intro exI [of _ xs]) (erule took_shift, use replied(1,3) in auto)
next
  case (unanswered s)
  then show ?case by (blast intro: took_hang_up)
next
  case (ends s)
  from ends.prems(5) show ?case
    by (intro exI [of _ xs]) (erule took_shift, use ends(1) in simp_all)
next
  case (hashes s m q h' f rep)
  then have v: verify and l: "\<not> pi_writer s \<longrightarrow> pi_failed s" by (auto simp: life_inv_def order_inv_def)
  from took_hashed [OF hashes.prems(5) hashes(1-3) v hashes(4) l] show ?case by blast
next
  case (unheard s m q h' f r)
  from unheard(4) have "sg_asks S m" by (cases rule: hash_cases) auto
  with unheard have "pi_failed s" by (auto simp: ask_inv_def asked_def)
  with unheard.prems(5) unheard(2) show ?case by (intro exI [of _ xs]) (erule took_shift, auto)
next
  case (forwards s m)
  from forwards.prems(5) show ?case
    by (intro exI [of _ xs]) (erule took_shift, use forwards(1-3) in simp_all)
next
  case (undelivered s m)
  then have "pi_failed s" by (auto simp: order_inv_def)
  with undelivered show ?case by (blast intro: took_dropped)
next
  case (hash_ends s)
  have "\<not> pi_failed s \<Longrightarrow> pi_todo s = []" using hash_ends(4) hash_ends.prems(2) by (simp add: order_inv_def)
  with hash_ends.prems(5) show ?case
    by (intro exI [of _ xs]) (erule took_shift, use hash_ends(1,3) in simp_all)
next
  case (uses s m q)
  from uses.prems(5) show ?case
    by (intro exI [of _ xs]) (erule took_shift, use uses(1,3) in simp_all)
next
  case (returns s)
  from returns.prems(5) show ?case by (intro exI [of _ xs]) (erule took_shift, simp_all)
next
  case (write_ends s)
  have "pi_fwd s = None" using write_ends(4) write_ends.prems(1) by (auto simp: life_inv_def split: if_splits)
  with write_ends.prems(5) show ?case
    by (intro exI [of _ xs]) (erule took_shift, use write_ends(1,3) in simp_all)
qed

lemma breaks_took:
  "breaks s t \<Longrightarrow> took S verify h ms xs s \<Longrightarrow> took S verify h ms xs t"
proof (induction rule: breaks.induct)
  case (writer_fails s)
  from writer_fails(2) show ?case by (rule took_shift) (use writer_fails(1) in auto)
qed (rule took_hang_up)

text \<open>A thread that is there can make a step, or the one it waits for can.\<close>

lemma net_step:
  assumes "pi_net s" "0 < depth" "if verify then pi_q1 s = [] else pi_q2 s = []"
    and "pi_waits s \<Longrightarrow> pi_replies s \<noteq> [] \<or> \<not> pi_hasher s" and "0 < pi_pool s \<or> pi_holds s \<or> \<not> pi_writer s"
  shows "\<exists>t. works S verify depth s t"
proof (cases "pi_waits s")
  case True
  with assms(1,4) show ?thesis by (cases "pi_replies s") (blast intro: works.replied works.unanswered)+
next
  case nw: False
  show ?thesis
  proof (cases "pi_todo s")
    case Nil
    with assms(1) nw show ?thesis by (blast intro: works.ends)
  next
    case (Cons m rest)
    show ?thesis
    proof (cases "sg_takes S m \<and> \<not> pi_holds s")
      case True
      with assms(1,5) nw Cons show ?thesis
        by (cases "pi_pool s = 0") (blast intro: works.takes_buffer works.no_buffer)+
    next
      case False
      then have h: "pi_holds s \<or> \<not> sg_takes S m" by blast
      show ?thesis
      proof (cases "if verify then pi_hasher s else pi_writer s")
        case True
        with assms(2,3) have "if verify then pi_hasher s \<and> length (pi_q1 s) < depth
            else pi_writer s \<and> length (pi_q2 s) < depth" by (auto split: if_splits)
        from works.sends [OF assms(1) nw Cons h this] show ?thesis by blast
      next
        case False
        from works.refused [OF assms(1) nw Cons h False] show ?thesis by blast
      qed
    qed
  qed
qed

lemma hash_step_exists:
  assumes "pi_hasher s" "pi_fwd s = None" "pi_q1 s \<noteq> [] \<or> \<not> pi_net s"
  shows "\<exists>t. works S verify depth s t"
proof (cases "pi_q1 s")
  case Nil
  with assms show ?thesis by (blast intro: works.hash_ends)
next
  case (Cons m q)
  obtain h' f rep where e: "sg_hash S (pi_state s) m = (h', f, rep)" by (cases "sg_hash S (pi_state s) m")
  show ?thesis
  proof (cases "rep = None \<or> pi_net s")
    case True
    from works.hashes [OF assms(1,2) Cons e True] show ?thesis by blast
  next
    case False
    then obtain r where "rep = Some r" "\<not> pi_net s" by auto
    with works.unheard [OF assms(1,2) Cons] e show ?thesis by blast
  qed
qed

lemma progress:
  assumes l: "life_inv verify s" and a: "ask_inv S s" and b: "buf_inv S depth bufs s"
    and n: "0 < depth" "0 < bufs" "\<not> ended s"
  shows "\<exists>t. works S verify depth s t"
proof -
  have waits: "pi_waits s \<Longrightarrow> pi_replies s \<noteq> [] \<or> \<not> pi_hasher s" if "pi_net s" "pi_q1 s = []"
    using a that by (auto simp: ask_inv_def asked_def)
  show ?thesis
  proof (cases "pi_hasher s \<and> (pi_fwd s = None) \<and> (pi_q1 s \<noteq> [] \<or> \<not> pi_net s)")
    case True
    then show ?thesis by (blast intro: hash_step_exists)
  next
    case nh: False
    show ?thesis
    proof (cases "pi_writer s")
      case False
      show ?thesis
      proof (cases "pi_fwd s")
        case (Some m)
        with l False show ?thesis by (auto simp: life_inv_def intro: works.undelivered)
      next
        case None
        with n(3) nh False have net: "pi_net s" and "pi_hasher s \<longrightarrow> pi_q1 s = []" by (auto simp: ended_def)
        with l False have "pi_q1 s = []" "pi_q2 s = []" by (auto simp: life_inv_def)
        with net False waits n(1) show ?thesis by (intro net_step) auto
      qed
    next
      case w: True
      show ?thesis
      proof (cases "pi_back s \<or> pi_q2 s \<noteq> []")
        case True
        with w show ?thesis
          by (cases "pi_q2 s"; cases "pi_back s") (auto intro: works.returns works.uses)
      next
        case nb: False
        show ?thesis
        proof (cases "if verify then pi_hasher s else pi_net s")
          case False
          from works.write_ends [OF w _ _ False] nb show ?thesis by blast
        next
          case up: True
          show ?thesis
          proof (cases "pi_fwd s")
            case (Some m)
            from l Some have "pi_hasher s" by (simp add: life_inv_def)
            from works.forwards [OF this Some w] nb n(1) show ?thesis by auto
          next
            case None
            with nh have hs: "pi_hasher s \<Longrightarrow> pi_q1 s = [] \<and> pi_net s" by blast
            from l have lf: "\<not> verify \<longrightarrow> \<not> pi_hasher s" "\<not> pi_hasher s \<longrightarrow> pi_q1 s = []"
                "pi_failed s \<longrightarrow> \<not> pi_net s \<or> \<not> pi_writer s"
              unfolding life_inv_def by blast+
            have net: "pi_net s" and q: "pi_q1 s = []" using hs up lf(1,2) by (cases verify, simp_all)+
            have "buffers S s = bufs" using b lf(3) net w unfolding buf_inv_def by blast
            then have "pi_pool s + of_bool (pi_holds s) = bufs" using None q nb by (simp add: buffers_def)
            with n(2) have "0 < pi_pool s \<or> pi_holds s" by (cases "pi_holds s") simp_all
            with net q nb waits n(1) show ?thesis by (intro net_step) auto
          qed
        qed
      qed
    qed
  qed
qed

lemma works_todo: "works S verify depth s t \<Longrightarrow> set (pi_todo t) \<subseteq> set (pi_todo s)"
  by (induction rule: works.induct)
    (auto simp: hang_up_def sent_to_def Let_def dest: list.set_sel(2))

lemma moves_sound: "moves S verify depth s t \<Longrightarrow> sound S verify depth bufs h ms s \<Longrightarrow> sound S verify depth bufs h ms t"
  unfolding moves_def
proof (elim disjE)
  assume m: "works S verify depth s t" and s: "sound S verify depth bufs h ms s"
  from s obtain xs where xs: "took S verify h ms xs s" by (auto simp: sound_def)
  have asks: "verify \<or> (\<forall>m \<in> set (pi_todo t). \<not> sg_asks S m)" using s works_todo [OF m] by (auto simp: sound_def)
  from s show ?thesis
    using works_life [OF m] works_order [OF m] works_hold [OF m] works_ask [OF m] works_buf [OF m]
      works_took [OF m _ _ _ _ xs] asks
    unfolding sound_def by blast
next
  assume b: "breaks s t" and s: "sound S verify depth bufs h ms s"
  have "pi_todo t = pi_todo s" using b by (cases rule: breaks.cases) (simp_all add: hang_up_def)
  with s show ?thesis
    using breaks_life [OF b] breaks_order [OF b] breaks_hold [OF b] breaks_ask [OF b] breaks_buf [OF b]
      breaks_took [OF b]
    unfolding sound_def by metis
qed

lemma start_sound:
  assumes "verify \<or> (\<forall>m \<in> set ms. \<not> sg_asks S m)"
  shows "sound S verify depth bufs h ms (pipe_start verify bufs h ms)"
proof -
  have "took S verify h ms [] (pipe_start verify bufs h ms)"
    by (simp add: took_def pipe_start_def outs_def reps_def)
  with assms show ?thesis
    by (auto simp: sound_def life_inv_def order_inv_def hold_inv_def ask_inv_def asked_def buf_inv_def buffers_def
        pipe_start_def)
qed

lemma run_sound:
  "(moves S verify depth ^^ n) (pipe_start verify bufs h ms) t \<Longrightarrow> verify \<or> (\<forall>m \<in> set ms. \<not> sg_asks S m) \<Longrightarrow>
   sound S verify depth bufs h ms t \<and> n + work_left t \<le> 9 * length ms + 5"
proof (induction n arbitrary: t)
  case 0
  then have "t = pipe_start verify bufs h ms" by simp
  with start_sound [OF "0.prems"(2)] show ?case by (simp add: work_left_def pipe_start_def)
next
  case (Suc n)
  from Suc.prems(1) obtain u where
    u: "(moves S verify depth ^^ n) (pipe_start verify bufs h ms) u" "moves S verify depth u t"
    by (rule relpowp_Suc_E)
  from Suc.IH [OF u(1) Suc.prems(2)] have
    IH: "sound S verify depth bufs h ms u" "n + work_left u \<le> 9 * length ms + 5" by blast+
  from moves_sound [OF u(2) IH(1)] moves_less [OF u(2)] IH(2) show ?case by simp
qed

text \<open>Under every schedule: the run is finite, nobody waits for ever, and the messages arrive.\<close>

lemma runs:
  assumes r: "(moves S verify depth ^^ n) (pipe_start verify bufs h ms) t"
    and n: "0 < depth" "0 < bufs" and a: "verify \<or> (\<forall>m \<in> set ms. \<not> sg_asks S m)"
  shows "n \<le> 9 * length ms + 5 \<and> (ended t \<or> (\<exists>u. works S verify depth t u)) \<and>
    prefix (pi_used t) (outs S verify h ms) \<and>
    (ended t \<longrightarrow> \<not> pi_failed t \<longrightarrow> pi_used t = outs S verify h ms \<and> pi_got t = reps S verify h ms)"
proof -
  from run_sound [OF r a] have s: "sound S verify depth bufs h ms t" and w: "n \<le> 9 * length ms + 5" by simp_all
  then have l: "life_inv verify t" "ask_inv S t" "buf_inv S depth bufs t" "order_inv verify t" by (simp_all add: sound_def)
  from s obtain xs where xs: "took S verify h ms xs t" by (auto simp: sound_def)
  note d = tookD [OF xs]
  have "prefix (pi_used t) (outs S verify h ms)"
    using d(7) outs_prefix [OF d(1)] by (rule prefix_order.trans)
  moreover have "pi_used t = outs S verify h ms \<and> pi_got t = reps S verify h ms" if e: "ended t" "\<not> pi_failed t"
  proof -
    have off: "\<not> pi_net t" "\<not> pi_hasher t" "\<not> pi_writer t" using e(1) by (simp_all add: ended_def)
    have "xs = ms"
    proof (cases verify)
      case True
      with d(4) off e(2) show ?thesis by blast
    next
      case False
      with d(5) l(4) off e(2) show ?thesis by (simp add: order_inv_def)
    qed
    moreover have "pi_replies t = []" using l(2) off e(2) by (simp add: ask_inv_def asked_def)
    ultimately show ?thesis using d(8,9) off e(2) by simp
  qed
  ultimately show ?thesis using w progress [OF l(1-3) n] by blast
qed

lemma run_buffers:
  assumes "(moves S verify depth ^^ n) (pipe_start verify bufs h ms) t" and "verify \<or> (\<forall>m \<in> set ms. \<not> sg_asks S m)"
  shows "length (pi_q1 t) \<le> depth \<and> length (pi_q2 t) \<le> depth \<and> buffers S t \<le> bufs \<and>
    (pi_back t \<longrightarrow> pi_pool t < bufs)"
  using run_sound [OF assms] by (auto simp: sound_def buf_inv_def buffers_def)

end

section \<open>The two programs\<close>

fun is_data :: "msg \<Rightarrow> bool" where
  "is_data (Data buf len) \<longleftrightarrow> True"
| "is_data _ \<longleftrightarrow> False"

definition receiver_stages :: "'h blake3 \<Rightarrow> (msg, 'h) stages" where
  "receiver_stages B = \<lparr>sg_takes = is_data, sg_asks = (\<lambda>m. m = Finish), sg_hash = hash_step B\<rparr>"

fun is_chunk :: "out_msg result \<Rightarrow> bool" where
  "is_chunk (Inr (Chunk buf len)) \<longleftrightarrow> True"
| "is_chunk _ \<longleftrightarrow> False"

definition sender_stages :: "'h blake3 \<Rightarrow> (out_msg result, 'h) stages" where
  "sender_stages B =
     \<lparr>sg_takes = is_chunk, sg_asks = (\<lambda>_. False),
      sg_hash = (\<lambda>h m. case hash_item B h m of (h', fwd) \<Rightarrow> (h', Some fwd, None))\<rparr>"

interpretation rcv: stage "receiver_stages B" for B
proof
  fix m and h :: 'a
  show "sg_takes (receiver_stages B) m \<Longrightarrow>
      \<exists>h' x. sg_hash (receiver_stages B) h m = (h', Some x, None) \<and> sg_takes (receiver_stages B) x"
    by (cases m) (simp_all add: receiver_stages_def)
  show "sg_asks (receiver_stages B) m \<Longrightarrow> \<not> sg_takes (receiver_stages B) m \<and>
      (\<exists>h' r. sg_hash (receiver_stages B) h m = (h', None, Some r))"
    by (simp add: receiver_stages_def)
  show "\<not> sg_takes (receiver_stages B) m \<Longrightarrow> \<not> sg_asks (receiver_stages B) m \<Longrightarrow>
      \<exists>h' x. sg_hash (receiver_stages B) h m = (h', Some x, None) \<and> \<not> sg_takes (receiver_stages B) x"
    by (cases m) (simp_all add: receiver_stages_def)
qed

lemma chunk_kept: "is_chunk (snd (hash_item B h m)) = is_chunk m"
  by (cases "(B, h, m)" rule: hash_item.cases) simp_all

interpretation sndr: stage "sender_stages B" for B
proof
  fix m and h :: 'a
  obtain h' x where x: "hash_item B h m = (h', x)" by (cases "hash_item B h m")
  then have k: "is_chunk x = is_chunk m" using chunk_kept [of B h m] by simp
  show "sg_takes (sender_stages B) m \<Longrightarrow>
      \<exists>h' x. sg_hash (sender_stages B) h m = (h', Some x, None) \<and> sg_takes (sender_stages B) x"
    using x k by (simp add: sender_stages_def)
  show "sg_asks (sender_stages B) m \<Longrightarrow> \<not> sg_takes (sender_stages B) m \<and>
      (\<exists>h' r. sg_hash (sender_stages B) h m = (h', None, Some r))"
    by (simp add: sender_stages_def)
  show "\<not> sg_takes (sender_stages B) m \<Longrightarrow> \<not> sg_asks (sender_stages B) m \<Longrightarrow>
      \<exists>h' x. sg_hash (sender_stages B) h m = (h', Some x, None) \<and> \<not> sg_takes (sender_stages B) x"
    using x k by (simp add: sender_stages_def)
qed

lemma receiver_outs: "outs (receiver_stages B) verify (b3_new B) ms = forwarded B verify ms"
proof -
  have "stage_out (receiver_stages B) h ms = fst (hash_loop B h ms)" for h
    by (induction ms arbitrary: h) (auto simp: receiver_stages_def split: prod.splits option.splits)
  then show ?thesis by (simp add: outs_def forwarded_def)
qed

lemma receiver_reps:
  "reps (receiver_stages B) verify (b3_new B) ms = (if verify then snd (hash_loop B (b3_new B) ms) else [])"
proof -
  have "stage_replies (receiver_stages B) h ms = snd (hash_loop B h ms)" for h
    by (induction ms arbitrary: h) (auto simp: receiver_stages_def split: prod.splits option.splits)
  then show ?thesis by (simp add: reps_def)
qed

lemma sender_outs: "outs (sender_stages B) verify (b3_new B) ms = to_socket B verify ms"
proof -
  have "stage_out (sender_stages B) h ms = hash_items B h ms" for h
    by (induction ms arbitrary: h) (auto simp: sender_stages_def split: prod.splits)
  then show ?thesis by (simp add: outs_def to_socket_def)
qed

section \<open>Every schedule\<close>

text \<open>
  C17. The receiver's threads, composed as functions elsewhere, are what every schedule of
  them amounts to. Let the network thread be about to send any list of messages. Whatever
  thread moves next, and even if the network thread or the writer fails at any moment: after
  at most nine moves per message and five more nothing is left to do, and until all three
  threads have ended one of them can move, so no session hangs on a channel, the pool or a
  reply. At every moment the writer has used up a prefix of what \<open>forwarded\<close> says it gets;
  when all have ended and none failed, all of it, and the network thread got exactly the
  digests \<open>hash_loop\<close> computes.
\<close>

theorem receiver_any_schedule:
  assumes "(moves (receiver_stages B) verify depth ^^ n) (pipe_start verify depth (b3_new B) ms) t"
    and "0 < depth" and "verify \<or> Finish \<notin> set ms"
  shows "n \<le> 9 * length ms + 5 \<and> (ended t \<or> (\<exists>u. works (receiver_stages B) verify depth t u)) \<and>
    prefix (pi_used t) (forwarded B verify ms) \<and>
    (ended t \<longrightarrow> \<not> pi_failed t \<longrightarrow> pi_used t = forwarded B verify ms \<and>
       pi_got t = (if verify then snd (hash_loop B (b3_new B) ms) else []))"
proof -
  have "verify \<or> (\<forall>m \<in> set ms. \<not> sg_asks (receiver_stages B) m)"
    using assms(3) by (auto simp: receiver_stages_def)
  from rcv.runs [OF assms(1,2,2) this] show ?thesis unfolding receiver_outs receiver_reps .
qed

text \<open>One schedule of a flow with one message.\<close>

lemma sample_schedule:
  assumes S: "sg_takes S m" "sg_hash S h m = (h', Some x, None)" "\<not> sg_asks S m" "sg_takes S x"
    and s: "s = pipe_start True b h [m]" and b: "0 < b"
  obtains u t where "(moves S True 1 ^^ 6) s u" "pi_back u" "(moves S True 1 ^^ 9) s t" "ended t" "\<not> pi_failed t"
    "pi_used t = [x]"
proof -
  note run = relpowp_Suc_I
  let ?R = "moves S True 1"
  define s1 where "s1 = s\<lparr>pi_holds := True, pi_pool := b - 1\<rparr>"
  define s2 where "s2 = sent_to S True m s1"
  define s3 where "s3 = s2\<lparr>pi_net := False\<rparr>"
  define s4 where "s4 = s3\<lparr>pi_q1 := [], pi_state := h', pi_fwd := Some x\<rparr>"
  define s5 where "s5 = s4\<lparr>pi_fwd := None, pi_q2 := [x]\<rparr>"
  define s6 where "s6 = s5\<lparr>pi_q2 := [], pi_used := [x], pi_back := True\<rparr>"
  define s7 where "s7 = s6\<lparr>pi_back := False, pi_pool := b\<rparr>"
  define s8 where "s8 = s7\<lparr>pi_hasher := False\<rparr>"
  define s9 where "s9 = s8\<lparr>pi_writer := False\<rparr>"
  note defs = s pipe_start_def s1_def s2_def s3_def s4_def s5_def s6_def s7_def s8_def s9_def sent_to_def Let_def
  have "?R s s1" unfolding moves_def using works.takes_buffer [of s m "[]" S True 1] S(1) b by (simp add: s1_def s pipe_start_def)
  moreover have "?R s1 s2" unfolding moves_def s2_def using works.sends [of s1 m "[]" S True 1] by (simp add: s1_def s pipe_start_def)
  moreover have "?R s2 s3" unfolding moves_def s3_def using works.ends [of s2 S True 1] S(3) by (simp add: defs)
  moreover have "?R s3 s4" unfolding moves_def using works.hashes [of s3 m "[]" S h' "Some x" None True 1] S(2) by (simp add: defs)
  moreover have "?R s4 s5" unfolding moves_def using works.forwards [of s4 x 1 S True] by (simp add: defs)
  moreover have "?R s5 s6" unfolding moves_def using works.uses [of s5 x "[]" S True 1] S(4) by (simp add: defs)
  ultimately have "(?R ^^ Suc (Suc (Suc (Suc (Suc (Suc 0)))))) s s6" by (blast intro: relpowp_Suc_I relpowp_0_I)
  then have six: "(?R ^^ 6) s s6" by (simp only: numeral_eq_Suc pred_numeral_simps arith_simps)
  have "?R s6 s7" unfolding moves_def using works.returns [of s6 S True 1] b by (simp add: defs)
  moreover have "?R s7 s8" unfolding moves_def using works.hash_ends [of s7 S True 1] by (simp add: defs)
  moreover have "?R s8 s9" unfolding moves_def using works.write_ends [of s8 True S 1] by (simp add: defs)
  ultimately have "(?R ^^ Suc (Suc (Suc 6))) s s9" using six by (blast intro: relpowp_Suc_I)
  then have nine: "(?R ^^ 9) s s9" by simp
  have "pi_back s6" "ended s9" "\<not> pi_failed s9" "pi_used s9 = [x]" by (simp_all add: defs ended_def)
  with six nine that show ?thesis by blast
qed

theorem receiver_any_schedule_witness:
  "\<exists>t. (moves (receiver_stages fold_hasher) True 1 ^^ 9) (pipe_start True 1 (b3_new fold_hasher) [Data [7] 1]) t \<and>
     ended t \<and> \<not> pi_failed t \<and> pi_used t = forwarded fold_hasher True [Data [7] 1]"
proof (rule sample_schedule [of "receiver_stages fold_hasher" "Data [7] 1" "b3_new fold_hasher" _ "Data [7] 1" _ 1, OF _ _ _ _ refl])
  fix t
  assume r: "(moves (receiver_stages fold_hasher) True 1 ^^ 9) (pipe_start True 1 (b3_new fold_hasher) [Data [7] 1]) t"
    and e: "ended t" "\<not> pi_failed t"
  from receiver_any_schedule [OF r] e r show ?thesis by auto
qed (simp_all add: receiver_stages_def)

text \<open>
  C18. The same for the sender, whose pool has two buffers more than a queue has places:
  every schedule ends, nobody waits for ever, the socket gets a prefix of \<open>to_socket\<close> and, if
  no thread failed, all of it. Moreover the reader finds a channel closed only after the
  writing loop has failed.
\<close>

theorem sender_any_schedule:
  assumes "(moves (sender_stages B) verify depth ^^ n) (pipe_start verify (depth + 2) (b3_new B) ms) t"
    and "0 < depth"
  shows "n \<le> 9 * length ms + 5 \<and> (ended t \<or> (\<exists>u. works (sender_stages B) verify depth t u)) \<and>
    prefix (pi_used t) (to_socket B verify ms) \<and>
    (ended t \<longrightarrow> \<not> pi_failed t \<longrightarrow> pi_used t = to_socket B verify ms) \<and>
    (pi_net t \<longrightarrow> \<not> pi_writer t \<longrightarrow> pi_failed t)"
proof -
  have a: "verify \<or> (\<forall>m \<in> set ms. \<not> sg_asks (sender_stages B) m)" by (simp add: sender_stages_def)
  from sndr.run_sound [OF assms(1) a] have "pi_net t \<longrightarrow> \<not> pi_writer t \<longrightarrow> pi_failed t"
    by (auto simp: sound_def order_inv_def)
  moreover have "0 < depth + 2" by simp
  note sndr.runs [OF assms(1,2) this a, unfolded sender_outs]
  ultimately show ?thesis by blast
qed

theorem sender_any_schedule_witness:
  "\<exists>t. (moves (sender_stages fold_hasher) True 1 ^^ 9) (pipe_start True 3 (b3_new fold_hasher) [Inr (Chunk [7] 1)]) t \<and>
     ended t \<and> pi_used t = to_socket fold_hasher True [Inr (Chunk [7] 1)]"
proof (rule sample_schedule [of "sender_stages fold_hasher" "Inr (Chunk [7] 1)" "b3_new fold_hasher" _
      "Inr (Chunk [7] 1)" _ 3, OF _ _ _ _ refl])
  fix t
  assume r: "(moves (sender_stages fold_hasher) True 1 ^^ 9) (pipe_start True 3 (b3_new fold_hasher) [Inr (Chunk [7] 1)]) t"
    and e: "ended t" "\<not> pi_failed t"
  have "(3 :: nat) = 1 + 2" by simp
  from sender_any_schedule [OF r [unfolded this]] e r show ?thesis by auto
qed (simp_all add: sender_stages_def)

text \<open>
  C19. Memory is bounded whatever the schedule: no more messages wait in a queue than it has
  places, the buffers in the pool, in the queues and in the threads' hands are never more than
  were allocated, and a thread about to return a buffer always finds room in the pool's
  channel, so returning one never blocks.
\<close>

theorem receiver_memory_bounded:
  assumes "(moves (receiver_stages B) verify depth ^^ n) (pipe_start verify depth (b3_new B) ms) t"
    and "verify \<or> Finish \<notin> set ms"
  shows "length (pi_q1 t) \<le> depth \<and> length (pi_q2 t) \<le> depth \<and>
    buffers (receiver_stages B) t \<le> depth \<and> (pi_back t \<longrightarrow> pi_pool t < depth)"
proof -
  have "verify \<or> (\<forall>m \<in> set ms. \<not> sg_asks (receiver_stages B) m)"
    using assms(2) by (auto simp: receiver_stages_def)
  from rcv.run_buffers [OF assms(1) this] show ?thesis .
qed

theorem receiver_memory_bounded_witness:
  "\<exists>u. (moves (receiver_stages fold_hasher) True 1 ^^ 6) (pipe_start True 1 (b3_new fold_hasher) [Data [7] 1]) u \<and>
     pi_back u \<and> pi_pool u = 0"
proof (rule sample_schedule [of "receiver_stages fold_hasher" "Data [7] 1" "b3_new fold_hasher" _ "Data [7] 1" _ 1, OF _ _ _ _ refl])
  fix u
  assume r: "(moves (receiver_stages fold_hasher) True 1 ^^ 6) (pipe_start True 1 (b3_new fold_hasher) [Data [7] 1]) u"
    and b: "pi_back u"
  from receiver_memory_bounded [OF r] b r show ?thesis by auto
qed (simp_all add: receiver_stages_def)

end
