(* ===== verification/Multi.thy ===== *)
theory Multi
  imports EndToEnd
begin

text \<open>
  The two ends together over several connections: the primary one, with the handshake, the
  manifest and its share of the items, and the further ones, which the listener may hand out
  in any order. Each end's flows are the pipelines of the other theories, one after the
  other on the state they share.
\<close>

section \<open>Counts\<close>

lemma count_items:
  "foldl count_item st its =
     st\<lparr>st_files := st_files st + word_of_nat (length its),
        st_bytes := st_bytes st + sum_list (map (moved_bytes \<circ> fst) its)\<rparr>"
  by (induction its arbitrary: st) (simp_all add: count_item_def add_ac)

lemma total_stats_items:
  "total_stats (foldl count_item stats_default its) (map (\<lambda>its. Inr (foldl count_item stats_default its)) itss) =
   Inr (foldl count_item stats_default (its @ concat itss))"
proof (induction itss arbitrary: its)
  case (Cons x itss)
  have "(foldl count_item stats_default its)
      \<lparr>st_files := st_files (foldl count_item stats_default its) + st_files (foldl count_item stats_default x),
       st_bytes := st_bytes (foldl count_item stats_default its) + st_bytes (foldl count_item stats_default x)\<rparr> =
      foldl count_item stats_default (its @ x)"
    by (simp add: count_items stats_default_def)
  with Cons.IH [of "its @ x"] show ?case by simp
qed simp

lemma count_items_mset: "mset xs = mset ys \<Longrightarrow> foldl count_item st xs = foldl count_item st ys"
proof -
  assume e: "mset xs = mset ys"
  have "sum_list (map (moved_bytes \<circ> fst) xs) = sum_list (map (moved_bytes \<circ> fst) ys)"
    using e by (metis mset_map sum_mset_sum_list)
  with mset_eq_length [OF e] show ?thesis by (simp add: count_items)
qed

section \<open>The sender\<close>

text \<open>A connection over which the sender can do a flow's part.\<close>

definition dial_fit :: "source_item list \<Rightarrow> dial \<Rightarrow> bool" where
  "dial_fit items d \<longleftrightarrow>
     dl_setup d = None \<and> dl_room d = None \<and> sock_healthy (dl_sock d) \<and> outgoing (dl_sock d) = [] \<and>
     write_events (dl_sock d) = [] \<and> sum_list (map buffers_of items) \<le> length (dl_pool d) \<and>
     all_there (dl_disk d) items \<and> links_named (dl_disk d) items"

definition greeted :: "bool \<Rightarrow> bytes \<Rightarrow> u32 \<Rightarrow> nat \<Rightarrow> dial \<Rightarrow> dial" where
  "greeted verify token cnt i d =
     d\<lparr>dl_sock := (dl_sock d)\<lparr>outgoing := encode_handshake_multi (flags_of verify) token cnt (word_of_nat i)\<rparr>\<rparr>"

lemma pair_bands_live:
  "\<forall>d \<in> set ds. dl_setup d = None \<and> outgoing (dl_sock d) = [] \<and> write_events (dl_sock d) = [] \<Longrightarrow>
   se_dials s = ds @ rest \<Longrightarrow>
   pair_bands (length ds) token verify cnt i s =
     (Inr (map2 (greeted verify token cnt) [i..<i + length ds] ds), s\<lparr>se_dials := rest\<rparr>)"
proof (induction ds arbitrary: i s)
  case (Cons d ds)
  have c: "connect s = (Inr d, s\<lparr>se_dials := ds @ rest\<rparr>)" using Cons.prems by (simp add: connect_def)
  have w: "on_sock (sock_write_all (encode_handshake_multi (flags_of verify) token cnt (word_of_nat i))) (dl_sock d) t =
      (Inr ((), dl_sock (greeted verify token cnt i d)), t)" for t :: session
    using Cons.prems(1) by (simp add: on_sock_def sock_write_all_def greeted_def)
  have g: "d\<lparr>dl_sock := dl_sock (greeted verify token cnt i d)\<rparr> = greeted verify token cnt i d"
    by (simp add: greeted_def)
  have u: "[i..<i + length (d # ds)] = i # [Suc i..<Suc i + length ds]" using upt_conv_Cons [of i "i + Suc (length ds)"] by simp
  from Cons.IH [of "s\<lparr>se_dials := ds @ rest\<rparr>" "Suc i"] Cons.prems(1) c w g show ?case
    unfolding u by (simp add: io_bind_def)
qed simp

text \<open>What a flow put on its connection, from the disk's showing of its items.\<close>

definition flow_sent ::
  "'h blake3 \<Rightarrow> bool \<Rightarrow> source_item list \<Rightarrow> dial \<Rightarrow> bytes list \<Rightarrow> sock \<Rightarrow> bool" where
  "flow_sent B verify items d ps c \<longleftrightarrow>
     outgoing c = outgoing (dl_sock d) @ frames B verify items ps @ write_terminator \<and>
     length ps = length items \<and> (\<forall>it \<in> set (items_of items ps). length (snd it) = payload_len (fst it)) \<and>
     shown (dl_disk d) items ps"

lemma send_band_live:
  assumes "blake3_ok B absorbed" and "\<forall>i \<in> set items. sound_item i"
    and "dl_room d = None" "write_events (dl_sock d) = []"
    and "sum_list (map buffers_of items) \<le> length (dl_pool d)" "all_there (dl_disk d) items"
  shows "\<exists>c t ps. send_band B verify i items d s =
      ((Inr (foldl count_item stats_default (items_of items ps)), c), t) \<and> flow_sent B verify items d ps c \<and>
      ln_sock t = ln_sock s"
proof -
  have l: "ln_room (lane_of d s) = None" "write_events (ln_sock (lane_of d s)) = []"
    "all_there (ln_disk (lane_of d s)) items" "sum_list (map buffers_of items) \<le> length (ln_pool (lane_of d s))"
    using assms(3-6) by (simp_all add: lane_of_def)
  from send_lane_live [OF assms(1) l(1,2) assms(2) l(3,4), of verify stats_default] obtain t ps where
    t: "send_lane_inner B verify items stats_default (lane_of d s) =
        (Inr (foldl count_item stats_default (items_of items ps)), t)"
      "length ps = length items" "\<forall>it \<in> set (items_of items ps). length (snd it) = payload_len (fst it)"
      "sent_on (lane_of d s) (frames B verify items ps @ write_terminator) t" "shown (ln_disk (lane_of d s)) items ps"
    by blast
  then show ?thesis
    by (auto simp: send_band_def send_lane_def flow_sent_def sent_on_def lane_of_def)
qed

lemma send_bands_live:
  assumes B: "blake3_ok B absorbed"
  shows "list_all2 (\<lambda>items d. (\<forall>i \<in> set items. sound_item i) \<and> dl_room d = None \<and> write_events (dl_sock d) = [] \<and>
      sum_list (map buffers_of items) \<le> length (dl_pool d) \<and> all_there (dl_disk d) items) lanes ds \<Longrightarrow>
   \<exists>cs t pss. send_bands B verify i (zip lanes ds) s =
      (zip (map (\<lambda>(items, ps). Inr (foldl count_item stats_default (items_of items ps))) (zip lanes pss)) cs, t) \<and>
     length cs = length lanes \<and> length pss = length lanes \<and>
     (\<forall>l < length lanes. flow_sent B verify (lanes ! l) (ds ! l) (pss ! l) (cs ! l)) \<and> ln_sock t = ln_sock s"
proof (induction lanes ds arbitrary: i s rule: list_all2_induct)
  case Nil
  show ?case by simp
next
  case (Cons items lanes d ds)
  have "\<exists>c t ps. send_band B verify i items d s =
      ((Inr (foldl count_item stats_default (items_of items ps)), c), t) \<and> flow_sent B verify items d ps c \<and>
      ln_sock t = ln_sock s"
    by (rule send_band_live [OF B]) (use Cons.hyps(1) in auto)
  then obtain c t ps where
    b: "send_band B verify i items d s = ((Inr (foldl count_item stats_default (items_of items ps)), c), t)"
      "flow_sent B verify items d ps c" "ln_sock t = ln_sock s" by (elim exE conjE)
  from Cons.IH [of "Suc i" t] obtain cs u pss where
    r: "send_bands B verify (Suc i) (zip lanes ds) t =
        (zip (map (\<lambda>(items, ps). Inr (foldl count_item stats_default (items_of items ps))) (zip lanes pss)) cs, u)"
      "length cs = length lanes" "length pss = length lanes"
      "\<forall>l < length lanes. flow_sent B verify (lanes ! l) (ds ! l) (pss ! l) (cs ! l)" "ln_sock u = ln_sock t"
    by (elim exE conjE)
  have "\<forall>l < length (items # lanes).
      flow_sent B verify ((items # lanes) ! l) ((d # ds) ! l) ((ps # pss) ! l) ((c # cs) ! l)"
    using b(2) r(4) by (auto simp: less_Suc_eq_0_disj)
  with b(1,3) r show ?case
    by (intro exI [of _ "c # cs"] exI [of _ u] exI [of _ "ps # pss"]) simp
qed

lemma length_deal: "length (deal cnt items) = cnt"
  by (simp add: deal_def length_deal_loop)

lemma deal_mset: "0 < cnt \<Longrightarrow> mset (concat (deal cnt items)) = mset items"
  using deal_loop_mset [of cnt "replicate cnt []" 0 items] by (simp add: deal_def del: mset_concat)

lemma deal_set: "0 < cnt \<Longrightarrow> lane \<in> set (deal cnt items) \<Longrightarrow> set lane \<subseteq> set items"
  using deal_mset [of cnt items] by (metis UN_upper set_concat set_mset_mset)

text \<open>The connections of a session of \<open>cnt\<close> flows, the first of which brings the answer.\<close>

definition senders_fit :: "source_item list \<Rightarrow> bool list \<Rightarrow> nat \<Rightarrow> session \<Rightarrow> bool" where
  "senders_fit items bits cnt s \<longleftrightarrow>
     (\<exists>d ds rest. se_dials s = d # ds @ rest \<and>
        list_all2 dial_fit (deal cnt (fst (keep_unskipped items bits))) (d # ds) \<and>
        incoming (dl_sock d) = encode_bitmap bits @ [ACK])"

lemma greeted_fit:
  assumes "list_all2 dial_fit lanes ds" and "\<forall>l \<in> set lanes. \<forall>i \<in> set l. sound_item i"
  shows "list_all2 (\<lambda>items d. (\<forall>i \<in> set items. sound_item i) \<and> dl_room d = None \<and> write_events (dl_sock d) = [] \<and>
      sum_list (map buffers_of items) \<le> length (dl_pool d) \<and> all_there (dl_disk d) items) lanes
    (map2 (greeted verify token cnt) [i..<i + length ds] ds)"
proof (rule list_all2_all_nthI)
  show "length lanes = length (map2 (greeted verify token cnt) [i..<i + length ds] ds)"
    using list_all2_lengthD [OF assms(1)] by simp
  fix l assume l: "l < length lanes"
  have "map2 (greeted verify token cnt) [i..<i + length ds] ds ! l = greeted verify token cnt (i + l) (ds ! l)"
    using l list_all2_lengthD [OF assms(1)] by simp
  moreover have "dial_fit (lanes ! l) (ds ! l)" using assms(1) l by (rule list_all2_nthD)
  moreover have "lanes ! l \<in> set lanes" using l by simp
  ultimately show "(\<forall>i \<in> set (lanes ! l). sound_item i) \<and>
      dl_room (map2 (greeted verify token cnt) [i..<i + length ds] ds ! l) = None \<and>
      write_events (dl_sock (map2 (greeted verify token cnt) [i..<i + length ds] ds ! l)) = [] \<and>
      sum_list (map buffers_of (lanes ! l)) \<le> length (dl_pool (map2 (greeted verify token cnt) [i..<i + length ds] ds ! l)) \<and>
      all_there (dl_disk (map2 (greeted verify token cnt) [i..<i + length ds] ds ! l)) (lanes ! l)"
    using assms(2) by (simp add: dial_fit_def greeted_def)
qed

text \<open>The flows of a session, the first on the connection it has.\<close>

lemma send_flows_live:
  assumes B: "blake3_ok B absorbed" and L: "\<forall>i \<in> set L. sound_item i"
    and c: "ln_room (se_lane s) = None" "write_events (ln_sock (se_lane s)) = []"
      "all_there (ln_disk (se_lane s)) L" "sum_list (map buffers_of L) \<le> length (ln_pool (se_lane s))"
    and lb: "list_all2 (\<lambda>items d. (\<forall>i \<in> set items. sound_item i) \<and> dl_room d = None \<and> write_events (dl_sock d) = [] \<and>
      sum_list (map buffers_of items) \<le> length (dl_pool d) \<and> all_there (dl_disk d) items) Ls ds"
  shows "\<exists>u cs ps pss. send_flows B verify (L # Ls) ds s =
      (Inr (foldl count_item stats_default (concat (map2 items_of (L # Ls) (ps # pss)))), s\<lparr>se_lane := u, se_bands := cs\<rparr>) \<and>
    ln_sock u = (ln_sock (se_lane s))\<lparr>outgoing := outgoing (ln_sock (se_lane s)) @ frames B verify L ps @ write_terminator\<rparr> \<and>
    length ps = length L \<and> (\<forall>it \<in> set (items_of L ps). length (snd it) = payload_len (fst it)) \<and>
    shown (ln_disk (se_lane s)) L ps \<and> length cs = length Ls \<and> length pss = length Ls \<and>
    (\<forall>l < length Ls. flow_sent B verify (Ls ! l) (ds ! l) (pss ! l) (cs ! l))"
proof -
  from send_lane_live [OF B c(1,2) L c(3,4), of verify stats_default] obtain t ps where
    t: "send_lane_inner B verify L stats_default (se_lane s) = (Inr (foldl count_item stats_default (items_of L ps)), t)"
      "length ps = length L" "\<forall>it \<in> set (items_of L ps). length (snd it) = payload_len (fst it)"
      "sent_on (se_lane s) (frames B verify L ps @ write_terminator) t" "shown (ln_disk (se_lane s)) L ps"
    by auto
  obtain cs u pss where b: "send_bands B verify 1 (zip Ls ds) t =
        (zip (map (\<lambda>(items, ps). Inr (foldl count_item stats_default (items_of items ps))) (zip Ls pss)) cs, u)"
      "length cs = length Ls" "length pss = length Ls"
      "\<forall>l < length Ls. flow_sent B verify (Ls ! l) (ds ! l) (pss ! l) (cs ! l)" "ln_sock u = ln_sock t"
    using send_bands_live [OF B lb, of verify 1 t] by (elim exE conjE)
  let ?rs = "map (\<lambda>(items, ps). Inr (foldl count_item stats_default (items_of items ps)) :: stats result) (zip Ls pss)"
  have "map fst (zip ?rs cs) = map (\<lambda>its. Inr (foldl count_item stats_default its)) (map2 items_of Ls pss)"
    "map snd (zip ?rs cs) = cs"
    using b(2,3) by (simp_all add: split_def)
  then have "send_flows B verify (L # Ls) ds s =
      (Inr (foldl count_item stats_default (concat (map2 items_of (L # Ls) (ps # pss)))), s\<lparr>se_lane := u, se_bands := cs\<rparr>)"
    using t(1) b(1) total_stats_items [of "items_of L ps" "map2 items_of Ls pss"]
    by (simp add: send_flows_def send_lane_def)
  moreover have "ln_sock u = (ln_sock (se_lane s))
      \<lparr>outgoing := outgoing (ln_sock (se_lane s)) @ frames B verify L ps @ write_terminator\<rparr>"
    using b(5) t(4) c(2) unfolding sent_on_def by (intro sock.equality) simp_all
  ultimately show ?thesis
    using t b by (intro exI [of _ u] exI [of _ cs] exI [of _ ps] exI [of _ pss]) simp
qed

lemma send_multi_live:
  assumes B: "blake3_ok B absorbed" and walk: "fst (walk look paths) = Inr items"
    and snd: "\<forall>i \<in> set items. sound_item i" and bits: "length bits = length (offered (map i_entry items))"
    and s: "senders_fit items bits cnt s" and cnt: "cnt = unat streams" "1 < streams"
    and kept: "lanes = deal cnt (fst (keep_unskipped items bits))"
  shows "\<exists>t pss. send_multi B look paths token verify streams s =
      (Inr ((foldl count_item stats_default (concat (map2 items_of lanes pss)))
         \<lparr>st_skipped_files := word_of_nat (length (skipped (map i_entry items) bits)),
          st_skipped_bytes := sum_list (map e_size (skipped (map i_entry items) bits))\<rparr>), t) \<and>
    length pss = cnt \<and> length (se_bands t) = cnt - 1 \<and>
    outgoing (ln_sock (se_lane t)) = encode_handshake_multi (flags_of verify) token streams 0 @
      manifest_bytes (map i_entry items) @ frames B verify (lanes ! 0) (pss ! 0) @ write_terminator \<and>
    (\<forall>l < cnt. 0 < l \<longrightarrow> outgoing (se_bands t ! (l - 1)) =
       encode_handshake_multi (flags_of verify) token streams (word_of_nat l) @
       frames B verify (lanes ! l) (pss ! l) @ write_terminator) \<and>
    (\<forall>l < cnt. length (pss ! l) = length (lanes ! l) \<and>
       (\<forall>it \<in> set (items_of (lanes ! l) (pss ! l)). length (snd it) = payload_len (fst it)) \<and>
       shown (dl_disk (se_dials s ! l)) (lanes ! l) (pss ! l))"
proof -
  have pos: "0 < cnt" using cnt by (simp add: word_less_nat_alt)
  from s obtain d ds rest where d: "se_dials s = d # ds @ rest" "list_all2 dial_fit lanes (d # ds)"
      "incoming (dl_sock d) = encode_bitmap bits @ [ACK]"
    unfolding senders_fit_def kept by blast
  have len: "length lanes = cnt" by (simp add: kept length_deal)
  then have lds: "length ds = cnt - 1" using list_all2_lengthD [OF d(2)] by simp
  from len pos obtain L Ls where L: "lanes = L # Ls" by (cases lanes) auto
  from d(2) L have fit: "dial_fit L d" "list_all2 dial_fit Ls ds" by simp_all
  obtain kep st where k: "keep_unskipped items bits = (kep, st)" by fastforce
  note sk = keep_loop_skipped [OF bits k [unfolded keep_unskipped_def]]
  have sound: "\<forall>i \<in> set l. sound_item i" if "l \<in> set lanes" for l
    using deal_set [OF pos, of l kep] that sk snd k kept by auto
  let ?hs = "encode_handshake_multi (flags_of verify) token streams 0"
  from fit(1) have d1: "dl_setup d = None" "sock_healthy (dl_sock d)" "outgoing (dl_sock d) = []"
      "write_events (dl_sock d) = []" "dl_room d = None" by (simp_all add: dial_fit_def)
  from open_session_live [OF walk snd bits d(1) d1(1-4) d(3), of ?hs] k d1(5) obtain c where
    c: "open_session look paths ?hs s = (Inr (kep, st), s\<lparr>se_dials := ds @ rest, se_lane := c\<rparr>)"
      "outgoing (ln_sock c) = ?hs @ manifest_bytes (map i_entry items)" "incoming (ln_sock c) = [ACK]"
      "sock_healthy (ln_sock c)" "write_events (ln_sock c) = []" "ln_pool c = dl_pool d" "ln_room c = None"
      "ln_disk c = dl_disk d" by auto
  let ?s1 = "s\<lparr>se_dials := ds @ rest, se_lane := c\<rparr>" and ?s2 = "s\<lparr>se_dials := rest, se_lane := c\<rparr>"
  define gs where "gs = map2 (greeted verify token streams) [1..<1 + length ds] ds"
  have "\<forall>d \<in> set ds. dl_setup d = None \<and> outgoing (dl_sock d) = [] \<and> write_events (dl_sock d) = []"
    using fit(2) by (auto simp: dial_fit_def list_all2_conv_all_nth in_set_conv_nth)
  from pair_bands_live [OF this, of ?s1 rest token verify streams 1] have
    g: "pair_bands (cnt - 1) token verify streams 1 ?s1 = (Inr gs, ?s2)" by (simp add: lds gs_def)
  have L': "\<forall>i \<in> set L. sound_item i" and Ls': "\<forall>l \<in> set Ls. \<forall>i \<in> set l. sound_item i" using sound L by auto
  have "all_there (ln_disk c) L" "sum_list (map buffers_of L) \<le> length (ln_pool c)"
    using fit(1) c(6,8) by (simp_all add: dial_fit_def)
  then have s2: "ln_room (se_lane ?s2) = None" "write_events (ln_sock (se_lane ?s2)) = []"
      "all_there (ln_disk (se_lane ?s2)) L" "sum_list (map buffers_of L) \<le> length (ln_pool (se_lane ?s2))"
    using c(5,7) by simp_all
  from send_flows_live [OF B L' s2 greeted_fit [OF fit(2) Ls', of verify token streams 1, folded gs_def], of verify]
  obtain u cs ps qss where
    f: "send_flows B verify (L # Ls) gs ?s2 = (Inr (foldl count_item stats_default (concat (map2 items_of (L # Ls) (ps # qss)))),
        ?s2\<lparr>se_lane := u, se_bands := cs\<rparr>)" and
    t: "ln_sock u = (ln_sock c)\<lparr>outgoing := outgoing (ln_sock c) @ frames B verify L ps @ write_terminator\<rparr>"
      "length ps = length L" "\<forall>it \<in> set (items_of L ps). length (snd it) = payload_len (fst it)" "shown (dl_disk d) L ps" and
    b: "length cs = length Ls" "length qss = length Ls"
      "\<forall>l < length Ls. flow_sent B verify (Ls ! l) (gs ! l) (qss ! l) (cs ! l)"
    using c(8) by auto
  let ?m = "foldl count_item stats_default (concat (map2 items_of lanes (ps # qss)))"
  have flows: "send_flows B verify (deal cnt kep) gs ?s2 = (Inr ?m, ?s2\<lparr>se_lane := u, se_bands := cs\<rparr>)"
    using f kept k L by (metis fst_conv)
  have "sock_healthy (ln_sock u)" "incoming (ln_sock u) = [ACK]"
    using t(1) c(3,4) by (simp_all add: sock_healthy_def)
  from read_ack_live [OF this] obtain v where v: "read_ack u = (Inr (), v)" "outgoing (ln_sock v) = outgoing (ln_sock u)"
    by blast
  let ?t = "?s2\<lparr>se_lane := v, se_bands := cs\<rparr>"
  let ?sum = "st\<lparr>st_files := st_files st + st_files ?m, st_bytes := st_bytes st + st_bytes ?m\<rparr>"
  have run: "send_multi B look paths token verify streams s = (Inr ?sum, ?t)"
    using c(1) g flows v(1) cnt by (simp add: send_multi_def on_lane_def zoom_def io_bind_def Let_def)
  have "?sum = ?m\<lparr>st_skipped_files := word_of_nat (length (skipped (map i_entry items) bits)),
      st_skipped_bytes := sum_list (map e_size (skipped (map i_entry items) bits))\<rparr>"
    using sk by (cases ?m) (simp add: stats_default_def)
  moreover have "outgoing (ln_sock v) = ?hs @ manifest_bytes (map i_entry items) @ frames B verify L ps @ write_terminator"
    using v(2) t(1) c(2) by simp
  moreover have "outgoing (cs ! (l - 1)) = encode_handshake_multi (flags_of verify) token streams (word_of_nat l) @
      frames B verify (lanes ! l) ((ps # qss) ! l) @ write_terminator" if "l < cnt" "0 < l" for l
    using b(3) [rule_format, of "l - 1"] that L len lds by (simp add: flow_sent_def greeted_def gs_def del: upt_Suc)
  moreover have "length ((ps # qss) ! l) = length (lanes ! l) \<and>
      (\<forall>it \<in> set (items_of (lanes ! l) ((ps # qss) ! l)). length (snd it) = payload_len (fst it)) \<and>
      shown (dl_disk (se_dials s ! l)) (lanes ! l) ((ps # qss) ! l)" if "l < cnt" for l
  proof (cases l)
    case 0
    with t L d(1) show ?thesis by simp
  next
    case (Suc j)
    then have "j < length ds" "j < length Ls" using that lds len L by simp_all
    with Suc b(3) [rule_format, of j] L d(1) show ?thesis
      by (simp add: flow_sent_def greeted_def nth_append gs_def del: upt_Suc)
  qed
  moreover have "length (ps # qss) = cnt" "length cs = cnt - 1" using b(1,2) L len by simp_all
  ultimately show ?thesis
    using run L by (intro exI [of _ ?t] exI [of _ "ps # qss"]) simp
qed

section \<open>The receiver\<close>

definition conn_fit :: "conn \<Rightarrow> bool" where
  "conn_fit c \<longleftrightarrow>
     c_setup c = None \<and> c_idle c = None \<and> sock_healthy (c_sock c) \<and> outgoing (c_sock c) = [] \<and>
     write_events (c_sock c) = []"

definition bringing :: "bytes \<Rightarrow> conn \<Rightarrow> conn" where
  "bringing bs c = c\<lparr>c_sock := (c_sock c)\<lparr>incoming := bs\<rparr>\<rparr>"

lemma bringing_fit: "conn_fit c \<Longrightarrow> conn_fit (bringing bs c) \<and> incoming (c_sock (bringing bs c)) = bs"
  by (simp add: conn_fit_def bringing_def sock_healthy_def)

lemma flags_of_known: "flags_known (flags_of verify)" "(flags_of verify AND FLAG_NO_VERIFY = 0) = verify"
  by (simp_all add: flags_of_def flags_known_iff FLAG_NO_VERIFY_def)

lemma verify_handshake_multi_live:
  assumes "sock_healthy c" "length token = TOKEN_LEN" "1 < streams" "streams \<le> MAX_STREAMS"
    and "incoming c = encode_handshake_multi (flags_of verify) token streams 0 @ rest"
  shows "\<exists>c'. verify_handshake token c = (Inr (verify, Some (streams, 0)), c') \<and> sock_healthy c' \<and> incoming c' = rest \<and>
    outgoing c' = outgoing c \<and> write_events c' = write_events c"
proof -
  from sock.read_handshake_v4 [OF assms(1,2) flags_of_known(1) assms(5)] obtain c' where
    c': "read_handshake sock_read_exact c = (Inr \<lparr>hs_version = VERSION_MULTI, hs_flags = flags_of verify,
        hs_token = token, hs_streams = Some (streams, 0)\<rparr>, c')" "sock_healthy c'" "incoming c' = rest" by blast
  have "\<not> streams < 2" "\<not> MAX_STREAMS < streams"
    using assms(3,4) by (simp_all add: word_less_nat_alt word_le_nat_alt)
  then have "verify_handshake token c = (Inr (verify, Some (streams, 0)), c')"
    using c'(1) flags_of_known by (simp add: verify_handshake_def check_streams_def ct_eq_iff)
  with c' specD [OF read_handshake_only [of "\<lambda>_. True"] _ c'(1)] show ?thesis by auto
qed

lemma check_band_live:
  assumes "sock_healthy c" "length token = TOKEN_LEN" "0 < w" "w < streams"
    and "incoming c = encode_handshake_multi (flags_of verify) token streams w @ rest"
  shows "\<exists>c'. check_band token streams verify c = (Inr w, c') \<and> sock_healthy c' \<and> incoming c' = rest"
proof -
  from sock.read_handshake_v4 [OF assms(1,2) flags_of_known(1) assms(5)] obtain c' where
    c': "read_handshake sock_read_exact c = (Inr \<lparr>hs_version = VERSION_MULTI, hs_flags = flags_of verify,
        hs_token = token, hs_streams = Some (streams, w)\<rparr>, c')" "sock_healthy c'" "incoming c' = rest" by blast
  have "w \<noteq> 0" "\<not> streams \<le> w" using assms(3,4) by auto
  then have "check_band token streams verify c = (Inr w, c')"
    using c'(1) flags_of_known by (simp add: check_band_def ct_eq_iff)
  with c' show ?thesis by blast
qed

text \<open>What the connection of index \<open>l\<close> brings: its handshake, and its flow.\<close>

lemma accept_bands_live:
  assumes tok: "length token = TOKEN_LEN"
  shows "\<forall>l \<in> set order. 0 < (word_of_nat l :: u32) \<and> (word_of_nat l :: u32) < streams \<Longrightarrow>
   list_all2 (\<lambda>l c. conn_fit c \<and> incoming (c_sock c) =
     encode_handshake_multi (flags_of verify) token streams (word_of_nat l) @ data l) order cs \<Longrightarrow>
   h_conns s = cs @ extra \<Longrightarrow>
   \<exists>bands. accept_bands (length order) token streams verify s = (Inr bands, s\<lparr>h_conns := extra\<rparr>) \<and>
     list_all2 (\<lambda>l band. sock_healthy (snd band) \<and> incoming (snd band) = data l) order bands"
proof (induction order arbitrary: cs s)
  case (Cons l order)
  from Cons.prems(2) obtain c cs' where c: "cs = c # cs'" "conn_fit c"
      "incoming (c_sock c) = encode_handshake_multi (flags_of verify) token streams (word_of_nat l) @ data l"
      "list_all2 (\<lambda>l c. conn_fit c \<and> incoming (c_sock c) =
         encode_handshake_multi (flags_of verify) token streams (word_of_nat l) @ data l) order cs'"
    by (auto simp: list_all2_Cons1)
  have w: "0 < (word_of_nat l :: u32)" "(word_of_nat l :: u32) < streams" using Cons.prems(1) by simp_all
  from c(2) have "sock_healthy (c_sock c)" by (simp add: conn_fit_def)
  from check_band_live [OF this tok w c(3)] obtain q where
    q: "check_band token streams verify (c_sock c) = (Inr (word_of_nat l), q)" "sock_healthy q" "incoming q = data l"
    by blast
  let ?s = "s\<lparr>h_conns := cs' @ extra\<rparr>"
  have "\<forall>l \<in> set order. 0 < (word_of_nat l :: u32) \<and> (word_of_nat l :: u32) < streams" using Cons.prems(1) by simp
  from Cons.IH [OF this c(4), of ?s] obtain bands where
    b: "accept_bands (length order) token streams verify ?s = (Inr bands, s\<lparr>h_conns := extra\<rparr>)"
      "list_all2 (\<lambda>l band. sock_healthy (snd band) \<and> incoming (snd band) = data l) order bands" by auto
  have "accept_conn s = (Inr c, ?s)" using Cons.prems(3) c(1) by (simp add: accept_conn_def)
  moreover have "c_setup c = None" "c_idle c = None" using c(2) by (simp_all add: conn_fit_def)
  ultimately have "accept_bands (length (l # order)) token streams verify s =
      (Inr ((word_of_nat l, q) # bands), s\<lparr>h_conns := extra\<rparr>)"
    using q(1) b(1) by (simp add: sock_option_def on_sock_def io_bind_def)
  with q b(2) show ?case by (intro exI [of _ "(word_of_nat l, q) # bands"]) simp
qed simp

text \<open>The buffers of a further flow.\<close>

definition flow_fit :: "nat \<Rightarrow> (bool \<times> bytes) list \<times> nat option \<Rightarrow> bool" where
  "flow_fit n f \<longleftrightarrow> snd f = None \<and> (\<forall>b \<in> set (fst f). snd b \<noteq> []) \<and> n \<le> length (fst f)"

lemma run_bands_live:
  assumes k: "willing k" and B: "blake3_ok B absorbed" and dest: "utf8_valid dest" "0 \<notin> set dest"
  shows "list_all2 (\<lambda>its band. (\<forall>it \<in> set its. sendable it) \<and> sock_healthy (snd band) \<and>
      incoming (snd band) = concat (map (frame B verify) its) @ write_terminator) itss bands \<Longrightarrow>
   list_all2 (\<lambda>its. flow_fit (sum_list (map bufs_of its))) itss fs \<Longrightarrow> h_flows s = fs @ extra \<Longrightarrow>
   \<exists>s' segs. run_bands B k dest verify durable bands s =
      (map (\<lambda>its. Inr (foldl count_item stats_default its)) itss, s') \<and>
     n_in (h_net s') = n_in (h_net s) \<and> n_pool (h_net s') = n_pool (h_net s) \<and> n_room (h_net s') = n_room (h_net s) \<and>
     trace (os_of (h_net s')) = trace (os_of (h_net s)) @ concat segs \<and> list_all2 (filed dest durable) itss segs"
proof (induction itss bands arbitrary: fs s rule: list_all2_induct)
  case Nil
  show ?case by (intro exI [of _ s] exI [of _ "[]"]) simp
next
  case (Cons its itss band bands)
  from Cons.prems(1) obtain f fs' where f: "fs = f # fs'" "flow_fit (sum_list (map bufs_of its)) f"
      "list_all2 (\<lambda>its. flow_fit (sum_list (map bufs_of its))) itss fs'" by (auto simp: list_all2_Cons1)
  let ?n = "(h_net s)\<lparr>n_in := staged_new (snd band), n_pool := fst f, n_room := snd f\<rparr>"
  have n: "ready ?n" using Cons.hyps(1) f(2) staged_new_healthy by (simp add: ready_def flow_fit_def)
  have r: "staged_rem (n_in ?n) = concat (map (frame B verify) its) @ write_terminator @ []"
    using Cons.hyps(1) by simp
  have p: "sum_list (map bufs_of its) \<le> length (n_pool ?n)" using f(2) by (simp add: flow_fit_def)
  have i: "\<forall>it \<in> set its. sendable it" using Cons.hyps(1) by simp
  from run_pipeline_files [OF k B n dest i r p, of durable] obtain n' seg where
    n': "run_pipeline B k dest verify durable ?n = (Inr (foldl count_item stats_default its), n')"
      "trace (os_of n') = trace (os_of (h_net s)) @ seg" "filed dest durable its seg" by auto
  let ?t = "s\<lparr>h_net := (h_net s)\<lparr>n_sh := n_sh n', n_prog := n_prog n'\<rparr>, h_flows := fs' @ extra\<rparr>"
  have band: "run_band B k dest verify durable band s = (Inr (foldl count_item stats_default its), ?t)"
    using n'(1) Cons.prems(2) f(1) by (simp add: run_band_def Let_def)
  from Cons.IH [OF f(3), of ?t] obtain s' segs where
    s': "run_bands B k dest verify durable bands ?t =
        (map (\<lambda>its. Inr (foldl count_item stats_default its)) itss, s')"
      "n_in (h_net s') = n_in (h_net s)" "n_pool (h_net s') = n_pool (h_net s)" "n_room (h_net s') = n_room (h_net s)"
      "trace (os_of (h_net s')) = trace (os_of n') @ concat segs" "list_all2 (filed dest durable) itss segs"
    by auto
  have "run_bands B k dest verify durable (band # bands) s =
      (map (\<lambda>its. Inr (foldl count_item stats_default its)) (its # itss), s')"
    using band s'(1) by simp
  with s' n' show ?case by (intro exI [of _ s'] exI [of _ "seg # segs"]) simp
qed

definition receivers_fit :: "nat \<Rightarrow> nat \<Rightarrow> 'w host \<Rightarrow> bool" where
  "receivers_fit n cnt s \<longleftrightarrow>
     flow_fit n (n_pool (h_net s), n_room (h_net s)) \<and>
     (\<exists>cs extra. h_conns s = cs @ extra \<and> length cs = cnt \<and> (\<forall>c \<in> set cs. conn_fit c)) \<and>
     (\<exists>fs extra. h_flows s = fs @ extra \<and> length fs = cnt - 1 \<and> (\<forall>f \<in> set fs. flow_fit n f))"

text \<open>The connections the listener hands out bring these bytes.\<close>

definition wired_all :: "bytes list \<Rightarrow> 'w host \<Rightarrow> 'w host" where
  "wired_all bss s = s\<lparr>h_conns := map2 bringing bss (h_conns s) @ drop (length bss) (h_conns s)\<rparr>"

lemma run_flows_live:
  assumes k: "willing k" and B: "blake3_ok B absorbed" and dest: "utf8_valid dest" "0 \<notin> set dest"
    and s: "ready (h_net s)" "\<forall>it \<in> set its. sendable it" "sum_list (map bufs_of its) \<le> length (n_pool (h_net s))"
      "staged_rem (n_in (h_net s)) = concat (map (frame B verify) its) @ write_terminator"
    and b: "list_all2 (\<lambda>its band. (\<forall>it \<in> set its. sendable it) \<and> sock_healthy (snd band) \<and>
      incoming (snd band) = concat (map (frame B verify) its) @ write_terminator) itss bands"
    and f: "list_all2 (\<lambda>its. flow_fit (sum_list (map bufs_of its))) itss fs" "h_flows s = fs @ extra"
  shows "\<exists>s' segs. run_flows B k dest verify durable bands s =
      (Inr (foldl count_item stats_default (its @ concat itss)), s') \<and>
    same_out (n_in (h_net s)) (n_in (h_net s')) \<and> staged_rem (n_in (h_net s')) = [] \<and>
    trace (os_of (h_net s')) = trace (os_of (h_net s)) @ concat segs \<and> list_all2 (filed dest durable) (its # itss) segs"
proof -
  have r: "staged_rem (n_in (h_net s)) = concat (map (frame B verify) its) @ write_terminator @ []" using s(4) by simp
  from run_pipeline_files [OF k B s(1) dest s(2) r s(3), of durable] obtain n seg where
    n: "run_pipeline B k dest verify durable (h_net s) = (Inr (foldl count_item stats_default its), n)"
      "staged_rem (n_in n) = []" "same_out (n_in (h_net s)) (n_in n)" "trace (os_of n) = trace (os_of (h_net s)) @ seg"
      "filed dest durable its seg" by blast
  let ?t = "s\<lparr>h_net := n\<rparr>"
  have "h_flows ?t = fs @ extra" using f(2) by simp
  from run_bands_live [OF k B dest b f(1) this, of durable] obtain s' segs where
    s': "run_bands B k dest verify durable bands ?t =
        (map (\<lambda>its. Inr (foldl count_item stats_default its)) itss, s')"
      "n_in (h_net s') = n_in n" "trace (os_of (h_net s')) = trace (os_of n) @ concat segs"
      "list_all2 (filed dest durable) itss segs" by auto
  have "run_flows B k dest verify durable bands s =
      (Inr (foldl count_item stats_default (its @ concat itss)), s')"
    using n(1) s'(1) total_stats_items [of its itss] by (simp add: run_flows_def on_net_def zoom_def)
  with n s' show ?thesis by (intro exI [of _ s'] exI [of _ "seg # segs"]) simp
qed

lemma accept_multi_live:
  assumes k: "willing k" and B: "blake3_ok B absorbed" and dest: "utf8_valid dest" "0 \<notin> set dest"
    and tok: "length token = TOKEN_LEN"
    and s: "ready (h_net s)" "\<forall>it \<in> set its. sendable it" "sum_list (map bufs_of its) \<le> length (n_pool (h_net s))"
      "staged_rem (n_in (h_net s)) = concat (map (frame B verify) its) @ write_terminator"
      "write_events (s_stream (n_in (h_net s))) = []"
    and o: "\<forall>l \<in> set order. 0 < (word_of_nat l :: u32) \<and> (word_of_nat l :: u32) < streams"
      "length order = unat (streams - 1)"
    and c: "list_all2 (\<lambda>l c. conn_fit c \<and> incoming (c_sock c) =
       encode_handshake_multi (flags_of verify) token streams (word_of_nat l) @
       concat (map (frame B verify) (data l)) @ write_terminator) order cs" "h_conns s = cs @ extra"
    and d: "\<forall>l \<in> set order. \<forall>it \<in> set (data l). sendable it"
    and f: "list_all2 (\<lambda>l. flow_fit (sum_list (map bufs_of (data l)))) order fs" "h_flows s = fs @ extra'"
  shows "\<exists>s' segs post. accept_multi B k dest token durable streams verify s =
      (Inr (foldl count_item stats_default (its @ concat (map data order))), s') \<and>
    outgoing (s_stream (n_in (h_net s'))) = outgoing (s_stream (n_in (h_net s))) @ [ACK] \<and>
    staged_rem (n_in (h_net s')) = [] \<and>
    trace (os_of (h_net s')) = trace (os_of (h_net s)) @ concat segs @ post \<and>
    list_all2 (filed dest durable) (its # map data order) segs"
proof -
  obtain a where a: "on_net (new_registry durable) s = (Inr (), a)" "n_in (h_net a) = n_in (h_net s)"
      "n_pool (h_net a) = n_pool (h_net s)" "n_room (h_net a) = n_room (h_net s)"
      "trace (os_of (h_net a)) = trace (os_of (h_net s))" "h_conns a = h_conns s" "h_flows a = h_flows s"
    by (simp add: on_net_def zoom_def new_registry_def)
  from a(6) c(2) have ac: "h_conns a = cs @ extra" by simp
  from accept_bands_live [OF tok o(1) c(1) ac] obtain bands where
    b: "accept_bands (unat (streams - 1)) token streams verify a = (Inr bands, a\<lparr>h_conns := extra\<rparr>)"
      "list_all2 (\<lambda>l band. sock_healthy (snd band) \<and>
         incoming (snd band) = concat (map (frame B verify) (data l)) @ write_terminator) order bands"
    unfolding o(2) by blast
  let ?b = "a\<lparr>h_conns := extra\<rparr>"
  have bands: "list_all2 (\<lambda>its band. (\<forall>it \<in> set its. sendable it) \<and> sock_healthy (snd band) \<and>
      incoming (snd band) = concat (map (frame B verify) its) @ write_terminator) (map data order) bands"
    using b(2) d by (auto simp: list_all2_conv_all_nth)
  have fs: "list_all2 (\<lambda>its. flow_fit (sum_list (map bufs_of its))) (map data order) fs"
    using f(1) by (simp add: list_all2_map1)
  have rb: "ready (h_net ?b)" "sum_list (map bufs_of its) \<le> length (n_pool (h_net ?b))"
      "staged_rem (n_in (h_net ?b)) = concat (map (frame B verify) its) @ write_terminator" "h_flows ?b = fs @ extra'"
    using s a f(2) by (simp_all add: ready_def)
  from run_flows_live [OF k B dest rb(1) s(2) rb(2,3) bands fs rb(4), of durable] obtain u segs where
    u: "run_flows B k dest verify durable bands ?b =
        (Inr (foldl count_item stats_default (its @ concat (map data order))), u)"
      "same_out (n_in (h_net s)) (n_in (h_net u))" "staged_rem (n_in (h_net u)) = []"
      "trace (os_of (h_net u)) = trace (os_of (h_net s)) @ concat segs"
      "list_all2 (filed dest durable) (its # map data order) segs"
    using a(2,5) by auto
  obtain sh fx where fl: "flush_directories k (n_sh (h_net u)) = (Inr (), sh)"
      "trace (sh_os sh) = trace (os_of (h_net u)) @ fx"
    using flush_directories_live [OF k] by blast
  let ?v = "u\<lparr>h_net := (h_net u)\<lparr>n_sh := sh\<rparr>\<rparr>"
  have v: "on_net (net_sh (flush_directories k)) u = (Inr (), ?v)"
    using fl(1) by (simp add: on_net_def net_sh_def zoom_def)
  obtain w where w: "stream_write [ACK] (h_net ?v) = (Inr (), w)"
    using u(2) s(5) by (simp add: stream_write_def net_in_def zoom_def sock_write_all_def)
  have "accept_multi B k dest token durable streams verify s =
      (Inr (foldl count_item stats_default (its @ concat (map data order))), ?v\<lparr>h_net := w\<rparr>)"
    using a(1) b(1) u(1) v w by (simp add: accept_multi_def on_net_def zoom_def io_bind_def)
  moreover from stream_write_out [OF w] u(2,3) have
    "outgoing (s_stream (n_in w)) = outgoing (s_stream (n_in (h_net s))) @ [ACK]" "staged_rem (n_in w) = []"
    "n_sh w = sh" by simp_all
  ultimately show ?thesis
    using fl(2) u(4,5) by (intro exI [of _ "?v\<lparr>h_net := w\<rparr>"] exI [of _ segs] exI [of _ fx]) simp
qed

lemma concat_reordered: "mset xs = mset ys \<Longrightarrow> mset (concat (map f xs)) = mset (concat (map f ys))"
proof -
  assume e: "mset xs = mset ys"
  have "mset (concat (map f zs)) = sum_mset (image_mset (mset \<circ> f) (mset zs))" for zs
    by (induction zs) simp_all
  with e show ?thesis by simp
qed

text \<open>The bytes of each connection: the manifest goes with the first.\<close>

definition flow_bytes :: "'h blake3 \<Rightarrow> bool \<Rightarrow> bytes \<Rightarrow> u32 \<Rightarrow> entry list \<Rightarrow> (nat \<Rightarrow> item list) \<Rightarrow> nat \<Rightarrow> bytes" where
  "flow_bytes B verify token streams es data l =
     encode_handshake_multi (flags_of verify) token streams (word_of_nat l) @
     (if l = 0 then manifest_bytes es else []) @ concat (map (frame B verify) (data l)) @ write_terminator"

lemma conns_bringing:
  assumes "\<forall>c \<in> set cs. conn_fit c" and "length cs = length order" and "0 \<notin> set order"
  shows "list_all2 (\<lambda>l c. conn_fit c \<and> incoming (c_sock c) =
       encode_handshake_multi (flags_of verify) token streams (word_of_nat l) @
       concat (map (frame B verify) (data l)) @ write_terminator) order
     (map2 bringing (map (flow_bytes B verify token streams es data) order) cs)"
proof (rule list_all2_all_nthI)
  let ?fb = "flow_bytes B verify token streams es data"
  fix i assume i: "i < length order"
  have "order ! i \<noteq> 0" using assms(3) nth_mem [OF i] by metis
  moreover have "conn_fit (cs ! i)" using assms(1,2) i by simp
  ultimately show "conn_fit (map2 bringing (map ?fb order) cs ! i) \<and>
      incoming (c_sock (map2 bringing (map ?fb order) cs ! i)) =
        encode_handshake_multi (flags_of verify) token streams (word_of_nat (order ! i)) @
        concat (map (frame B verify) (data (order ! i))) @ write_terminator"
    using i assms(2) bringing_fit [of "cs ! i" "?fb (order ! i)"] by (simp add: flow_bytes_def)
qed (simp add: assms(2))

lemma flows_fitting:
  assumes "\<forall>f \<in> set fs. flow_fit n f" and "length fs = length order" and "\<forall>l \<in> set order. need l \<le> n"
  shows "list_all2 (\<lambda>l. flow_fit (need l)) order fs"
proof (rule list_all2_all_nthI)
  fix i assume i: "i < length order"
  then have "flow_fit n (fs ! i)" "need (order ! i) \<le> n" using assms nth_mem [OF i] by simp_all
  then show "flow_fit (need (order ! i)) (fs ! i)" by (auto simp: flow_fit_def intro: order_trans)
qed (simp add: assms(2))

text \<open>The indices a session of this many flows has for its further connections.\<close>

lemma order_indices:
  assumes "mset order = mset [1..<unat streams]" and "1 < streams"
  shows "set order = {1..<unat streams}" and "length order = unat (streams - 1)"
    and "\<forall>l \<in> set order. 0 < (word_of_nat l :: u32) \<and> (word_of_nat l :: u32) < streams"
proof -
  show so: "set order = {1..<unat streams}" using mset_eq_setD [OF assms(1)] by simp
  show "length order = unat (streams - 1)"
    using mset_eq_length [OF assms(1)] assms(2) unat_minus_one [of streams] by (cases "streams = 0") auto
  have "l < 2 ^ 32" if "l < unat streams" for l
    using that unsigned_less [of streams, where ?'a = nat] by simp
  then show "\<forall>l \<in> set order. 0 < (word_of_nat l :: u32) \<and> (word_of_nat l :: u32) < streams"
    by (auto simp: so word_less_nat_alt unat_of_nat)
qed

text \<open>The primary connection, up to the answer.\<close>

lemma primary_answered:
  assumes k: "willing k" and dest: "utf8_valid dest" "0 \<notin> set dest" and tok: "length token = TOKEN_LEN"
    and c: "conn_fit c" and cnt: "1 < streams" "streams \<le> MAX_STREAMS"
    and n: "n_room n = None" "\<forall>b \<in> set (n_pool n). snd b \<noteq> []"
    and es: "\<forall>e \<in> set es. wf_entry e" and b: "bits = the_answer k dest es (os_of n)"
    and i: "incoming (c_sock c) =
      encode_handshake_multi (flags_of verify) token streams 0 @ manifest_bytes es @ rest"
  shows "\<exists>r t pre. verify_handshake token (c_sock c) = (Inr (verify, Some (streams, 0)), r) \<and>
    answer_manifest k dest (n\<lparr>n_in := staged_new r\<rparr>) =
      (Inr (word_of_nat (length (skipped es bits)), sum_list (map e_size (skipped es bits))), t) \<and>
    ready t \<and> n_pool t = n_pool n \<and> staged_rem (n_in t) = rest \<and> write_events (s_stream (n_in t)) = [] \<and>
    outgoing (s_stream (n_in t)) = encode_bitmap bits \<and> trace (os_of t) = trace (os_of n) @ pre"
proof -
  have c': "sock_healthy (c_sock c)" "outgoing (c_sock c) = []" "write_events (c_sock c) = []"
    using c by (simp_all add: conn_fit_def)
  from verify_handshake_multi_live [OF c'(1) tok cnt i] c'(2,3) obtain r where
    r: "verify_handshake token (c_sock c) = (Inr (verify, Some (streams, 0)), r)" "sock_healthy r"
      "incoming r = manifest_bytes es @ rest" "outgoing r = []" "write_events r = []" by auto
  let ?n = "n\<lparr>n_in := staged_new r\<rparr>"
  have rn: "ready ?n" using n staged_new_healthy [OF r(2)] by (simp add: ready_def)
  have rm: "staged_rem (n_in ?n) = manifest_bytes es @ rest" using r(3) by simp
  have st: "s_stream (n_in ?n) = r" by (simp add: staged_new_def)
  have wn: "write_events (s_stream (n_in ?n)) = []" and bn: "bits = the_answer k dest es (os_of ?n)"
    using st r(5) b by simp_all
  from answer_manifest_live [OF k dest rn es rm wn bn] st r(1,4) show ?thesis by auto
qed

lemma accept_session_live:
  assumes k: "willing k" and B: "blake3_ok B absorbed" and dest: "utf8_valid dest" "0 \<notin> set dest"
    and tok: "length token = TOKEN_LEN" and s: "receivers_fit n (unat streams) s"
    and cnt: "1 < streams" "streams \<le> MAX_STREAMS"
    and es: "\<forall>e \<in> set es. wf_entry e" and b: "bits = the_answer k dest es (os_of (h_net s))"
    and o: "mset order = mset [1..<unat streams]"
    and d: "\<forall>l < unat streams. (\<forall>it \<in> set (data l). sendable it) \<and> sum_list (map bufs_of (data l)) \<le> n"
  shows "\<exists>s' pre segs post.
    accept_one B k dest token durable (wired_all (map (flow_bytes B verify token streams es data) (0 # order)) s) =
      (Inr ((foldl count_item stats_default (concat (map data (0 # order))))
         \<lparr>st_skipped_files := word_of_nat (length (skipped es bits)),
          st_skipped_bytes := sum_list (map e_size (skipped es bits))\<rparr>), s') \<and>
    outgoing (s_stream (n_in (h_net s'))) = encode_bitmap bits @ [ACK] \<and> staged_rem (n_in (h_net s')) = [] \<and>
    trace (os_of (h_net s')) = trace (os_of (h_net s)) @ pre @ concat segs @ post \<and>
    list_all2 (filed dest durable) (map data (0 # order)) segs"
proof -
  let ?c = "unat streams" and ?fb = "flow_bytes B verify token streams es data"
  have pos: "1 < ?c" using cnt(1) by (simp add: word_less_nat_alt)
  note idx = order_indices [OF o cnt(1)]
  have lo: "length order = ?c - 1" using mset_eq_length [OF o] by simp
  from s obtain cs extra where cs: "h_conns s = cs @ extra" "length cs = ?c" "\<forall>c \<in> set cs. conn_fit c"
    unfolding receivers_fit_def by blast
  from s obtain fs extra' where fs: "h_flows s = fs @ extra'" "length fs = ?c - 1" "\<forall>f \<in> set fs. flow_fit n f"
    unfolding receivers_fit_def by blast
  from cs(2) pos obtain c1 cs1 where c1: "cs = c1 # cs1" "length cs1 = length order" using lo by (cases cs) auto
  let ?w = "wired_all (map ?fb (0 # order)) s" and ?q = "bringing (?fb 0) c1"
  have conns: "h_conns ?w = ?q # map2 bringing (map ?fb order) cs1 @ extra"
    using cs(1) c1 by (simp add: wired_all_def zip_append2)
  let ?data = "concat (map (frame B verify) (data 0)) @ write_terminator"
  have q: "conn_fit ?q" "incoming (c_sock ?q) =
      encode_handshake_multi (flags_of verify) token streams 0 @ manifest_bytes es @ ?data"
    using bringing_fit [of c1 "?fb 0"] cs(3) c1(1) by (simp_all add: flow_bytes_def)
  have np: "n_room (h_net s) = None" "\<forall>b \<in> set (n_pool (h_net s)). snd b \<noteq> []" "n \<le> length (n_pool (h_net s))"
    using s by (simp_all add: receivers_fit_def flow_fit_def)
  from primary_answered [OF k dest tok q(1) cnt np(1,2) es b q(2)] obtain r t pre where
    r: "verify_handshake token (c_sock ?q) = (Inr (verify, Some (streams, 0)), r)" and
    t: "answer_manifest k dest ((h_net s)\<lparr>n_in := staged_new r\<rparr>) =
        (Inr (word_of_nat (length (skipped es bits)), sum_list (map e_size (skipped es bits))), t)"
      "ready t" "n_pool t = n_pool (h_net s)" "staged_rem (n_in t) = ?data"
      "write_events (s_stream (n_in t)) = []" "outgoing (s_stream (n_in t)) = encode_bitmap bits"
      "trace (os_of t) = trace (os_of (h_net s)) @ pre" by (elim exE conjE)
  let ?t = "?w\<lparr>h_conns := map2 bringing (map ?fb order) cs1 @ extra, h_net := t\<rparr>"
  have c0: "0 < ?c" using pos by simp
  have "sum_list (map bufs_of (data 0)) \<le> n" "\<forall>it \<in> set (data 0). sendable it" using d c0 by blast+
  then have tt: "ready (h_net ?t)" "\<forall>it \<in> set (data 0). sendable it"
      "sum_list (map bufs_of (data 0)) \<le> length (n_pool (h_net ?t))"
      "staged_rem (n_in (h_net ?t)) = ?data" "write_events (s_stream (n_in (h_net ?t))) = []"
    using t np(3) by simp_all
  have lt: "l < ?c" if "l \<in> set order" for l using that idx(1) by simp
  have dat: "\<forall>l \<in> set order. \<forall>it \<in> set (data l). sendable it" using d lt by blast
  have ocs: "list_all2 (\<lambda>l c. conn_fit c \<and> incoming (c_sock c) =
       encode_handshake_multi (flags_of verify) token streams (word_of_nat l) @
       concat (map (frame B verify) (data l)) @ write_terminator) order (map2 bringing (map ?fb order) cs1)"
    by (rule conns_bringing) (use cs(3) c1 idx(1) in auto)
  have ffs: "list_all2 (\<lambda>l. flow_fit (sum_list (map bufs_of (data l)))) order fs"
    by (rule flows_fitting [OF fs(3)]) (use fs(2) lo d lt in auto)
  have hc: "h_conns ?t = map2 bringing (map ?fb order) cs1 @ extra" and hf: "h_flows ?t = fs @ extra'"
    using fs(1) by (simp_all add: wired_all_def)
  from accept_multi_live [OF k B dest tok tt idx(3,2) ocs hc dat ffs hf, of durable] obtain u segs post where
    u: "accept_multi B k dest token durable streams verify ?t =
        (Inr (foldl count_item stats_default (data 0 @ concat (map data order))), u)"
      "outgoing (s_stream (n_in (h_net u))) = encode_bitmap bits @ [ACK]" "staged_rem (n_in (h_net u)) = []"
      "trace (os_of (h_net u)) = trace (os_of (h_net s)) @ pre @ concat segs @ post"
      "list_all2 (filed dest durable) (data 0 # map data order) segs"
    using t(6,7) by auto
  have hn: "h_net ?w = h_net s" by (simp add: wired_all_def)
  have "accept_one B k dest token durable ?w =
      (Inr ((foldl count_item stats_default (data 0 @ concat (map data order)))
         \<lparr>st_skipped_files := word_of_nat (length (skipped es bits)),
          st_skipped_bytes := sum_list (map e_size (skipped es bits))\<rparr>), u)"
    using conns q(1) [unfolded conn_fit_def] r t(1) u(1) hn
    by (simp add: accept_one_def accept_conn_def sock_option_def on_sock_def take_stream_def on_net_def
        zoom_def io_bind_def)
  with u(2-5) show ?thesis
    by (intro exI [of _ u] exI [of _ pre] exI [of _ segs] exI [of _ post]) simp
qed

section \<open>Both ends\<close>

lemma deal_sum:
  fixes f :: "source_item \<Rightarrow> nat"
  assumes "0 < cnt" "lane \<in> set (deal cnt items)"
  shows "sum_list (map f lane) \<le> sum_list (map f items)"
proof -
  have "mset lane \<subseteq># mset (concat (deal cnt items))"
    by (rule split_list [OF assms(2), THEN exE], elim exE) simp
  then have "mset lane \<subseteq># mset items" using deal_mset [OF assms(1)] by simp
  then have "image_mset f (mset lane) \<subseteq># image_mset f (mset items)" by (rule image_mset_subseteq_mono)
  then obtain r where "image_mset f (mset items) = image_mset f (mset lane) + r" by (auto simp: subset_mset.le_iff_add)
  then have "sum_mset (image_mset f (mset items)) = sum_mset (image_mset f (mset lane)) + sum_mset r" by simp
  then show ?thesis by (simp flip: mset_map add: sum_mset_sum_list)
qed

lemma length_items_of: "length ps = length items \<Longrightarrow> length (items_of items ps) = length items"
  by (simp add: items_of_def)

lemma length_concat_items:
  "length pss = length lanes \<Longrightarrow> \<forall>l < length lanes. length (pss ! l) = length (lanes ! l) \<Longrightarrow>
   length (concat (map2 items_of lanes pss)) = length (concat lanes)"
proof (induction lanes pss rule: list_induct2')
  case (4 l lanes p pss)
  then have "length p = length l" "\<forall>i < length lanes. length (pss ! i) = length (lanes ! i)" by auto
  with 4 show ?case by (simp add: length_items_of)
qed simp_all

lemma mset_order: "1 < cnt \<Longrightarrow> mset order = mset [1..<cnt] \<Longrightarrow> mset (0 # order) = mset [0..<cnt]"
  by (simp add: upt_rec [of 0 cnt])

lemma concat_lanes:
  "mset order = mset [0..<length lanes] \<Longrightarrow> length pss = length lanes \<Longrightarrow>
   mset (concat (map (\<lambda>l. items_of (lanes ! l) (pss ! l)) order)) = mset (concat (map2 items_of lanes pss))"
proof -
  assume o: "mset order = mset [0..<length lanes]" and n: "length pss = length lanes"
  have "map2 items_of lanes pss = map (\<lambda>l. items_of (lanes ! l) (pss ! l)) [0..<length lanes]"
    by (rule nth_equalityI) (simp_all add: n)
  with concat_reordered [OF o, of "\<lambda>l. items_of (lanes ! l) (pss ! l)"] show ?thesis by simp
qed

lemma fitting_dials:
  assumes "senders_fit items bits cnt t" "l < cnt"
  shows "dial_fit (deal cnt (fst (keep_unskipped items bits)) ! l) (se_dials t ! l)"
  using assms unfolding senders_fit_def
  by (auto simp: list_all2_conv_all_nth length_deal nth_append nth_Cons' split: if_splits)

lemma shares_sendable:
  assumes ok: "\<forall>i \<in> set items. sound_item i \<and> wf_entry (i_entry i) \<and> (\<exists>cs. sanitize (e_path (i_entry i)) = Inr cs)"
    and len: "length bits = length (offered (map i_entry items))"
    and fit: "senders_fit items bits cnt t" and cnt: "0 < cnt"
    and lanes: "lanes = deal cnt (fst (keep_unskipped items bits))"
    and sent: "\<forall>l < cnt. length (pss ! l) = length (lanes ! l) \<and>
        (\<forall>it \<in> set (items_of (lanes ! l) (pss ! l)). length (snd it) = payload_len (fst it)) \<and>
        shown (dl_disk (se_dials t ! l)) (lanes ! l) (pss ! l)"
  shows "\<forall>l < cnt. (\<forall>it \<in> set (items_of (lanes ! l) (pss ! l)). sendable it) \<and>
      sum_list (map bufs_of (items_of (lanes ! l) (pss ! l))) \<le> sum_list (map buffers_of items)"
proof (intro allI impI)
  fix l assume l: "l < cnt"
  obtain kept st where k: "keep_unskipped items bits = (kept, st)" by fastforce
  note kp = keep_loop_skipped [OF len k [unfolded keep_unskipped_def]]
  have m: "lanes ! l \<in> set (deal cnt kept)" using lanes k l by (simp add: length_deal)
  have sub: "set (lanes ! l) \<subseteq> set items" using deal_set [OF cnt m] kp by blast
  note sl = sent [rule_format, OF l]
  have d: "dial_fit (lanes ! l) (se_dials t ! l)" using fitting_dials [OF fit l] lanes by simp
  have "\<forall>it \<in> set (items_of (lanes ! l) (pss ! l)). sendable it"
    by (rule shown_sendable [of "dl_disk (se_dials t ! l)"]) (use sl d ok sub in \<open>auto simp: dial_fit_def\<close>)
  moreover have "sum_list (map bufs_of (items_of (lanes ! l) (pss ! l))) = sum_list (map buffers_of (lanes ! l))"
    by (rule bufs_of_items) (use sl in auto)
  ultimately show "(\<forall>it \<in> set (items_of (lanes ! l) (pss ! l)). sendable it) \<and>
      sum_list (map bufs_of (items_of (lanes ! l) (pss ! l))) \<le> sum_list (map buffers_of items)"
    using deal_sum [OF cnt m, of buffers_of] kp by simp
qed

lemma shares_counted:
  assumes order: "mset order = mset [1..<cnt]" and cnt: "1 < cnt" and lanes: "lanes = deal cnt kept"
    and n: "length pss = cnt" "\<forall>l < cnt. length (pss ! l) = length (lanes ! l)"
  shows "foldl count_item st (concat (map (\<lambda>l. items_of (lanes ! l) (pss ! l)) (0 # order))) =
      foldl count_item st (concat (map2 items_of lanes pss))"
    and "st_files (foldl count_item st (concat (map2 items_of lanes pss))) = st_files st + word_of_nat (length kept)"
proof -
  have ll: "length lanes = cnt" by (simp add: lanes length_deal)
  have "mset (0 # order) = mset [0..<length lanes]" unfolding ll by (rule mset_order [OF cnt order])
  from concat_lanes [OF this] n ll show
    "foldl count_item st (concat (map (\<lambda>l. items_of (lanes ! l) (pss ! l)) (0 # order))) =
      foldl count_item st (concat (map2 items_of lanes pss))" by (intro count_items_mset) simp
  have "length (concat lanes) = length kept" using mset_eq_length [OF deal_mset [of cnt kept]] cnt lanes by simp
  with length_concat_items [of pss lanes] n ll
  show "st_files (foldl count_item st (concat (map2 items_of lanes pss))) = st_files st + word_of_nat (length kept)"
    by (simp add: count_items)
qed

lemma session_wires:
  assumes "outgoing (ln_sock (se_lane t)) = encode_handshake_multi (flags_of verify) token streams 0 @
      manifest_bytes es @ frames B verify (lanes ! 0) (pss ! 0) @ write_terminator"
    and "\<forall>l < cnt. 0 < l \<longrightarrow> outgoing (se_bands t ! (l - 1)) =
      encode_handshake_multi (flags_of verify) token streams (word_of_nat l) @
      frames B verify (lanes ! l) (pss ! l) @ write_terminator"
    and "mset order = mset [1..<cnt]"
  shows "outgoing (ln_sock (se_lane t)) # map (\<lambda>l. outgoing (se_bands t ! (l - 1))) order =
    map (flow_bytes B verify token streams es (\<lambda>l. items_of (lanes ! l) (pss ! l))) (0 # order)"
proof -
  have "set order = {1..<cnt}" using mset_eq_setD [OF assms(3)] by simp
  then have "map (\<lambda>l. outgoing (se_bands t ! (l - 1))) order =
      map (flow_bytes B verify token streams es (\<lambda>l. items_of (lanes ! l) (pss ! l))) order"
    using assms(2) by (intro map_cong) (auto simp: flow_bytes_def frames_def)
  with assms(1) show ?thesis by (simp add: flow_bytes_def frames_def)
qed

text \<open>
  C2. A transfer over several connections works. Under the conditions of a transfer over one,
  with a number of flows the wire allows, the further connections reaching the receiver in
  any order, and every flow of either end with the buffers its share takes: both sessions
  succeed with the same counts, the receiver answers with its bits and one acknowledgement,
  and its log brings, flow after flow, the complete file logs of the share of the items that
  was dealt to the flow, with the bytes that flow's disk showed, each file created in the
  directory its path names, written through the descriptor of that creation and renamed
  there to its last component. By \<open>dealt_round_robin\<close> the
  shares are all that was left to send.
\<close>

theorem transfer_over_flows:
  assumes "willing k" and "blake3_ok B absorbed" and "utf8_valid dest" and "0 \<notin> set dest"
    and "length token = TOKEN_LEN" and "walk look paths = (Inr items, warned)"
    and "\<forall>p \<in> set paths. tidy (look p) \<and> 0 \<notin> set p"
    and "\<forall>i \<in> set items. length (e_path (i_entry i)) \<le> MAX_PATH_LEN \<and>
      (e_kind (i_entry i) = Symlink \<longrightarrow> e_size (i_entry i) \<le> word_of_nat MAX_PATH_LEN)"
    and "1 < streams" and "streams \<le> MAX_STREAMS" and "mset order = mset [1..<unat streams]"
    and "receivers_fit (sum_list (map buffers_of items)) (unat streams) s"
    and "bits = the_answer k dest (map i_entry items) (os_of (h_net s))"
    and "kept = fst (keep_unskipped items bits)" and "lanes = deal (unat streams) kept"
    and "senders_fit items bits (unat streams) t"
  shows "\<exists>st t' s' pss pre segs post. send_multi B look paths token verify streams t = (Inr st, t') \<and>
    accept_one B k dest token durable
      (wired_all (outgoing (ln_sock (se_lane t')) # map (\<lambda>l. outgoing (se_bands t' ! (l - 1))) order) s) = (Inr st, s') \<and>
    outgoing (s_stream (n_in (h_net s'))) = encode_bitmap bits @ [ACK] \<and> staged_rem (n_in (h_net s')) = [] \<and>
    st_files st = word_of_nat (length kept) \<and>
    (\<forall>l < unat streams. shown (dl_disk (se_dials t ! l)) (lanes ! l) (pss ! l)) \<and>
    trace (os_of (h_net s')) = trace (os_of (h_net s)) @ pre @ concat segs @ post \<and>
    list_all2 (\<lambda>l. filed dest durable (items_of (lanes ! l) (pss ! l))) (0 # order) segs"
proof -
  let ?c = "unat streams"
  have pos: "1 < ?c" using assms(9) by (simp add: word_less_nat_alt)
  note ok = walked_fit [OF assms(6-8)]
  then have snd: "\<forall>i \<in> set items. sound_item i" and wf: "\<forall>e \<in> set (map i_entry items). wf_entry e" by auto
  have len: "length bits = length (offered (map i_entry items))"
    unfolding assms(13) by (rule length_the_answer [OF assms(1,3,4)])
  have w: "fst (walk look paths) = Inr items" using assms(6) by simp
  from send_multi_live [OF assms(2) w snd len assms(16) refl assms(9) assms(15) [unfolded assms(14)],
      of token verify] obtain t' pss where
    t: "send_multi B look paths token verify streams t =
      (Inr ((foldl count_item stats_default (concat (map2 items_of lanes pss)))
         \<lparr>st_skipped_files := word_of_nat (length (skipped (map i_entry items) bits)),
          st_skipped_bytes := sum_list (map e_size (skipped (map i_entry items) bits))\<rparr>), t')"
      "length pss = ?c"
      "outgoing (ln_sock (se_lane t')) = encode_handshake_multi (flags_of verify) token streams 0 @
        manifest_bytes (map i_entry items) @ frames B verify (lanes ! 0) (pss ! 0) @ write_terminator"
      "\<forall>l < ?c. 0 < l \<longrightarrow> outgoing (se_bands t' ! (l - 1)) =
        encode_handshake_multi (flags_of verify) token streams (word_of_nat l) @
        frames B verify (lanes ! l) (pss ! l) @ write_terminator"
      "\<forall>l < ?c. length (pss ! l) = length (lanes ! l) \<and>
        (\<forall>it \<in> set (items_of (lanes ! l) (pss ! l)). length (snd it) = payload_len (fst it)) \<and>
        shown (dl_disk (se_dials t ! l)) (lanes ! l) (pss ! l)" by (elim exE conjE)
  let ?data = "\<lambda>l. items_of (lanes ! l) (pss ! l)"
  have d: "\<forall>l < ?c. (\<forall>it \<in> set (?data l). sendable it) \<and>
      sum_list (map bufs_of (?data l)) \<le> sum_list (map buffers_of items)"
    by (rule shares_sendable [OF ok len assms(16) _ assms(15) [unfolded assms(14)] t(5)]) (use pos in simp)
  note wires = session_wires [OF t(3,4) assms(11)]
  have n: "\<forall>l < ?c. length (pss ! l) = length (lanes ! l)" using t(5) by blast
  note counts = shares_counted [OF assms(11) pos assms(15) t(2) n, of stats_default]
  define sum where "sum = (foldl count_item stats_default (concat (map2 items_of lanes pss)))
      \<lparr>st_skipped_files := word_of_nat (length (skipped (map i_entry items) bits)),
       st_skipped_bytes := sum_list (map e_size (skipped (map i_entry items) bits))\<rparr>"
  from accept_session_live [OF assms(1-5,12,9,10) wf assms(13,11) d, of durable verify] obtain s' pre segs post where
    "accept_one B k dest token durable
      (wired_all (outgoing (ln_sock (se_lane t')) # map (\<lambda>l. outgoing (se_bands t' ! (l - 1))) order) s) = (Inr sum, s')"
    "outgoing (s_stream (n_in (h_net s'))) = encode_bitmap bits @ [ACK]" "staged_rem (n_in (h_net s')) = []"
    "trace (os_of (h_net s')) = trace (os_of (h_net s)) @ pre @ concat segs @ post"
    "list_all2 (\<lambda>l. filed dest durable (?data l)) (0 # order) segs"
    unfolding wires counts(1) sum_def list_all2_map1 by (elim exE conjE)
  moreover have "send_multi B look paths token verify streams t = (Inr sum, t')" "st_files sum = word_of_nat (length kept)"
    using t(1) counts(2) by (simp_all add: sum_def stats_default_def)
  moreover have "\<forall>l < ?c. shown (dl_disk (se_dials t ! l)) (lanes ! l) (pss ! l)" using t(5) by blast
  ultimately show ?thesis by blast
qed

text \<open>The tree of the walk's example over three connections, the further ones swapped on the way.\<close>

definition sample_senders :: session where
  "sample_senders =
     \<lparr>se_lane = sample_lane [] [],
      se_dials = [sample_dial (encode_bitmap [False, False] @ [ACK]), sample_dial [], sample_dial []], se_bands = []\<rparr>"

definition sample_receivers :: "nat host" where
  "sample_receivers =
     sample_receiver\<lparr>h_conns := replicate 3 \<lparr>c_sock = sample_sock [], c_setup = None, c_idle = None\<rparr>,
       h_flows := replicate 2 (replicate 6 (False, [0, 0, 0]), None)\<rparr>"

lemma deal_five: "deal 3 [a, b, c, d, e] = [[a, d], [b, e], [c]]"
proof -
  have "replicate 3 ([] :: source_item list) = [[], [], []]" by (simp add: numeral_3_eq_3)
  then show ?thesis by (simp add: deal_def)
qed

lemma sample_dial_fit:
  "set items \<subseteq> set sample_walked \<Longrightarrow> length items \<le> 2 \<Longrightarrow> dial_fit items (sample_dial bs)"
proof -
  assume i: "set items \<subseteq> set sample_walked" "length items \<le> 2"
  let ?si = "\<lparr>si_link = Inr [0x64], si_file = Inr \<lparr>df_rest = [1, 2, 3], df_events = [Avail 2]\<rparr>\<rparr> :: sight"
  have "\<forall>i \<in> set sample_walked. still_there ?si (i_entry i) \<and> buffers_of i \<le> 3"
    by (simp add: sample_walked_def make_item_def Let_def still_there_def file_healthy_def buffers_of_def
        to_string_lossy.simps utf8_valid.simps)
  with i(1) have e: "\<forall>i \<in> set items. still_there ?si (i_entry i) \<and> buffers_of i \<le> 3" by blast
  then have "all_there (\<lambda>_. ?si) items" by (induction items) simp_all
  moreover have "links_named (\<lambda>_. ?si) items" by (induction items) (simp_all add: utf8_valid.simps)
  moreover have "sum_list (map buffers_of items) \<le> 3 * length items" using e by (induction items) auto
  ultimately show ?thesis
    using i(2) by (simp add: dial_fit_def sample_dial_def sock_healthy_def)
qed

lemma sample_senders_fit: "senders_fit sample_walked [False, False] 3 sample_senders"
proof -
  let ?d = "sample_dial (encode_bitmap [False, False] @ [ACK])" and ?ds = "[sample_dial [], sample_dial []]"
  obtain a b c d e where w: "sample_walked = [a, b, c, d, e]" by (simp add: sample_walked_def)
  have "list_all2 dial_fit (deal 3 sample_walked) (?d # ?ds)"
    unfolding w deal_five using sample_dial_fit by (simp add: w)
  moreover have "se_dials sample_senders = ?d # ?ds @ []" by (simp add: sample_senders_def)
  moreover have "incoming (dl_sock ?d) = encode_bitmap [False, False] @ [ACK]" by (simp add: sample_dial_def)
  ultimately show ?thesis unfolding senders_fit_def sample_kept by blast
qed

lemma sample_buffers: "sum_list (map buffers_of sample_walked) = 6"
  by (simp add: sample_walked_def buffers_of_def make_item_def Let_def)

lemma sample_receivers_fit: "receivers_fit (sum_list (map buffers_of sample_walked)) 3 sample_receivers"
proof -
  have "flow_fit 6 (replicate 6 (False, [0, 0, 0]), None)" by (simp add: flow_fit_def)
  moreover have "conn_fit \<lparr>c_sock = sample_sock [], c_setup = None, c_idle = None\<rparr>"
    by (simp add: conn_fit_def sample_sock_def sock_healthy_def)
  ultimately have "flow_fit 6 (n_pool (h_net sample_receivers), n_room (h_net sample_receivers))"
    "\<forall>c \<in> set (h_conns sample_receivers). conn_fit c" "\<forall>f \<in> set (h_flows sample_receivers). flow_fit 6 f"
    by (simp_all add: sample_receivers_def sample_receiver_def sample_net_def del: replicate_Suc)
  moreover have "h_conns sample_receivers = h_conns sample_receivers @ []" "length (h_conns sample_receivers) = 3"
    "h_flows sample_receivers = h_flows sample_receivers @ []" "length (h_flows sample_receivers) = 3 - 1"
    by (simp_all add: sample_receivers_def)
  ultimately show ?thesis unfolding receivers_fit_def sample_buffers by blast
qed

theorem transfer_over_flows_witness:
  "\<exists>st t' s' pss pre segs post.
     send_multi fold_hasher (\<lambda>_. sample_tree) [[0x2F, 0x74]] sample_token True 3 sample_senders = (Inr st, t') \<and>
     accept_one fold_hasher sample_kernel (ascii ''/in'') sample_token True
       (wired_all [outgoing (ln_sock (se_lane t')), outgoing (se_bands t' ! 1), outgoing (se_bands t' ! 0)]
         sample_receivers) = (Inr st, s') \<and>
     outgoing (s_stream (n_in (h_net s'))) = [0, ACK] \<and> staged_rem (n_in (h_net s')) = [] \<and> st_files st = 5 \<and>
     (\<forall>l < 3. shown (dl_disk (se_dials sample_senders ! l)) (deal 3 sample_walked ! l) (pss ! l)) \<and>
     trace (os_of (h_net s')) = pre @ concat segs @ post \<and>
     list_all2 (\<lambda>l. filed (ascii ''/in'') True (items_of (deal 3 sample_walked ! l) (pss ! l))) [0, 2, 1] segs"
proof -
  have tk: "length sample_token = TOKEN_LEN" by (simp add: sample_token_def TOKEN_LEN_def)
  have td: "\<forall>p \<in> set [[0x2F, 0x74]]. tidy ((\<lambda>_ :: bytes. sample_tree) p) \<and> 0 \<notin> set p"
    by (simp add: sample_tidy)
  have sz: "\<forall>i \<in> set sample_walked. length (e_path (i_entry i)) \<le> MAX_PATH_LEN \<and>
      (e_kind (i_entry i) = Symlink \<longrightarrow> e_size (i_entry i) \<le> word_of_nat MAX_PATH_LEN)"
    by (simp add: sample_walked_def make_item_def Let_def MAX_PATH_LEN_def)
  have n: "1 < (3 :: u32)" "(3 :: u32) \<le> MAX_STREAMS" "mset [2, 1] = mset [1..<unat (3 :: u32)]"
    by (simp_all add: MAX_STREAMS_def upt_rec)
  have u: "unat (3 :: u32) = 3" by simp
  have net: "h_net sample_receivers = h_net sample_receiver" by (simp add: sample_receivers_def)
  have bm: "encode_bitmap [False, False] = [0]" by (simp add: encode_bitmap_def div_ceil8_def)
  have tr: "trace (os_of (h_net sample_receiver)) = []"
    by (simp add: sample_receiver_def sample_net_def sample_shared_def)
  have ln: "length sample_walked = 5" by (simp add: sample_walked_def)
  note w = transfer_over_flows [OF sample_willing fold_hasher_ok sample_dest tk sample_walk td sz n
      sample_receivers_fit [folded u] sample_answer [folded net, symmetric] refl refl sample_senders_fit [folded u],
      of True True, unfolded sample_kept bm u net tr ln]
  then show ?thesis by simp
qed

end
