(* ===== verification/Answer.thy ===== *)
theory Answer
  imports EndToEnd
begin

text \<open>
  What the answer to a manifest says, with the directory each of its files was looked up in.
\<close>

text \<open>
  C10. Answering a manifest changes nothing: whatever its outcome, the calls it makes only
  open existing directories and read attributes. When it succeeds, the answer has one bit
  per file offered, in wire order; a bit is set only for a file that a \<open>fstatat\<close> of this answer,
  under the last component of its path and in a directory that the answer opened before as
  the path's parents below the destination, found to be a regular file of exactly the
  announced size and time; the bytes written are that bitmap and nothing else; and the counts reported are those of the files
  skipped.
\<close>

theorem manifest_answer:
  assumes "answer_manifest k dest s = (r, s')"
  shows "\<exists>new. trace (os_of s') = trace (os_of s) @ new \<and> (\<forall>e \<in> set new. reads_only e) \<and>
    (\<forall>fs bytes. r = Inr (fs, bytes) \<longrightarrow>
       (\<exists>es bits. staged_rem (n_in s) = manifest_bytes es @ staged_rem (n_in s') \<and>
          (\<forall>e \<in> set es. wf_entry e) \<and> answers dest new es bits \<and> length bits = length (offered es) \<and>
          outgoing (s_stream (n_in s')) = outgoing (s_stream (n_in s)) @ encode_bitmap bits \<and>
          fs = word_of_nat (length (skipped es bits)) \<and>
          bytes = sum_list (map e_size (skipped es bits))))"
proof -
  from specD [OF answer_manifest_reads [of "\<lambda>_. True"] _ assms] obtain new where
    new: "trace (os_of s') = trace (os_of s) @ new" "\<forall>e \<in> set new. reads_only e"
    by (auto simp: net_adds_def adds_def)
  have "\<exists>es bits. staged_rem (n_in s) = manifest_bytes es @ staged_rem (n_in s') \<and>
      (\<forall>e \<in> set es. wf_entry e) \<and> answers dest new es bits \<and> length bits = length (offered es) \<and>
      outgoing (s_stream (n_in s')) = outgoing (s_stream (n_in s)) @ encode_bitmap bits \<and>
      fs = word_of_nat (length (skipped es bits)) \<and> bytes = sum_list (map e_size (skipped es bits))"
    if r: "r = Inr (fs, bytes)" for fs bytes
  proof -
    obtain x t where x: "net_os (open_dir k dest) s = (x, t)" by (cases "net_os (open_dir k dest) s")
    with assms r obtain root where root: "x = Inr root" by (cases x) (auto simp: answer_manifest_def)
    note fx = net_os_frame [OF x]
    let ?n = "length (trace (os_of s))"
    from net_os_state [OF x] root obtain o' where o': "open_dir k dest (os_of s) = (Inr root, o')" "os_of t = o'"
      by auto
    from specE [OF open_dir_at_root [of ?n] _ o'(1)] o'(2) have at: "stands dest ?n [] root (os_of t)" by simp
    obtain y u where y: "manifest_loop (Suc (length (staged_rem (n_in t)))) k root
        parent_cache_default ([], 0, 0) t = (y, u)"
      by (cases "manifest_loop (Suc (length (staged_rem (n_in t)))) k root parent_cache_default ([], 0, 0) t")
    with assms r x root obtain bits fs' bytes' where yv: "y = Inr (bits, fs', bytes')"
      by (cases y) (auto simp: answer_manifest_def simp del: manifest_loop.simps)
    obtain z v where z: "stream_write (encode_bitmap bits) u = (z, v)" by (cases "stream_write (encode_bitmap bits) u")
    with assms r x root y yv have zv: "z = Inr ()" "s' = v" "fs = fs'" "bytes = bytes'"
      by (cases z; simp add: answer_manifest_def del: manifest_loop.simps)+
    note fz = stream_write_out [OF z]
    from manifest_loop_log [OF y [unfolded yv] at cache_at_default] obtain es where
      l: "\<forall>e \<in> set es. wf_entry e" "staged_rem (n_in t) = manifest_bytes es @ staged_rem (n_in u)"
        "outgoing (s_stream (n_in u)) = outgoing (s_stream (n_in t))"
        "answers dest (log_from ?n (os_of u)) es bits" "fs' = word_of_nat (length (skipped es bits))"
        "bytes' = sum_list (map e_size (skipped es bits))"
      by auto
    have "log_from ?n (os_of u) = new" using new(1) fz zv by (simp add: log_from_def)
    with l(4) have "answers dest new es bits" by simp
    with l fx fz zv answers_length [OF l(4)] show ?thesis
      by (intro exI [of _ es] exI [of _ bits]) simp
  qed
  with new show ?thesis by blast
qed

text \<open>A manifest is read in one way only.\<close>

lemma manifest_unique:
  "manifest_bytes es @ x = manifest_bytes es' @ y \<Longrightarrow> \<forall>e \<in> set es. wf_entry e \<Longrightarrow>
   \<forall>e \<in> set es'. wf_entry e \<Longrightarrow> es = es'"
proof (induction es arbitrary: es')
  case Nil
  show ?case
  proof (cases es')
    case (Cons e' more)
    with Nil.prems have wf: "wf_entry e'" by simp
    have s: "manifest_bytes es' @ y = entry_encode e' @ (manifest_bytes more @ y)"
      using Cons by (simp add: manifest_bytes_def)
    from cursor.decode_encode [OF _ s wf] cursor.decode_terminator [of "manifest_bytes [] @ x" x] Nil.prems(1)
    show ?thesis by (auto simp: manifest_bytes_def)
  qed simp
next
  case (Cons e es)
  have s: "manifest_bytes (e # es) @ x = entry_encode e @ (manifest_bytes es @ x)"
    by (simp add: manifest_bytes_def)
  from Cons.prems(2) have wf: "wf_entry e" by simp
  from cursor.decode_encode [OF _ s wf] have
    d: "entry_decode cursor_read (manifest_bytes (e # es) @ x) = (Inr (Some e), manifest_bytes es @ x)" by auto
  show ?case
  proof (cases es')
    case Nil
    with d Cons.prems(1) cursor.decode_terminator [of "manifest_bytes [] @ y" y] show ?thesis
      by (auto simp: manifest_bytes_def)
  next
    case c: (Cons e' more)
    with Cons.prems(3) have wf': "wf_entry e'" by simp
    have s': "manifest_bytes es' @ y = entry_encode e' @ (manifest_bytes more @ y)"
      using c by (simp add: manifest_bytes_def)
    from cursor.decode_encode [OF _ s' wf'] d Cons.prems(1) have
      "e' = e" "manifest_bytes es @ x = manifest_bytes more @ y" by auto
    with Cons.IH [OF this(2)] Cons.prems(2,3) c show ?thesis by simp
  qed
qed

text \<open>
  The sample entries and one file more, to a destination whose files all have five bytes and
  the time 9: the first file is skipped and the second is not.
\<close>

definition sample_offer :: "entry list" where
  "sample_offer =
     [\<lparr>e_kind = Dir, e_path = ascii ''a'', e_size = 0, e_mode = 0x41ED, e_mtime = 7\<rparr>,
      \<lparr>e_kind = File, e_path = ascii ''a/b'', e_size = 5, e_mode = 0x81A4, e_mtime = 9\<rparr>,
      \<lparr>e_kind = File, e_path = ascii ''c'', e_size = 4, e_mode = 0x81A4, e_mtime = 9\<rparr>]"

lemma sample_offer_answer:
  "the_answer sample_kernel (ascii ''/in'') sample_offer (os_of (sample_net bs)) = [True, False]"
  by (simp add: the_answer_def open_dir_def utf8_ascii ascii_def cstr_def call_fd_def call_def call_raw_def io_bind_def
      sample_offer_def file_held_def sanitize_def MAX_PATH_LEN_def SLASH_def DOT_def
      parent_get_def parent_cache_default_def open_dir_chain_def dup_fd_def open_dir_at_def stat_file_in_dir_def
      S_IFMT_def S_IFREG_def sample_net_def sample_shared_def)

theorem manifest_answer_witness:
  "\<exists>s' new. answer_manifest sample_kernel (ascii ''/in'') (sample_net (manifest_bytes sample_offer)) = (Inr (1, 5), s') \<and>
     trace (os_of s') = new \<and> (\<forall>e \<in> set new. reads_only e) \<and>
     outgoing (s_stream (n_in s')) = encode_bitmap [True, False] \<and> held (ascii ''/in'') new (sample_offer ! 1)"
proof -
  let ?s = "sample_net (manifest_bytes sample_offer)"
  have wf: "\<forall>e \<in> set sample_offer. wf_entry e"
    by (simp add: sample_offer_def wf_entry_def ascii_def)
  have r: "staged_rem (n_in ?s) = manifest_bytes sample_offer @ []" by (simp add: sample_rem)
  have w: "write_events (s_stream (n_in ?s)) = []" and o: "outgoing (s_stream (n_in ?s)) = []" "trace (os_of ?s) = []"
    by (simp_all add: sample_net_def sample_stream_def sample_shared_def)
  have sk: "skipped sample_offer [True, False] = [sample_offer ! 1]"
    by (simp add: skipped_def sample_offer_def)
  from answer_manifest_live [OF sample_willing sample_dest sample_ready wf r w sample_offer_answer [symmetric]]
  obtain s' where e: "answer_manifest sample_kernel (ascii ''/in'') ?s = (Inr (1, 5), s')"
      "outgoing (s_stream (n_in s')) = encode_bitmap [True, False]"
    unfolding sk o by (auto simp: sample_offer_def)
  from manifest_answer [OF e(1)] obtain new es bits where
    n: "trace (os_of s') = new" "\<forall>e \<in> set new. reads_only e"
      "manifest_bytes sample_offer @ [] = manifest_bytes es @ staged_rem (n_in s')"
      "\<forall>e \<in> set es. wf_entry e" "answers (ascii ''/in'') new es bits" "length bits = length (offered es)"
      "outgoing (s_stream (n_in s')) = encode_bitmap bits"
    unfolding r o by auto
  have es: "es = sample_offer" using manifest_unique [OF n(3) wf n(4)] by simp
  then have "length bits = 2" using n(6) by (simp add: sample_offer_def)
  then obtain p q where bits: "bits = [p, q]" by (auto simp: numeral_2_eq_2 length_Suc_conv)
  have "encode_bitmap [p, q] = encode_bitmap [True, False]" using n(7) e(2) bits by simp
  then have "p" by (cases p; cases q) (simp_all add: encode_bitmap_def div_ceil8_def)
  with n(5) es bits have "held (ascii ''/in'') new (sample_offer ! 1)"
    by (simp add: answers_def sample_offer_def)
  with e n(1,2) show ?thesis by blast
qed

end
